(* ===== verification/Redis_Prelude.thy ===== *)
theory Redis_Prelude
  imports Main "HOL-Library.Word" "HOL-Library.Monad_Syntax"
begin

text \<open>
  Shared vocabulary of the development.

  \<^item> \<open>byte\<close> is the C type \<^verbatim>\<open>unsigned char\<close>, an 8-bit word; a buffer is a list of bytes and a
    pointer into it is an offset.
  \<^item> Unsigned machine integers are \<open>nat\<close> with the reduction modulo a power of two written out;
    signed ones are \<open>int\<close> with their range stated (\<open>int64\<close>).
  \<^item> A memory access outside its buffer and a failed \<^verbatim>\<open>assert\<close> are the value \<open>None\<close>: a theorem
    that an operation returns \<open>Some\<close> is a memory-safety theorem.
  \<^item> \<open>le_val\<close>/\<open>le_bytes\<close> are little-endian loads and stores, \<open>sgn_val\<close>/\<open>uns_val\<close> two's complement.
  \<^item> \<open>realloc_ok\<close> states what the sources rely on of the allocator (libc or jemalloc, behind
    \<^verbatim>\<open>zrealloc_usable\<close>): at least the requested size, the common prefix kept, the rest arbitrary.
\<close>

unbundle bit_operations_syntax

section \<open>Types and collections\<close>

type_synonym byte = "8 word"
type_synonym bytes = "byte list"

named_theorems mem_simps \<open>bounded reads and writes of buffers that are split at the access\<close>
named_theorems range_simps \<open>ranges and limits of the machine integers\<close>

abbreviation (input) UINT32_MAX :: nat where "UINT32_MAX \<equiv> 4294967295"
abbreviation (input) UINT64_MAX :: nat where "UINT64_MAX \<equiv> 18446744073709551615"
abbreviation (input) INT64_MAX :: int where "INT64_MAX \<equiv> 9223372036854775807"
abbreviation (input) INT64_MIN :: int where "INT64_MIN \<equiv> -9223372036854775808"

definition int64 :: "int \<Rightarrow> bool" where
  "int64 v \<longleftrightarrow> INT64_MIN \<le> v \<and> v \<le> INT64_MAX"

section \<open>Lists\<close>

lemma take_length_append [simp]: "n = length xs \<Longrightarrow> take n (xs @ ys) = xs"
  by simp

lemma drop_length_append [simp]: "n = length xs \<Longrightarrow> drop n (xs @ ys) = ys"
  by simp

lemma nth_length_append [simp]: "n = length xs \<Longrightarrow> (xs @ y # ys) ! n = y"
  by simp

lemma split_at:
  assumes "p + n \<le> length xs"
  obtains as bs cs where "xs = as @ bs @ cs" "length as = p" "length bs = n"
proof
  show "xs = take p xs @ take n (drop p xs) @ drop n (drop p xs)"
    by (simp only: append_take_drop_id)
  show "length (take p xs) = p" "length (take n (drop p xs)) = n" using assms by auto
qed

lemma length_2E:
  assumes "length xs = 2"
  obtains x y where "xs = [x, y]"
  using assms by (auto simp: length_Suc_conv numeral_2_eq_2)

lemma nth_pairs:
  "i < n \<Longrightarrow> concat (map (\<lambda>i. [f i, g i]) [0..<n]) ! (i * 2) = f i \<and>
              concat (map (\<lambda>i. [f i, g i]) [0..<n]) ! (i * 2 + 1) = g i"
proof (induction n)
  case 0
  then show ?case by simp
next
  case (Suc n)
  have len: "length (concat (map (\<lambda>i. [f i, g i]) [0..<n])) = n * 2" by (induction n) auto
  show ?case
  proof (cases "i < n")
    case True
    then show ?thesis using Suc len by (simp add: nth_append)
  next
    case False
    then have "i = n" using Suc.prems by simp
    then show ?thesis using len by (simp add: nth_append)
  qed
qed

section \<open>Bounded memory accesses\<close>

definition rd :: "bytes \<Rightarrow> nat \<Rightarrow> byte option" where
  "rd b i = (if i < length b then Some (b ! i) else None)"

definition mem_read :: "bytes \<Rightarrow> nat \<Rightarrow> nat \<Rightarrow> bytes option" where
  "mem_read b i n = (if i + n \<le> length b then Some (take n (drop i b)) else None)"

definition mem_write :: "bytes \<Rightarrow> nat \<Rightarrow> bytes \<Rightarrow> bytes option" where
  "mem_write b i xs =
     (if i + length xs \<le> length b then Some (take i b @ xs @ drop (i + length xs) b) else None)"

text \<open>\<^verbatim>\<open>memmove(b+dst, b+src, n)\<close> inside one buffer.\<close>

definition mem_move :: "bytes \<Rightarrow> nat \<Rightarrow> nat \<Rightarrow> nat \<Rightarrow> bytes option" where
  "mem_move b dst src n = do { xs \<leftarrow> mem_read b src n; mem_write b dst xs }"

text \<open>A failed \<^verbatim>\<open>assert\<close> stops the program.\<close>

definition c_assert :: "bool \<Rightarrow> unit option" where
  "c_assert P = (if P then Some () else None)"

lemma c_assert_True [simp]: "c_assert True = Some ()"
  by (simp add: c_assert_def)

lemma c_assert_False [simp]: "c_assert False = None"
  by (simp add: c_assert_def)

lemma c_assert_eq_Some [simp]: "c_assert P = Some u \<longleftrightarrow> P"
  by (simp add: c_assert_def)

lemma rd_append [mem_simps]: "i = length as \<Longrightarrow> rd (as @ x # cs) i = Some x"
  by (simp add: rd_def)

lemma rd_eq_Some: "rd b i = Some x \<longleftrightarrow> i < length b \<and> b ! i = x"
  by (auto simp: rd_def)

lemma mem_read_append [mem_simps]:
  "i = length as \<Longrightarrow> n = length bs \<Longrightarrow> mem_read (as @ bs @ cs) i n = Some bs"
  by (simp add: mem_read_def)

lemma mem_read_append0 [mem_simps]:
  "n = length bs \<Longrightarrow> mem_read (bs @ cs) 0 n = Some bs"
  by (simp add: mem_read_def)

lemma mem_write_append [mem_simps]:
  "i = length as \<Longrightarrow> length xs = length bs \<Longrightarrow>
   mem_write (as @ bs @ cs) i xs = Some (as @ xs @ cs)"
  by (simp add: mem_write_def)

lemma mem_write_append0 [mem_simps]:
  "length xs = length bs \<Longrightarrow> mem_write (bs @ cs) 0 xs = Some (xs @ cs)"
  by (simp add: mem_write_def)

lemma mem_write_length: "mem_write b i xs = Some b' \<Longrightarrow> length b' = length b"
  by (auto simp: mem_write_def split: if_splits)

text \<open>The two ways the sources move a tail: towards the end to make room, towards the start to
  close a gap.\<close>

lemma mem_move_up:
  assumes "src = length as" "dst = length as + k" "n = length bs" "k \<le> length cs"
  shows "\<exists>gap. length gap = k \<and>
           mem_move (as @ bs @ cs) dst src n = Some (as @ gap @ bs @ drop k cs)"
proof -
  define gap where "gap = take k (bs @ cs)"
  have "mem_move (as @ bs @ cs) dst src n = Some (as @ gap @ bs @ drop k cs)"
    using assms by (simp add: mem_move_def mem_read_def mem_write_def gap_def)
  moreover have "length gap = k" using assms by (simp add: gap_def)
  ultimately show ?thesis by blast
qed

lemma mem_move_down [mem_simps]:
  assumes "dst = length as" "src = length as + length gap" "n = length bs"
  shows "mem_move (as @ gap @ bs @ cs) dst src n =
           Some (as @ bs @ drop (length bs) (gap @ bs) @ cs)"
  using assms by (simp add: mem_move_def mem_read_def mem_write_def)

text \<open>A computation that succeeds still succeeds when its accesses do, by the shape of the program.\<close>

lemma ext_bind:
  assumes "Option.bind m f = Some r" "\<And>x. m = Some x \<Longrightarrow> m' = Some x" "\<And>x. f x = Some r \<Longrightarrow> g x = Some s"
  shows "Option.bind m' g = Some s"
  using assms by (cases m) auto

lemma ext_if:
  assumes "(if b then x else y) = Some r" "x = Some r \<Longrightarrow> x' = Some s" "y = Some r \<Longrightarrow> y' = Some s"
  shows "(if b then x' else y') = Some s"
  using assms by (simp split: if_splits)

lemma ext_map:
  assumes "map_option f m = Some r" "\<And>x. m = Some x \<Longrightarrow> m' = Some x"
  shows "map_option f m' = Some r"
  using assms by auto

section \<open>The allocator\<close>

text \<open>
  \<open>ra b n\<close> is the buffer \<^verbatim>\<open>zrealloc_usable(b, n, NULL)\<close> returns for the buffer \<open>b\<close>; its length is
  the usable size \<^verbatim>\<open>zmalloc_usable_size\<close> reports. \<open>ra [] n\<close> is a fresh allocation.
\<close>

type_synonym realloc_fn = "bytes \<Rightarrow> nat \<Rightarrow> bytes"

definition realloc_ok :: "realloc_fn \<Rightarrow> bool" where
  "realloc_ok ra \<longleftrightarrow>
     (\<forall>b n. n \<le> length (ra b n) \<and>
        take (min n (length b)) (ra b n) = take (min n (length b)) b)"

text \<open>An allocator for closed examples: exactly the requested size, new bytes zero.\<close>

definition realloc_zero :: realloc_fn where
  "realloc_zero b n = take n b @ replicate (n - length b) 0"

lemma realloc_ok_zero: "realloc_ok realloc_zero"
  by (auto simp: realloc_ok_def realloc_zero_def min_def)

lemma realloc_okD:
  assumes "realloc_ok ra"
  shows "n \<le> length (ra b n)"
    and "take (min n (length b)) (ra b n) = take (min n (length b)) b"
  using assms by (auto simp: realloc_ok_def)

lemma realloc_grow:
  assumes "realloc_ok ra" "length b \<le> n"
  obtains slack where "ra b n = b @ slack" "n \<le> length b + length slack"
proof
  have "take (length b) (ra b n) = b"
    using realloc_okD(2) [OF assms(1), of n b] assms(2) by (simp add: min_def split: if_splits)
  then show "ra b n = b @ drop (length b) (ra b n)"
    by (metis append_take_drop_id)
  show "n \<le> length b + length (drop (length b) (ra b n))"
    using realloc_okD(1) [OF assms(1), of n b] by simp
qed

lemma realloc_prefix:
  assumes "realloc_ok ra" "length as \<le> n"
  obtains slack where "ra (as @ bs) n = as @ slack" "n \<le> length as + length slack"
proof
  have "take (length as) (take (min n (length (as @ bs))) (ra (as @ bs) n)) = as"
    unfolding realloc_okD(2) [OF assms(1)] using assms(2) by (simp add: min_def)
  then have "take (length as) (ra (as @ bs) n) = as" using assms(2) by (simp add: min_def split: if_splits)
  then show "ra (as @ bs) n = as @ drop (length as) (ra (as @ bs) n)" by (metis append_take_drop_id)
  show "n \<le> length as + length (drop (length as) (ra (as @ bs) n))"
    using realloc_okD(1) [OF assms(1), of n "as @ bs"] by simp
qed

lemma realloc_shrink:
  assumes "realloc_ok ra" "n = length as"
  obtains slack where "ra (as @ bs) n = as @ slack"
proof
  have "take n (ra (as @ bs) n) = as"
    using realloc_okD(2) [OF assms(1), of n "as @ bs"] assms(2) by simp
  then show "ra (as @ bs) n = as @ drop n (ra (as @ bs) n)"
    by (metis append_take_drop_id)
qed

section \<open>Little-endian loads and stores\<close>

fun le_val :: "bytes \<Rightarrow> nat" where
  "le_val [] = 0"
| "le_val (b # bs) = unat b + 256 * le_val bs"

fun le_bytes :: "nat \<Rightarrow> nat \<Rightarrow> bytes" where
  "le_bytes 0 v = []"
| "le_bytes (Suc n) v = of_nat v # le_bytes n (v div 256)"

lemma length_le_bytes [simp]: "length (le_bytes n v) = n"
  by (induction n arbitrary: v) auto

lemma unat_of_nat_byte [simp]: "unat (of_nat v :: byte) = v mod 256"
  by (simp add: unat_of_nat)

lemma unat_byte_less [simp]: "unat (b :: byte) < 256"
  using unsigned_less [of b] by simp

lemma unat_eq_of_nat_byte: "unat b = v mod 256 \<Longrightarrow> of_nat v = (b :: byte)"
  by (metis unat_of_nat_byte unsigned_word_eqI)

lemma le_val_le_bytes: "le_val (le_bytes n v) = v mod 256 ^ n"
proof (induction n arbitrary: v)
  case 0
  then show ?case by simp
next
  case (Suc n)
  have "v mod 256 ^ Suc n = v mod (256 * 256 ^ n)" by simp
  also have "\<dots> = 256 * (v div 256 mod 256 ^ n) + v mod 256"
    by (rule mod_mult2_eq)
  finally show ?case using Suc by simp
qed

lemma le_val_less: "le_val bs < 256 ^ length bs"
proof (induction bs)
  case Nil
  then show ?case by simp
next
  case (Cons b bs)
  have "unat b + 256 * le_val bs < 256 + 256 * le_val bs" by simp
  also have "\<dots> \<le> 256 * 256 ^ length bs" using Cons by simp
  finally show ?case by simp
qed

lemma le_bytes_le_val [simp]: "n = length bs \<Longrightarrow> le_bytes n (le_val bs) = bs"
proof (induction bs arbitrary: n)
  case Nil
  then show ?case by simp
next
  case (Cons b bs)
  have "(of_nat (unat b + 256 * le_val bs) :: byte) = b"
    by (rule unat_eq_of_nat_byte) simp
  moreover have "(unat b + 256 * le_val bs) div 256 = le_val bs"
    by simp
  ultimately show ?case using Cons by simp
qed

text \<open>The shift-and-or form the sources write for such a load is the sum.\<close>

lemma shift_or_add:
  assumes "x < 2 ^ k"
  shows "(x :: nat) OR push_bit k y = x + 2 ^ k * y"
proof -
  have "take_bit k x = x" using assms by (simp add: take_bit_nat_eq_self_iff)
  then have "x AND push_bit k y = take_bit k x AND push_bit k y" by simp
  also have "\<dots> = 0" by (intro bit_eqI) (auto simp: bit_simps)
  finally have "x AND push_bit k y = 0" .
  then have "x OR push_bit k y = x + push_bit k y"
    by (simp add: disjunctive_add_eq_or)
  then show ?thesis by (simp add: push_bit_eq_mult mult.commute)
qed

section \<open>Masks on bytes\<close>

lemma unat_and_mask: "unat ((b :: byte) AND mask k) = unat b mod 2 ^ k"
proof -
  have "unat (take_bit k b) = take_bit k (unat b)" by (rule unsigned_take_bit_eq)
  then show ?thesis by (simp only: take_bit_eq_mask [symmetric] take_bit_eq_mod [where 'a = nat])
qed

lemma unat_and_hi: "unat ((b :: byte) AND NOT (mask k)) = unat b div 2 ^ k * 2 ^ k"
proof -
  have b: "b AND NOT (mask k) = push_bit k (drop_bit k b)"
    by (rule bit_word_eqI) (auto simp: bit_simps)
  have "unat b div 2 ^ k * 2 ^ k \<le> unat b" by (simp add: div_times_less_eq_dividend)
  then have le: "unat b div 2 ^ k * 2 ^ k < 256" using unat_byte_less [of b] by linarith
  have "unat (push_bit k (drop_bit k b)) = take_bit 8 (push_bit k (drop_bit k (unat b)))"
    by (simp only: unsigned_push_bit_eq unsigned_drop_bit_eq) (simp add: take_bit_nat_eq_self)
  also have "\<dots> = unat b div 2 ^ k * 2 ^ k"
    using le by (simp only: push_bit_eq_mult drop_bit_eq_div take_bit_eq_mod) simp
  finally show ?thesis by (simp only: b)
qed

lemma unat_or_add:
  assumes "unat x < 2 ^ k" "unat y mod 2 ^ k = 0"
  shows "unat (x OR y :: byte) = unat x + unat y"
proof -
  have "unat y = 2 ^ k * (unat y div 2 ^ k)" using assms(2) by auto
  then show ?thesis using shift_or_add [OF assms(1), of "unat y div 2 ^ k"]
    by (metis push_bit_eq_mult mult.commute unsigned_or_eq)
qed

lemma div_eq_range: "0 < k \<Longrightarrow> u div k * k = q * k \<longleftrightarrow> q * k \<le> u \<and> u < (Suc q) * (k::nat)"
  by (metis div_le_mono div_mult_self_is_m div_times_less_eq_dividend dividend_less_times_div less_mult_imp_div_less linorder_not_le mult.commute mult_Suc nat_less_le not_less_eq mult_cancel2 add.commute le_antisym less_Suc_eq_le)

lemma hi_masks:
  "(0x80 :: byte) = NOT (mask 7)" "(0xC0 :: byte) = NOT (mask 6)"
  "(0xE0 :: byte) = NOT (mask 5)" "(0xF0 :: byte) = NOT (mask 4)"
  by (simp_all add: mask_eq_exp_minus_1)

lemma lo_masks:
  "(0x7F :: byte) = mask 7" "(0x3F :: byte) = mask 6" "(0x1F :: byte) = mask 5" "(0xF :: byte) = mask 4"
  by (simp_all add: mask_eq_exp_minus_1)

lemma byte_eq_iff: "(a :: byte) = b \<longleftrightarrow> unat a = unat b"
  by (simp add: word_unat_eq_iff)

section \<open>Counters of 64 bits\<close>

abbreviation (input) ULONG_WRAP :: nat where
  "ULONG_WRAP \<equiv> 18446744073709551616"

definition ul_dec :: "nat \<Rightarrow> nat" where
  "ul_dec x = (x + (ULONG_WRAP - 1)) mod ULONG_WRAP"

definition ul_inc :: "nat \<Rightarrow> nat" where
  "ul_inc x = (x + 1) mod ULONG_WRAP"

lemma ul_dec_eq: "0 < x \<Longrightarrow> x < ULONG_WRAP \<Longrightarrow> ul_dec x = x - 1"
proof -
  assume "0 < x" "x < ULONG_WRAP"
  then have "ul_dec x = (x - 1 + ULONG_WRAP) mod ULONG_WRAP" by (simp add: ul_dec_def add.commute)
  then show ?thesis using \<open>x < ULONG_WRAP\<close> by simp
qed

lemma ul_inc_eq: "x + 1 < ULONG_WRAP \<Longrightarrow> ul_inc x = x + 1"
  by (simp add: ul_inc_def)

section \<open>Two's complement\<close>

definition sgn_val :: "nat \<Rightarrow> nat \<Rightarrow> int" where
  "sgn_val n u = (if u < 2 ^ (8 * n - 1) then int u else int u - 2 ^ (8 * n))"

definition uns_val :: "nat \<Rightarrow> int \<Rightarrow> nat" where
  "uns_val n v = nat (v mod 2 ^ (8 * n))"

lemma uns_val_less: "uns_val n v < 2 ^ (8 * n)"
  unfolding uns_val_def by (rule nat_less_iff [THEN iffD2]) auto

lemma sgn_uns_val:
  assumes "0 < n" "- (2 ^ (8 * n - 1)) \<le> v" "v < 2 ^ (8 * n - 1)"
  shows "sgn_val n (uns_val n v) = v"
proof -
  have two: "(2 :: int) ^ (8 * n) = 2 * 2 ^ (8 * n - 1)"
    using assms(1) by (metis Suc_pred' mult_pos_pos power_Suc zero_less_numeral)
  have pos: "(0 :: int) < 2 ^ (8 * n - 1)" by simp
  show ?thesis
  proof (cases "0 \<le> v")
    case True
    then have "uns_val n v = nat v" using assms two pos by (simp add: uns_val_def)
    moreover have "nat v < 2 ^ (8 * n - 1)" using assms True by (simp add: nat_less_iff)
    ultimately show ?thesis using True by (simp add: sgn_val_def)
  next
    case False
    have "v mod 2 ^ (8 * n) = (v + 2 ^ (8 * n)) mod 2 ^ (8 * n)" by simp
    also have "\<dots> = v + 2 ^ (8 * n)"
      using False assms two pos by (intro mod_pos_pos_trivial) linarith+
    finally have u: "uns_val n v = nat (v + 2 ^ (8 * n))" by (simp add: uns_val_def)
    have ge: "2 ^ (8 * n - 1) \<le> v + 2 ^ (8 * n)" using assms two by linarith
    have ge0: "0 \<le> v + 2 ^ (8 * n)" using ge pos by linarith
    have "\<not> nat (v + 2 ^ (8 * n)) < 2 ^ (8 * n - 1)"
      unfolding nat_less_iff [OF ge0] using ge by simp
    then show ?thesis using ge0 unfolding u sgn_val_def by simp
  qed
qed

lemma uns_sgn_val:
  assumes "0 < n" "u < 2 ^ (8 * n)"
  shows "uns_val n (sgn_val n u) = u"
proof -
  have "int u < 2 ^ (8 * n)" using assms(2) by (metis of_nat_less_iff of_nat_numeral of_nat_power)
  then have "int u mod 2 ^ (8 * n) = int u" by simp
  moreover have "(int u - 2 ^ (8 * n)) mod 2 ^ (8 * n) = int u mod 2 ^ (8 * n)"
    by (simp add: mod_diff_right_eq)
  ultimately show ?thesis by (simp add: sgn_val_def uns_val_def)
qed

lemma sgn_val_range:
  assumes "0 < n" "u < 2 ^ (8 * n)"
  shows "- (2 ^ (8 * n - 1)) \<le> sgn_val n u" "sgn_val n u < 2 ^ (8 * n - 1)"
proof -
  have two: "(2 :: int) ^ (8 * n) = 2 * 2 ^ (8 * n - 1)"
    using assms(1) by (metis Suc_pred' mult_pos_pos power_Suc zero_less_numeral)
  have u: "int u < 2 ^ (8 * n)" using assms(2) by (metis of_nat_less_iff of_nat_numeral of_nat_power)
  have le: "u < 2 ^ (8 * n - 1) \<longleftrightarrow> int u < 2 ^ (8 * n - 1)"
    by (metis of_nat_less_iff of_nat_numeral of_nat_power)
  show "- (2 ^ (8 * n - 1)) \<le> sgn_val n u" "sgn_val n u < 2 ^ (8 * n - 1)"
    using u le two unfolding sgn_val_def by (auto intro: order_trans [of _ 0])
qed

end
