(* ===== verification/Intset.thy ===== *)
theory Intset
  imports Redis_Prelude
begin

text \<open>
  \<^verbatim>\<open>src/intset.c\<close>: a set of 64-bit integers stored as one sorted array of 2, 4 or 8 byte little-endian
  numbers behind a header. The record \<open>intset\<close> is the C struct; \<open>is_contents\<close> is the flexible array
  member, as bytes. The host is little-endian, so the \<^verbatim>\<open>intrev32ifbe\<close> and \<^verbatim>\<open>memrev64ifbe\<close> macros are the
  identity (\<^verbatim>\<open>endianconv.h\<close>).

  The lemmas show that every operation keeps the invariant \<open>intset_ok\<close> and implements the
  operation on sets of integers (locale \<open>int_set\<close>, interpreted at the end), as long as the array
  has fewer than \<open>2 ^ 32\<close> bytes. \<open>intsetMoveTail\<close> counts bytes in a \<^verbatim>\<open>uint32_t\<close>, so the bound is needed.
\<close>

section \<open>State\<close>

record intset =
  is_encoding :: nat
  is_length :: nat
  is_contents :: bytes

abbreviation (input) INTSET_ENC_INT16 :: nat where "INTSET_ENC_INT16 \<equiv> 2"
abbreviation (input) INTSET_ENC_INT32 :: nat where "INTSET_ENC_INT32 \<equiv> 4"
abbreviation (input) INTSET_ENC_INT64 :: nat where "INTSET_ENC_INT64 \<equiv> 8"

text \<open>\<^verbatim>\<open>uint32_t\<close> arithmetic and the conversion to \<^verbatim>\<open>int\<close>.\<close>

definition u32 :: "int \<Rightarrow> nat" where
  "u32 x = nat (x mod 2 ^ 32)"

definition to_int32 :: "int \<Rightarrow> int" where
  "to_int32 x = sgn_val 4 (u32 x)"

section \<open>Operations\<close>

definition intsetValueEncoding :: "int \<Rightarrow> nat" where
  "intsetValueEncoding v =
     (if v < -2147483648 \<or> v > 2147483647 then INTSET_ENC_INT64
      else if v < -32768 \<or> v > 32767 then INTSET_ENC_INT32
      else INTSET_ENC_INT16)"

definition intsetGetEncoded :: "intset \<Rightarrow> int \<Rightarrow> nat \<Rightarrow> int option" where
  "intsetGetEncoded s pos enc =
     (if pos < 0 then None
      else if enc = INTSET_ENC_INT64 then
        do { b \<leftarrow> mem_read (is_contents s) (nat pos * 8) 8; Some (sgn_val 8 (le_val b)) }
      else if enc = INTSET_ENC_INT32 then
        do { b \<leftarrow> mem_read (is_contents s) (nat pos * 4) 4; Some (sgn_val 4 (le_val b)) }
      else
        do { b \<leftarrow> mem_read (is_contents s) (nat pos * 2) 2; Some (sgn_val 2 (le_val b)) })"

definition intsetGet_pos :: "intset \<Rightarrow> int \<Rightarrow> int option" where
  "intsetGet_pos s pos = intsetGetEncoded s pos (is_encoding s)"

definition intsetSet :: "intset \<Rightarrow> int \<Rightarrow> int \<Rightarrow> intset option" where
  "intsetSet s pos value =
     (if pos < 0 then None
      else do {
        c \<leftarrow> (if is_encoding s = INTSET_ENC_INT64 then
                mem_write (is_contents s) (nat pos * 8) (le_bytes 8 (uns_val 8 value))
              else if is_encoding s = INTSET_ENC_INT32 then
                mem_write (is_contents s) (nat pos * 4) (le_bytes 4 (uns_val 4 value))
              else
                mem_write (is_contents s) (nat pos * 2) (le_bytes 2 (uns_val 2 value)));
        Some (s\<lparr>is_contents := c\<rparr>)
      })"

definition intsetNew :: intset where
  "intsetNew = \<lparr>is_encoding = INTSET_ENC_INT16, is_length = 0, is_contents = []\<rparr>"

text \<open>\<^verbatim>\<open>sizeof(intset)\<close> is 8 and \<^verbatim>\<open>SIZE_MAX\<close> is \<open>2 ^ 64 - 1\<close>. The program may use the \<open>size\<close> bytes it asks for.\<close>

definition intsetResize :: "realloc_fn \<Rightarrow> intset \<Rightarrow> nat \<Rightarrow> intset option" where
  "intsetResize ra s len =
     (let sz = len * is_encoding s in
      do { c_assert (sz \<le> UINT64_MAX - 8);
           Some (s\<lparr>is_contents := take sz (ra (is_contents s) sz)\<rparr>) })"

text \<open>The loop of \<open>intsetSearch\<close>. \<^verbatim>\<open>mid\<close> is computed on \<^verbatim>\<open>unsigned int\<close>; with \<open>0 \<le> lo\<close> (\<^verbatim>\<open>min\<close>) and
  \<open>hi < 2 ^ 31\<close> (\<^verbatim>\<open>max\<close>) the sum does not wrap (\<open>mid_no_wrap\<close>).\<close>

function intsetSearch_loop ::
  "intset \<Rightarrow> int \<Rightarrow> int \<Rightarrow> int \<Rightarrow> int \<Rightarrow> int \<Rightarrow> (int \<times> int \<times> int) option" where
  "intsetSearch_loop s value lo hi mid cur =
     (if hi \<ge> lo then
        (let mid = (lo + hi) div 2 in
         do { cur \<leftarrow> intsetGet_pos s mid;
              if value > cur then intsetSearch_loop s value (mid + 1) hi mid cur
              else if value < cur then intsetSearch_loop s value lo (mid - 1) mid cur
              else Some (cur, mid, lo) })
      else Some (cur, mid, lo))"
  by pat_completeness auto
termination
  by (relation "measure (\<lambda>(s, value, lo, hi, mid, cur). nat (hi - lo + 1))") auto

declare intsetSearch_loop.simps [simp del]

text \<open>The result is the return value and \<^verbatim>\<open>*pos\<close>.\<close>

definition intsetSearch :: "intset \<Rightarrow> int \<Rightarrow> (bool \<times> nat) option" where
  "intsetSearch s value =
     (let lo = 0; hi = to_int32 (int (is_length s) - 1) in
      if is_length s = 0 then Some (False, 0)
      else do {
        last \<leftarrow> intsetGet_pos s hi;
        if value > last then Some (False, is_length s)
        else do {
          first \<leftarrow> intsetGet_pos s 0;
          if value < first then Some (False, 0)
          else do {
            (cur, mid, lo) \<leftarrow> intsetSearch_loop s value lo hi (-1) (-1);
            if value = cur then Some (True, u32 mid) else Some (False, u32 lo)
          }
        }
      })"

text \<open>\<^verbatim>\<open>while(length--) _intsetSet(is,length+prepend,_intsetGetEncoded(is,length,curenc))\<close>\<close>

fun intsetUpgrade_loop :: "intset \<Rightarrow> nat \<Rightarrow> nat \<Rightarrow> nat \<Rightarrow> intset option" where
  "intsetUpgrade_loop s curenc prepend 0 = Some s"
| "intsetUpgrade_loop s curenc prepend (Suc n) =
     do { v \<leftarrow> intsetGetEncoded s (int n) curenc;
          s' \<leftarrow> intsetSet s (int (n + prepend)) v;
          intsetUpgrade_loop s' curenc prepend n }"

text \<open>The \<^verbatim>\<open>int length\<close> of the source equals the length for sets of less than 2 ^ 31 elements.\<close>

definition intsetUpgradeAndAdd :: "realloc_fn \<Rightarrow> intset \<Rightarrow> int \<Rightarrow> intset option" where
  "intsetUpgradeAndAdd ra s value =
     (let curenc = is_encoding s;
          newenc = intsetValueEncoding value;
          len = is_length s;
          prepend = (if value < 0 then 1 else 0)
      in do {
        s1 \<leftarrow> intsetResize ra (s\<lparr>is_encoding := newenc\<rparr>) (u32 (int len + 1));
        s2 \<leftarrow> intsetUpgrade_loop s1 curenc prepend len;
        s3 \<leftarrow> (if prepend = 1 then intsetSet s2 0 value else intsetSet s2 (int len) value);
        Some (s3\<lparr>is_length := u32 (int len + 1)\<rparr>)
      })"

definition intsetMoveTail :: "intset \<Rightarrow> nat \<Rightarrow> nat \<Rightarrow> intset option" where
  "intsetMoveTail s from to =
     (let n = u32 (int (is_length s) - int from);
          (src, dst, bytes) =
            (if is_encoding s = INTSET_ENC_INT64 then (from * 8, to * 8, u32 (int (n * 8)))
             else if is_encoding s = INTSET_ENC_INT32 then (from * 4, to * 4, u32 (int (n * 4)))
             else (from * 2, to * 2, u32 (int (n * 2))))
      in do { c \<leftarrow> mem_move (is_contents s) dst src bytes; Some (s\<lparr>is_contents := c\<rparr>) })"

text \<open>The result is the set and \<^verbatim>\<open>*success\<close>.\<close>

definition intsetAdd :: "realloc_fn \<Rightarrow> intset \<Rightarrow> int \<Rightarrow> (intset \<times> bool) option" where
  "intsetAdd ra s value =
     (let valenc = intsetValueEncoding value in
      if valenc > is_encoding s then
        do { s' \<leftarrow> intsetUpgradeAndAdd ra s value; Some (s', True) }
      else do {
        (found, pos) \<leftarrow> intsetSearch s value;
        if found then Some (s, False)
        else do {
          s1 \<leftarrow> intsetResize ra s (u32 (int (is_length s) + 1));
          s2 \<leftarrow> (if pos < is_length s1 then intsetMoveTail s1 pos (u32 (int pos + 1)) else Some s1);
          s3 \<leftarrow> intsetSet s2 (to_int32 (int pos)) value;
          Some (s3\<lparr>is_length := u32 (int (is_length s3) + 1)\<rparr>, True)
        }
      })"

definition intsetRemove :: "realloc_fn \<Rightarrow> intset \<Rightarrow> int \<Rightarrow> (intset \<times> bool) option" where
  "intsetRemove ra s value =
     (let valenc = intsetValueEncoding value in
      if valenc \<le> is_encoding s then do {
        (found, pos) \<leftarrow> intsetSearch s value;
        if found then
          (let len = is_length s in
           do {
             s1 \<leftarrow> (if pos < u32 (int len - 1) then intsetMoveTail s (u32 (int pos + 1)) pos else Some s);
             s2 \<leftarrow> intsetResize ra s1 (u32 (int len - 1));
             Some (s2\<lparr>is_length := u32 (int len - 1)\<rparr>, True)
           })
        else Some (s, False)
      }
      else Some (s, False))"

definition intsetFind :: "intset \<Rightarrow> int \<Rightarrow> bool option" where
  "intsetFind s value =
     (let valenc = intsetValueEncoding value in
      if valenc \<le> is_encoding s then do { (found, pos) \<leftarrow> intsetSearch s value; Some found }
      else Some False)"

text \<open>\<open>r\<close> is the value \<^verbatim>\<open>rand()\<close> returns.\<close>

definition intsetRandom :: "nat \<Rightarrow> intset \<Rightarrow> int option" where
  "intsetRandom r s =
     (let len = is_length s in
      do { c_assert (len \<noteq> 0); intsetGet_pos s (to_int32 (int (r mod len))) })"

definition intsetMax :: "intset \<Rightarrow> int option" where
  "intsetMax s = intsetGet_pos s (to_int32 (int (is_length s) - 1))"

definition intsetMin :: "intset \<Rightarrow> int option" where
  "intsetMin s = intsetGet_pos s 0"

text \<open>\<open>Some None\<close>: out of range, 0 returned; \<open>Some (Some v)\<close>: 1 returned, \<open>v\<close> stored.\<close>

definition intsetGet :: "intset \<Rightarrow> nat \<Rightarrow> int option option" where
  "intsetGet s pos =
     (if pos < is_length s then do { v \<leftarrow> intsetGet_pos s (to_int32 (int pos)); Some (Some v) }
      else Some None)"

definition intsetLen :: "intset \<Rightarrow> nat" where
  "intsetLen s = is_length s"

definition intsetBlobLen :: "intset \<Rightarrow> nat" where
  "intsetBlobLen s = 8 + is_length s * is_encoding s"

text \<open>A blob seen as the struct.\<close>

definition intset_of_blob :: "bytes \<Rightarrow> intset" where
  "intset_of_blob p =
     \<lparr>is_encoding = le_val (take 4 p), is_length = le_val (take 4 (drop 4 p)), is_contents = drop 8 p\<rparr>"

fun intsetValidate_loop :: "intset \<Rightarrow> int \<Rightarrow> nat list \<Rightarrow> bool option" where
  "intsetValidate_loop s prev [] = Some True"
| "intsetValidate_loop s prev (i # idx) =
     do { cur \<leftarrow> intsetGet_pos s (to_int32 (int i));
          if cur \<le> prev then Some False else intsetValidate_loop s cur idx }"

definition intsetValidateIntegrity :: "bytes \<Rightarrow> nat \<Rightarrow> bool \<Rightarrow> bool option" where
  "intsetValidateIntegrity p sz deep =
     (if sz < 8 then Some False
      else
        (let s = intset_of_blob p; encoding = is_encoding s in
         if encoding \<notin> {INTSET_ENC_INT64, INTSET_ENC_INT32, INTSET_ENC_INT16} then Some False
         else
           (let record_size = encoding; count = is_length s in
            if 8 + count * record_size \<noteq> sz then Some False
            else if count = 0 then Some False
            else if \<not> deep then Some True
            else do {
              prev \<leftarrow> intsetGet_pos s 0;
              intsetValidate_loop s prev [1..<count]
            })))"

section \<open>Abstraction and invariant\<close>

definition in_range :: "nat \<Rightarrow> int \<Rightarrow> bool" where
  "in_range e v \<longleftrightarrow> - (2 ^ (8 * e - 1)) \<le> v \<and> v < 2 ^ (8 * e - 1)"

definition enc_int :: "nat \<Rightarrow> int \<Rightarrow> bytes" where
  "enc_int e v = le_bytes e (uns_val e v)"

definition dec_int :: "nat \<Rightarrow> bytes \<Rightarrow> int" where
  "dec_int e b = sgn_val e (le_val b)"

definition intset_elems :: "intset \<Rightarrow> int list" where
  "intset_elems s =
     map (\<lambda>i. dec_int (is_encoding s) (take (is_encoding s) (drop (i * is_encoding s) (is_contents s))))
       [0..<is_length s]"

definition intset_ok :: "intset \<Rightarrow> bool" where
  "intset_ok s \<longleftrightarrow>
     is_encoding s \<in> {2, 4, 8} \<and> length (is_contents s) = is_length s * is_encoding s \<and>
     sorted_wrt (<) (intset_elems s)"

section \<open>The array of encoded integers\<close>

definition enc_all :: "nat \<Rightarrow> int list \<Rightarrow> bytes" where
  "enc_all e xs = concat (map (enc_int e) xs)"

definition all_in_range :: "nat \<Rightarrow> int list \<Rightarrow> bool" where
  "all_in_range e xs \<longleftrightarrow> (\<forall>x \<in> set xs. in_range e x)"

lemma enc_all_simps [simp]:
  "enc_all e [] = []" "enc_all e (x # xs) = enc_int e x @ enc_all e xs"
  "enc_all e (xs @ ys) = enc_all e xs @ enc_all e ys"
  by (simp_all add: enc_all_def)

lemma length_enc_int [simp]: "length (enc_int e x) = e"
  by (simp add: enc_int_def)

lemma length_enc_all [simp]: "length (enc_all e xs) = length xs * e"
  by (induction xs) auto

lemma all_in_range_simps [simp]:
  "all_in_range e []" "all_in_range e (x # xs) \<longleftrightarrow> in_range e x \<and> all_in_range e xs"
  "all_in_range e (xs @ ys) \<longleftrightarrow> all_in_range e xs \<and> all_in_range e ys"
  by (auto simp: all_in_range_def)

lemma pow256: "(256 :: nat) ^ n = 2 ^ (8 * n)"
  by (simp add: power_mult)

lemma dec_enc_int:
  assumes "0 < e" "in_range e x"
  shows "dec_int e (enc_int e x) = x"
  using assms uns_val_less [of e x]
  by (simp add: dec_int_def enc_int_def le_val_le_bytes pow256 sgn_uns_val in_range_def)

lemma enc_dec_int:
  assumes "0 < e" "length b = e"
  shows "enc_int e (dec_int e b) = b"
  using assms le_val_less [of b] by (simp add: dec_int_def enc_int_def pow256 uns_sgn_val)

lemma in_range_dec_int: "0 < e \<Longrightarrow> length b = e \<Longrightarrow> in_range e (dec_int e b)"
  using le_val_less [of b] sgn_val_range [of e "le_val b"]
  by (simp add: dec_int_def in_range_def pow256)

text \<open>Every block of bytes of the right length is the encoding of some integers.\<close>

lemma enc_all_exists:
  assumes "0 < e" "length b = n * e"
  obtains xs where "b = enc_all e xs" "length xs = n" "all_in_range e xs"
  using assms(2)
proof (induction n arbitrary: b thesis)
  case 0
  then show ?case by auto
next
  case (Suc n)
  then have "length (drop e b) = n * e" by simp
  then obtain xs where xs: "drop e b = enc_all e xs" "length xs = n" "all_in_range e xs"
    using Suc.IH by blast
  have te: "length (take e b) = e" using Suc.prems(2) by simp
  have "b = enc_all e (dec_int e (take e b) # xs)"
    using xs(1) enc_dec_int [OF assms(1) te] by (metis append_take_drop_id enc_all_simps(2))
  then show ?case
    using Suc.prems(1) xs in_range_dec_int [OF assms(1) te] by (metis all_in_range_simps(2) length_Cons)
qed

lemma decode_enc_all:
  assumes "0 < e" "all_in_range e xs" "i < length xs"
  shows "dec_int e (take e (drop (i * e) (enc_all e xs @ rest))) = xs ! i"
proof -
  have xs: "xs = take i xs @ xs ! i # drop (Suc i) xs" using assms(3) by (rule id_take_nth_drop)
  have "drop (i * e) (enc_all e xs @ rest) = enc_int e (xs ! i) @ enc_all e (drop (Suc i) xs) @ rest"
    using assms(3) by (subst xs) simp
  moreover have "in_range e (xs ! i)" using assms(2,3) by (simp add: all_in_range_def)
  ultimately show ?thesis using assms(1) by (simp add: dec_enc_int)
qed

text \<open>\<open>intset_repr s xs\<close>: the array of \<open>s\<close> holds exactly the integers \<open>xs\<close>.\<close>

definition intset_repr :: "intset \<Rightarrow> int list \<Rightarrow> bool" where
  "intset_repr s xs \<longleftrightarrow>
     is_encoding s \<in> {2, 4, 8} \<and> is_length s = length xs \<and>
     is_contents s = enc_all (is_encoding s) xs \<and> all_in_range (is_encoding s) xs"

lemma intset_reprD:
  assumes "intset_repr s xs"
  shows "is_encoding s \<in> {2, 4, 8}" "0 < is_encoding s" "is_length s = length xs"
    "is_contents s = enc_all (is_encoding s) xs" "all_in_range (is_encoding s) xs"
  using assms by (auto simp: intset_repr_def)

lemma repr_elems:
  assumes "intset_repr s xs"
  shows "intset_elems s = xs"
proof (rule nth_equalityI)
  note r = intset_reprD [OF assms]
  show len: "length (intset_elems s) = length xs" using r(3) by (simp add: intset_elems_def)
  fix i
  assume "i < length (intset_elems s)"
  then have "i < length xs" using len by simp
  then show "intset_elems s ! i = xs ! i"
    using r(3,4) decode_enc_all [OF r(2,5), of i "[]"] by (simp add: intset_elems_def)
qed

lemma repr_exists:
  assumes "is_encoding s \<in> {2, 4, 8}" "length (is_contents s) = is_length s * is_encoding s"
  shows "intset_repr s (intset_elems s)"
proof -
  have "0 < is_encoding s" using assms(1) by auto
  then obtain xs where "is_contents s = enc_all (is_encoding s) xs" "length xs = is_length s"
    "all_in_range (is_encoding s) xs"
    using assms(2) by (rule enc_all_exists)
  then have "intset_repr s xs" using assms(1) by (simp add: intset_repr_def)
  then show ?thesis using repr_elems by simp
qed

lemma intset_ok_iff: "intset_ok s \<longleftrightarrow> intset_repr s (intset_elems s) \<and> sorted_wrt (<) (intset_elems s)"
proof
  assume "intset_ok s"
  then show "intset_repr s (intset_elems s) \<and> sorted_wrt (<) (intset_elems s)"
    unfolding intset_ok_def by (intro conjI repr_exists) blast+
next
  assume r: "intset_repr s (intset_elems s) \<and> sorted_wrt (<) (intset_elems s)"
  note d = intset_reprD [OF r [THEN conjunct1]]
  have "length (is_contents s) = is_length s * is_encoding s"
    using arg_cong [OF d(4), of length] d(3) by (simp only: length_enc_all)
  then show "intset_ok s" using d(1) r by (simp add: intset_ok_def)
qed

lemma intset_okI: "intset_repr s xs \<Longrightarrow> sorted_wrt (<) xs \<Longrightarrow> intset_ok s \<and> intset_elems s = xs"
  by (simp add: intset_ok_iff repr_elems)

section \<open>Reads, writes and moves of the array\<close>

lemma u32_small [range_simps]: "0 \<le> x \<Longrightarrow> x < 2 ^ 32 \<Longrightarrow> u32 x = nat x"
  by (simp add: u32_def)

lemma to_int32_small [range_simps]: "0 \<le> x \<Longrightarrow> x < 2 ^ 31 \<Longrightarrow> to_int32 x = x"
  by (simp add: to_int32_def u32_def sgn_val_def nat_less_iff)

lemma mid_no_wrap:
  assumes "0 \<le> lo" "lo < 2 ^ 31" "0 \<le> hi" "hi < 2 ^ 31"
  shows "((lo mod 2 ^ 32 + hi mod 2 ^ 32) mod 2 ^ 32) div 2 = (lo + hi :: int) div 2"
  using assms by simp

lemma intsetGetEncoded_eq:
  "e \<in> {2, 4, 8} \<Longrightarrow> 0 \<le> pos \<Longrightarrow>
   intsetGetEncoded s pos e = do { b \<leftarrow> mem_read (is_contents s) (nat pos * e) e; Some (dec_int e b) }"
  by (auto simp: intsetGetEncoded_def dec_int_def)

lemma intsetSet_eq:
  "is_encoding s \<in> {2, 4, 8} \<Longrightarrow> 0 \<le> pos \<Longrightarrow>
   intsetSet s pos v =
     do { c \<leftarrow> mem_write (is_contents s) (nat pos * is_encoding s) (enc_int (is_encoding s) v);
          Some (s\<lparr>is_contents := c\<rparr>) }"
  by (auto simp: intsetSet_def enc_int_def)

lemma getEncoded_nth:
  assumes "e \<in> {2, 4, 8}" "is_contents s = enc_all e xs @ rest" "all_in_range e xs" "i < length xs"
  shows "intsetGetEncoded s (int i) e = Some (xs ! i)"
proof -
  have e: "0 < e" using assms(1) by auto
  have "i * e + e \<le> length xs * e" using assms(4) by (metis Suc_leI add.commute mult_Suc mult_le_mono1)
  then show ?thesis
    using assms decode_enc_all [OF e assms(3,4), of rest]
    by (simp add: intsetGetEncoded_eq mem_read_def)
qed

lemma get_repr:
  assumes "intset_repr s xs" "i < length xs"
  shows "intsetGet_pos s (int i) = Some (xs ! i)"
  using getEncoded_nth [of "is_encoding s" s xs "[]" i] intset_reprD [OF assms(1)] assms(2)
  by (simp add: intsetGet_pos_def)

lemma set_at:
  assumes "is_encoding s \<in> {2, 4, 8}" "is_contents s = enc_all (is_encoding s) (as @ b # cs) @ rest"
  shows "intsetSet s (int (length as)) v =
           Some (s\<lparr>is_contents := enc_all (is_encoding s) (as @ v # cs) @ rest\<rparr>)"
  using assms mem_write_append [of "length as * is_encoding s" "enc_all (is_encoding s) as"
      "enc_int (is_encoding s) v" "enc_int (is_encoding s) b" "enc_all (is_encoding s) cs @ rest"]
  by (simp add: intsetSet_eq)

lemma resize_grow:
  assumes "realloc_ok ra" "is_encoding s \<in> {2, 4, 8}" "is_contents s = enc_all e xs"
    "length xs * e \<le> n * is_encoding s" "n < 2 ^ 32"
  shows "\<exists>junk. intsetResize ra s n = Some (s\<lparr>is_contents := enc_all e xs @ junk\<rparr>) \<and>
           length xs * e + length junk = n * is_encoding s"
proof -
  let ?sz = "n * is_encoding s"
  have "is_encoding s \<le> 8" using assms(2) by auto
  then have "?sz \<le> 2 ^ 32 * 8" using assms(5) by (intro mult_le_mono) auto
  then have sz: "?sz \<le> UINT64_MAX - 8" by simp
  obtain slack where "ra (enc_all e xs) ?sz = enc_all e xs @ slack" "?sz \<le> length (enc_all e xs) + length slack"
    using realloc_grow [OF assms(1)] assms(4) by (metis length_enc_all)
  then have "take ?sz (ra (enc_all e xs) ?sz) = enc_all e xs @ take (?sz - length xs * e) slack"
    "length xs * e + length (take (?sz - length xs * e) slack) = ?sz"
    using assms(4) by auto
  then show ?thesis using sz assms(3) by (auto simp: intsetResize_def Let_def)
qed

lemma resize_shrink:
  assumes "realloc_ok ra" "is_encoding s \<in> {2, 4, 8}"
    "is_contents s = enc_all (is_encoding s) xs @ rest" "length xs < 2 ^ 32"
  shows "intsetResize ra s (length xs) = Some (s\<lparr>is_contents := enc_all (is_encoding s) xs\<rparr>)"
proof -
  let ?sz = "length xs * is_encoding s"
  have "is_encoding s \<le> 8" using assms(2) by auto
  then have "?sz \<le> 2 ^ 32 * 8" using assms(4) by (intro mult_le_mono) auto
  then have sz: "?sz \<le> UINT64_MAX - 8" by simp
  obtain slack where "ra (enc_all (is_encoding s) xs @ rest) ?sz = enc_all (is_encoding s) xs @ slack"
    using realloc_shrink [OF assms(1), of ?sz "enc_all (is_encoding s) xs" rest] by auto
  then show ?thesis using sz assms(3) by (simp add: intsetResize_def Let_def)
qed

lemma intsetMoveTail_eq:
  assumes "is_encoding s \<in> {2, 4, 8}" "from \<le> is_length s" "is_length s < 2 ^ 32"
    "(is_length s - from) * is_encoding s < 2 ^ 32"
  shows "intsetMoveTail s from to =
    do { c \<leftarrow> mem_move (is_contents s) (to * is_encoding s) (from * is_encoding s)
              ((is_length s - from) * is_encoding s);
         Some (s\<lparr>is_contents := c\<rparr>) }"
proof -
  have "u32 (int (is_length s) - int from) = is_length s - from"
    using assms(2,3) by (simp add: u32_small nat_diff_distrib)
  moreover have "u32 (int ((is_length s - from) * is_encoding s)) = (is_length s - from) * is_encoding s"
    using assms(4) by (simp add: u32_small del: of_nat_mult)
  ultimately show ?thesis using assms(1) by (auto simp: intsetMoveTail_def Let_def)
qed

lemma mult_bound: "n * e < B \<Longrightarrow> 0 < e \<Longrightarrow> n < (B :: nat)"
  using le_less_trans [of "n * 1" "n * e" B] mult_le_mono2 [of 1 e n] by auto

lemma move_tail_up:
  assumes "is_encoding s \<in> {2, 4, 8}" "is_length s = length (as @ bs)"
    "is_contents s = enc_all (is_encoding s) (as @ bs) @ junk" "length junk = is_encoding s"
    "length (as @ bs) * is_encoding s < 2 ^ 32"
  shows "\<exists>g. intsetMoveTail s (length as) (Suc (length as)) =
           Some (s\<lparr>is_contents := enc_all (is_encoding s) (as @ g # bs)\<rparr>)"
proof -
  let ?e = "is_encoding s"
  have e: "0 < ?e" using assms(1) by auto
  have "is_length s < 2 ^ 32" using mult_bound [OF assms(5) e] assms(2) by simp
  moreover have "(is_length s - length as) * ?e < 2 ^ 32"
    using assms(2,5) by (simp add: distrib_right)
  ultimately have eq: "intsetMoveTail s (length as) (Suc (length as)) =
    do { c \<leftarrow> mem_move (is_contents s) (Suc (length as) * ?e) (length as * ?e) (length bs * ?e);
         Some (s\<lparr>is_contents := c\<rparr>) }"
    using assms(1,2) by (subst intsetMoveTail_eq) auto
  obtain gap where gap: "length gap = ?e"
    "mem_move (enc_all ?e as @ enc_all ?e bs @ junk) (Suc (length as) * ?e) (length as * ?e) (length bs * ?e) =
     Some (enc_all ?e as @ gap @ enc_all ?e bs @ drop ?e junk)"
    using mem_move_up [of "length as * ?e" "enc_all ?e as" "Suc (length as) * ?e" ?e
        "length bs * ?e" "enc_all ?e bs" junk] assms(4) by (auto simp: add.commute)
  obtain g where "gap = enc_int ?e g" using enc_dec_int [OF e gap(1)] by metis
  then show ?thesis using eq gap assms(3,4) by auto
qed

lemma move_tail_down:
  assumes "is_encoding s \<in> {2, 4, 8}" "is_length s = length (as @ b # bs)"
    "is_contents s = enc_all (is_encoding s) (as @ b # bs)" "length (as @ b # bs) * is_encoding s < 2 ^ 32"
  shows "\<exists>rest. intsetMoveTail s (Suc (length as)) (length as) =
           Some (s\<lparr>is_contents := enc_all (is_encoding s) (as @ bs) @ rest\<rparr>)"
proof -
  let ?e = "is_encoding s"
  have e: "0 < ?e" using assms(1) by auto
  have "is_length s < 2 ^ 32" using mult_bound [OF assms(4) e] assms(2) by simp
  moreover have "(is_length s - Suc (length as)) * ?e < 2 ^ 32"
    using assms(2,4) by (simp add: distrib_right)
  ultimately have "intsetMoveTail s (Suc (length as)) (length as) =
    do { c \<leftarrow> mem_move (is_contents s) (length as * ?e) (Suc (length as) * ?e) (length bs * ?e);
         Some (s\<lparr>is_contents := c\<rparr>) }"
    using assms(1,2) by (subst intsetMoveTail_eq) auto
  then show ?thesis
    using assms(3) mem_move_down [of "length as * ?e" "enc_all ?e as" "Suc (length as) * ?e"
        "enc_int ?e b" "length bs * ?e" "enc_all ?e bs" "[]"]
    by (auto simp: add.commute)
qed

section \<open>Search\<close>

lemma intsetSearch_loop_correct:
  assumes "intset_repr s xs" "0 \<le> lo" "hi < int (length xs)" "lo \<le> hi + 1"
    "\<forall>i < length xs. int i < lo \<longrightarrow> xs ! i < v" "\<forall>i < length xs. hi < int i \<longrightarrow> v < xs ! i"
    "hi < lo \<longrightarrow> cur \<noteq> v" "sorted_wrt (<) xs"
  shows "\<exists>c m l. intsetSearch_loop s v lo hi mid cur = Some (c, m, l) \<and>
     (if c = v then 0 \<le> m \<and> m < int (length xs) \<and> xs ! nat m = v
      else 0 \<le> l \<and> l \<le> int (length xs) \<and> (\<forall>i < length xs. int i < l \<longrightarrow> xs ! i < v) \<and>
           (\<forall>i < length xs. l \<le> int i \<longrightarrow> v < xs ! i))"
  using assms
proof (induction s v lo hi mid cur rule: intsetSearch_loop.induct)
  case (1 s v lo hi mid cur)
  show ?case
  proof (cases "lo \<le> hi")
    case False
    then have "intsetSearch_loop s v lo hi mid cur = Some (cur, mid, lo)"
      by (subst intsetSearch_loop.simps) simp
    then show ?thesis using False "1.prems" by auto
  next
    case True
    define m where "m = (lo + hi) div 2"
    have m: "lo \<le> m" "m \<le> hi" "0 \<le> m" using True "1.prems"(2) by (auto simp: m_def)
    then have mi: "nat m < length xs" using "1.prems"(3) by linarith
    have get: "intsetGet_pos s m = Some (xs ! nat m)"
      using get_repr [OF "1.prems"(1) mi] m(3) by simp
    have mono: "xs ! i < xs ! j" if "i < j" "j < length xs" for i j
      using "1.prems"(8) that by (simp add: sorted_wrt_iff_nth_less)
    consider (gt) "v > xs ! nat m" | (lt) "v < xs ! nat m" | (eq) "v = xs ! nat m" by linarith
    then show ?thesis
    proof cases
      case gt
      have "\<forall>i < length xs. int i < m + 1 \<longrightarrow> xs ! i < v"
      proof (intro allI impI)
        fix i assume "i < length xs" "int i < m + 1"
        then have "i = nat m \<or> i < nat m" using m(3) by linarith
        then show "xs ! i < v" using gt mono mi by fastforce
      qed
      then have "\<exists>c m' l. intsetSearch_loop s v (m + 1) hi m (xs ! nat m) = Some (c, m', l) \<and>
        (if c = v then 0 \<le> m' \<and> m' < int (length xs) \<and> xs ! nat m' = v
         else 0 \<le> l \<and> l \<le> int (length xs) \<and> (\<forall>i < length xs. int i < l \<longrightarrow> xs ! i < v) \<and>
              (\<forall>i < length xs. l \<le> int i \<longrightarrow> v < xs ! i))"
        using "1.prems" m less_imp_neq [OF gt] by (intro "1.IH"(1) [OF True m_def get gt]) auto
      moreover have "intsetSearch_loop s v lo hi mid cur = intsetSearch_loop s v (m + 1) hi m (xs ! nat m)"
        using True get gt by (subst intsetSearch_loop.simps) (simp add: m_def [symmetric])
      ultimately show ?thesis by simp
    next
      case lt
      have "\<forall>i < length xs. m - 1 < int i \<longrightarrow> v < xs ! i"
      proof (intro allI impI)
        fix i assume i: "i < length xs" "m - 1 < int i"
        then have "i = nat m \<or> nat m < i" using m(3) by linarith
        then show "v < xs ! i" using lt mono i by fastforce
      qed
      then have "\<exists>c m' l. intsetSearch_loop s v lo (m - 1) m (xs ! nat m) = Some (c, m', l) \<and>
        (if c = v then 0 \<le> m' \<and> m' < int (length xs) \<and> xs ! nat m' = v
         else 0 \<le> l \<and> l \<le> int (length xs) \<and> (\<forall>i < length xs. int i < l \<longrightarrow> xs ! i < v) \<and>
              (\<forall>i < length xs. l \<le> int i \<longrightarrow> v < xs ! i))"
        using "1.prems" m less_imp_neq [OF lt] less_not_sym [OF lt]
        by (intro "1.IH"(2) [OF True m_def get _ lt]) auto
      moreover have "intsetSearch_loop s v lo hi mid cur = intsetSearch_loop s v lo (m - 1) m (xs ! nat m)"
        using True get lt by (subst intsetSearch_loop.simps) (simp add: m_def [symmetric])
      ultimately show ?thesis by simp
    next
      case eq
      then have "intsetSearch_loop s v lo hi mid cur = Some (v, m, lo)"
        using True get by (subst intsetSearch_loop.simps) (simp add: m_def [symmetric])
      then show ?thesis using eq m mi "1.prems" by auto
    qed
  qed
qed

text \<open>\<open>intsetSearch\<close> returns the position of the value, or the position where it belongs.\<close>

lemma intsetSearch_correct:
  assumes r: "intset_repr s xs" and st: "sorted_wrt (<) xs" and len: "length xs < 2 ^ 31"
  shows "\<exists>pos. intsetSearch s v = Some (v \<in> set xs, pos) \<and>
     (if v \<in> set xs then pos < length xs \<and> xs ! pos = v
      else pos \<le> length xs \<and> (\<forall>i < pos. xs ! i < v) \<and> (\<forall>i < length xs. pos \<le> i \<longrightarrow> v < xs ! i))"
proof (cases "xs = []")
  case True
  then show ?thesis using intset_reprD [OF r] by (simp add: intsetSearch_def)
next
  case False
  let ?n = "length xs"
  have n: "is_length s = ?n" "0 < ?n" using intset_reprD [OF r] False by auto
  define h where "h = int (?n - 1)"
  have h: "h = int ?n - 1" unfolding h_def using n(2) by linarith
  have hi: "to_int32 (int (is_length s) - 1) = h"
    using n len h by (simp add: to_int32_small)
  have gl: "intsetGet_pos s h = Some (xs ! (?n - 1))" and gf: "intsetGet_pos s 0 = Some (xs ! 0)"
    using n(2) get_repr [OF r, of 0] unfolding h_def by (auto intro!: get_repr [OF r] simp del: of_nat_diff)
  have mono: "i < j \<Longrightarrow> j < ?n \<Longrightarrow> xs ! i < xs ! j" for i j
    using st by (simp add: sorted_wrt_iff_nth_less)
  consider "v > xs ! (?n - 1)" | "\<not> v > xs ! (?n - 1)" "v < xs ! 0"
    | "\<not> v > xs ! (?n - 1)" "\<not> v < xs ! 0" by blast
  then show ?thesis
  proof cases
    case 1
    have lt: "\<forall>i < ?n. xs ! i < v"
    proof (intro allI impI)
      fix i assume "i < ?n"
      then have "i = ?n - 1 \<or> i < ?n - 1" by auto
      then show "xs ! i < v" using 1 mono [of i "?n - 1"] n by fastforce
    qed
    then have "v \<notin> set xs" by (auto simp: in_set_conv_nth)
    then show ?thesis using 1 n hi gl lt by (simp add: intsetSearch_def Let_def)
  next
    case 2
    have gt: "\<forall>i < ?n. v < xs ! i"
    proof (intro allI impI)
      fix i assume "i < ?n"
      then show "v < xs ! i" using 2 mono [of 0 i] by (cases "i = 0") fastforce+
    qed
    then have "v \<notin> set xs" by (auto simp: in_set_conv_nth)
    then show ?thesis using 2 n hi gl gf gt by (simp add: intsetSearch_def Let_def)
  next
    case 3
    obtain c m l where loop: "intsetSearch_loop s v 0 h (-1) (-1) = Some (c, m, l)"
      "if c = v then 0 \<le> m \<and> m < int ?n \<and> xs ! nat m = v
       else 0 \<le> l \<and> l \<le> int ?n \<and> (\<forall>i < ?n. int i < l \<longrightarrow> xs ! i < v) \<and> (\<forall>i < ?n. l \<le> int i \<longrightarrow> v < xs ! i)"
      using intsetSearch_loop_correct [OF r, of 0 h v "-1" "-1"] st n h by force
    show ?thesis
    proof (cases "c = v")
      case True
      then have "v \<in> set xs" using loop(2) by (auto simp: in_set_conv_nth intro: exI [of _ "nat m"])
      moreover have "u32 m = nat m" using True loop(2) len by (simp add: u32_small)
      ultimately show ?thesis using 3 True loop n hi gl gf by (simp add: intsetSearch_def Let_def nat_less_iff)
    next
      case False
      then have l: "0 \<le> l" "l \<le> int ?n" "\<forall>i < ?n. int i < l \<longrightarrow> xs ! i < v" "\<forall>i < ?n. l \<le> int i \<longrightarrow> v < xs ! i"
        using loop(2) by auto
      have "v \<notin> set xs"
        using l(3,4) by (metis in_set_conv_nth less_irrefl not_less)
      moreover have "u32 l = nat l" using l len by (simp add: u32_small)
      moreover have "\<forall>i < nat l. xs ! i < v"
        using l by (auto simp: zless_nat_eq_int_zless)
      moreover have "\<forall>i < ?n. nat l \<le> i \<longrightarrow> v < xs ! i" using l by auto
      ultimately show ?thesis
        using 3 False loop n hi gl gf l(2) by (simp add: intsetSearch_def Let_def)
    qed
  qed
qed

section \<open>Upgrade\<close>

lemma intsetValueEncoding_cases: "intsetValueEncoding v \<in> {2, 4, 8}"
  by (simp add: intsetValueEncoding_def)

lemma in_range_value: "int64 v \<Longrightarrow> in_range (intsetValueEncoding v) v"
  by (auto simp: intsetValueEncoding_def in_range_def int64_def)

lemma in_range_iff:
  "e \<in> {2, 4, 8} \<Longrightarrow> int64 v \<Longrightarrow> in_range e v \<longleftrightarrow> intsetValueEncoding v \<le> e"
  by (auto simp: intsetValueEncoding_def in_range_def int64_def)

lemma in_range_int64: "e \<in> {2, 4, 8} \<Longrightarrow> in_range e v \<Longrightarrow> int64 v"
  by (auto simp: in_range_def int64_def)

lemma in_range_mono: "cur \<in> {2, 4, 8} \<Longrightarrow> new \<in> {2, 4, 8} \<Longrightarrow> cur \<le> new \<Longrightarrow> in_range cur v \<Longrightarrow> in_range new v"
  by (auto simp: in_range_def)

lemma all_in_range_mono:
  "cur \<in> {2, 4, 8} \<Longrightarrow> new \<in> {2, 4, 8} \<Longrightarrow> cur \<le> new \<Longrightarrow> all_in_range cur xs \<Longrightarrow> all_in_range new xs"
  using in_range_mono by (auto simp: all_in_range_def)

lemma intsetUpgrade_loop_correct:
  assumes "cur \<in> {2, 4, 8}" "is_encoding s = new" "new \<in> {2, 4, 8}" "cur \<le> new" "all_in_range cur xs"
    "k \<le> length xs" "is_contents s = enc_all cur (take k xs) @ r1"
    "(k + p) * new \<le> length (is_contents s)"
  shows "\<exists>c. intsetUpgrade_loop s cur p k = Some (s\<lparr>is_contents := c\<rparr>) \<and>
     length c = length (is_contents s) \<and>
     drop (p * new) c = enc_all new (take k xs) @ drop ((k + p) * new) (is_contents s)"
  using assms
proof (induction k arbitrary: s r1)
  case 0
  have "s = s\<lparr>is_contents := is_contents s\<rparr>" by simp
  then show ?case by (intro exI [of _ "is_contents s"]) simp
next
  case (Suc n)
  let ?C = "is_contents s"
  let ?i = "(n + p) * new"
  have tk: "take (Suc n) xs = take n xs @ [xs ! n]" using Suc.prems(6) by (simp add: take_Suc_conv_app_nth)
  have "all_in_range cur (take (Suc n) xs)"
    using Suc.prems(5) set_take_subset [of "Suc n" xs] by (auto simp: all_in_range_def)
  then have get: "intsetGetEncoded s (int n) cur = Some (xs ! n)"
    using getEncoded_nth [of cur s "take (Suc n) xs" r1 n] Suc.prems by simp
  have fit: "?i + new \<le> length ?C" using Suc.prems(8) by (simp add: algebra_simps)
  define C1 where "C1 = take ?i ?C @ enc_int new (xs ! n) @ drop (?i + new) ?C"
  have set: "intsetSet s (int (n + p)) (xs ! n) = Some (s\<lparr>is_contents := C1\<rparr>)"
    using Suc.prems(2,3) fit
    by (subst intsetSet_eq) (simp_all add: mem_write_def C1_def nat_int_add del: of_nat_add)
  have len1: "length C1 = length ?C" using fit by (simp add: C1_def)
  have "n * cur \<le> ?i" using Suc.prems(4) by (intro mult_le_mono) auto
  then have "take (n * cur) C1 = enc_all cur (take n xs)"
    using fit Suc.prems(6,7) tk by (simp add: C1_def min_def)
  then have pre: "C1 = enc_all cur (take n xs) @ drop (n * cur) C1" by (metis append_take_drop_id)
  have dr: "drop ?i C1 = enc_int new (xs ! n) @ drop ((Suc n + p) * new) ?C"
    using fit by (simp add: C1_def algebra_simps)
  have "\<exists>c. intsetUpgrade_loop (s\<lparr>is_contents := C1\<rparr>) cur p n = Some ((s\<lparr>is_contents := C1\<rparr>)\<lparr>is_contents := c\<rparr>) \<and>
     length c = length (is_contents (s\<lparr>is_contents := C1\<rparr>)) \<and>
     drop (p * new) c = enc_all new (take n xs) @ drop ((n + p) * new) (is_contents (s\<lparr>is_contents := C1\<rparr>))"
    using Suc.prems(1-6) pre fit len1 by (intro Suc.IH) auto
  then show ?case using get set dr len1 tk by auto
qed

lemma intsetUpgradeAndAdd_correct:
  assumes ra: "realloc_ok ra" and r: "intset_repr s xs" and v: "int64 v"
    and up: "is_encoding s < intsetValueEncoding v" and len: "length xs < 2 ^ 31 - 1"
  shows "\<exists>s'. intsetUpgradeAndAdd ra s v = Some s' \<and> is_encoding s' = intsetValueEncoding v \<and>
           intset_repr s' (if v < 0 then v # xs else xs @ [v])"
proof -
  let ?cur = "is_encoding s" and ?new = "intsetValueEncoding v" and ?n = "length xs"
  define p :: nat where "p = (if v < 0 then 1 else 0)"
  note d = intset_reprD [OF r]
  note new = intsetValueEncoding_cases [of v]
  have new0: "0 < ?new" using new by auto
  have u: "u32 (int ?n + 1) = Suc ?n" using len by (simp add: u32_small nat_add_distrib)
  have nx: "all_in_range ?new xs" using all_in_range_mono [OF d(1) new _ d(5)] up by simp
  have vr: "in_range ?new v" using v by (rule in_range_value)
  have "?n * ?cur \<le> Suc ?n * ?new" using up by (intro mult_le_mono) auto
  then obtain junk where
    rs: "intsetResize ra (s\<lparr>is_encoding := ?new\<rparr>) (Suc ?n) =
           Some (s\<lparr>is_encoding := ?new, is_contents := enc_all ?cur xs @ junk\<rparr>)" and
    jl: "?n * ?cur + length junk = Suc ?n * ?new"
    using resize_grow [OF ra, of "s\<lparr>is_encoding := ?new\<rparr>" ?cur xs "Suc ?n"] d(4) new len by auto
  define s1 where "s1 = s\<lparr>is_encoding := ?new, is_contents := enc_all ?cur xs @ junk\<rparr>"
  have s1: "is_encoding s1 = ?new" "is_contents s1 = enc_all ?cur xs @ junk" by (simp_all add: s1_def)
  have l1: "length (is_contents s1) = Suc ?n * ?new" using jl s1(2) by simp
  have le: "(?n + p) * ?new \<le> Suc ?n * ?new" unfolding p_def by (intro mult_le_mono) auto
  obtain c where c: "intsetUpgrade_loop s1 ?cur p ?n = Some (s1\<lparr>is_contents := c\<rparr>)"
    "length c = Suc ?n * ?new"
    "drop (p * ?new) c = enc_all ?new xs @ drop ((?n + p) * ?new) (is_contents s1)"
    using intsetUpgrade_loop_correct [OF d(1) s1(1) new _ d(5), of ?n junk p] up s1(2) l1 le by auto
  define s2 where "s2 = s1\<lparr>is_contents := c\<rparr>"
  have s2: "is_encoding s2 = ?new" "is_contents s2 = c" "is_length s2 = ?n"
    using s1 d(3) by (simp_all add: s2_def s1_def)
  have main: "intsetUpgradeAndAdd ra s v =
    do { s3 \<leftarrow> (if p = 1 then intsetSet s2 0 v else intsetSet s2 (int ?n) v);
         Some (s3\<lparr>is_length := Suc ?n\<rparr>) }"
    using rs c(1) d(3) u
    unfolding intsetUpgradeAndAdd_def Let_def p_def [symmetric]
    by (simp add: s1_def [symmetric] s2_def [symmetric])
  show ?thesis
  proof (cases "v < 0")
    case True
    then have p: "p = 1" by (simp add: p_def)
    have "length (take ?new c) = ?new" using c(2) by simp
    then obtain g where g: "take ?new c = enc_int ?new g" using enc_dec_int [OF new0] by metis
    have "drop ?new c = enc_all ?new xs" using c(3) p l1 by simp
    then have "c = enc_all ?new ([] @ g # xs) @ []" using g by (metis append_Nil append_Nil2 append_take_drop_id enc_all_simps(2))
    then have "intsetSet s2 0 v = Some (s2\<lparr>is_contents := enc_all ?new (v # xs)\<rparr>)"
      using set_at [of s2 "[]" g xs "[]" v] s2 new by simp
    then show ?thesis using main p True s2 new nx vr by (auto simp: intset_repr_def)
  next
    case False
    then have p: "p = 0" by (simp add: p_def)
    define R where "R = drop (?n * ?new) (is_contents s1)"
    have "length R = ?new" using l1 by (simp add: R_def)
    then obtain g where g: "R = enc_int ?new g" using enc_dec_int [OF new0] by metis
    have "c = enc_all ?new (xs @ [g]) @ []" using c(3) p g by (simp add: R_def)
    then have "intsetSet s2 (int ?n) v = Some (s2\<lparr>is_contents := enc_all ?new (xs @ [v])\<rparr>)"
      using set_at [of s2 xs g "[]" "[]" v] s2 new by simp
    then show ?thesis using main p False s2 new nx vr by (auto simp: intset_repr_def)
  qed
qed

section \<open>Insertion, removal, lookup\<close>

lemma sorted_insert_at:
  assumes "sorted_wrt (<) xs" "pos \<le> length xs" "\<forall>i < pos. xs ! i < v"
    "\<forall>i < length xs. pos \<le> i \<longrightarrow> v < (xs ! i :: int)"
  shows "sorted_wrt (<) (take pos xs @ v # drop pos xs)"
proof -
  have "sorted_wrt (<) (take pos xs @ drop pos xs)" using assms(1) by simp
  moreover have "\<forall>x \<in> set (take pos xs). x < v"
    using assms(2,3) by (auto simp: in_set_conv_nth)
  moreover have "\<forall>x \<in> set (drop pos xs). v < x"
    using assms(4) by (auto simp: in_set_conv_nth)
  ultimately show ?thesis unfolding sorted_wrt_append by auto
qed

lemma sorted_wrt_less_distinct: "sorted_wrt (<) (xs :: int list) \<Longrightarrow> distinct xs"
  by (induction xs) auto

lemma sorted_remove_at:
  assumes "sorted_wrt (<) (as @ v # bs :: int list)"
  shows "sorted_wrt (<) (as @ bs)" "set (as @ bs) = set (as @ v # bs) - {v}"
  using assms sorted_wrt_less_distinct [OF assms] by (auto simp: sorted_wrt_append)

definition intset_fits :: "intset \<Rightarrow> bool" where
  "intset_fits s \<longleftrightarrow> is_length s * is_encoding s < 2 ^ 32 \<and> is_length s < 2 ^ 31 - 1"

lemma intsetAdd_elems:
  assumes ra: "realloc_ok ra" and ok: "intset_ok s" and v: "int64 v" and fits: "intset_fits s"
  shows "\<exists>s'. intsetAdd ra s v = Some (s', v \<notin> set (intset_elems s)) \<and> intset_ok s' \<and>
           set (intset_elems s') = insert v (set (intset_elems s))"
proof -
  define xs where "xs = intset_elems s"
  have r: "intset_repr s xs" and st: "sorted_wrt (<) xs" using ok by (auto simp: intset_ok_iff xs_def)
  note d = intset_reprD [OF r]
  let ?e = "is_encoding s" and ?n = "length xs"
  have len: "?n < 2 ^ 31 - 1" "?n * ?e < 2 ^ 32" using fits d(3) by (auto simp: intset_fits_def)
  show ?thesis
  proof (cases "intsetValueEncoding v > ?e")
    case True
    obtain s' where s': "intsetUpgradeAndAdd ra s v = Some s'"
      "intset_repr s' (if v < 0 then v # xs else xs @ [v])"
      using intsetUpgradeAndAdd_correct [OF ra r v True len(1)] by auto
    have "\<not> in_range ?e v" using True in_range_iff [OF d(1) v] by simp
    then have out: "if v < 0 then \<forall>x \<in> set xs. v < x else \<forall>x \<in> set xs. x < v"
      using d(5) by (auto simp: in_range_def all_in_range_def)
    then have "v \<notin> set xs" by (auto split: if_splits)
    moreover have "sorted_wrt (<) (if v < 0 then v # xs else xs @ [v])"
      using st out by (auto simp: sorted_wrt_append)
    ultimately show ?thesis
      using True s' intset_okI [OF s'(2)] by (auto simp: intsetAdd_def xs_def [symmetric])
  next
    case False
    then have vr: "in_range ?e v" using in_range_iff [OF d(1) v] by simp
    obtain pos where search: "intsetSearch s v = Some (v \<in> set xs, pos)"
      and pos: "if v \<in> set xs then pos < ?n \<and> xs ! pos = v
        else pos \<le> ?n \<and> (\<forall>i < pos. xs ! i < v) \<and> (\<forall>i < ?n. pos \<le> i \<longrightarrow> v < xs ! i)"
      using intsetSearch_correct [OF r st, of v] len(1) by auto
    show ?thesis
    proof (cases "v \<in> set xs")
      case True
      then show ?thesis using False search ok by (auto simp: intsetAdd_def xs_def [symmetric])
    next
      case new: False
      define as bs where "as = take pos xs" and "bs = drop pos xs"
      have xs: "xs = as @ bs" "length as = pos" using pos new by (auto simp: as_def bs_def)
      have u: "u32 (int ?n + 1) = Suc ?n" "u32 (int pos + 1) = Suc pos" "to_int32 (int pos) = int pos"
        using len(1) pos new by (auto simp: u32_small to_int32_small nat_add_distrib)
      obtain junk where rs: "intsetResize ra s (Suc ?n) = Some (s\<lparr>is_contents := enc_all ?e xs @ junk\<rparr>)"
        and jl: "length junk = ?e"
        using resize_grow [OF ra d(1,4), of "Suc ?n"] len(1) by auto
      define s1 where "s1 = s\<lparr>is_contents := enc_all ?e xs @ junk\<rparr>"
      have s1: "is_encoding s1 = ?e" "is_length s1 = ?n" using d(3) by (simp_all add: s1_def)
      have "\<exists>g. (if pos < ?n then intsetMoveTail s1 pos (Suc pos) else Some s1) =
              Some (s1\<lparr>is_contents := enc_all ?e (as @ g # bs)\<rparr>)"
      proof (cases "pos < ?n")
        case True
        then show ?thesis
          using move_tail_up [of s1 as bs junk] d(1) s1 xs jl len(2) by (auto simp: s1_def)
      next
        case False
        then have "bs = []" using pos new by (simp add: bs_def)
        moreover obtain g where "junk = enc_int ?e g" using enc_dec_int [OF d(2) jl] by metis
        ultimately show ?thesis using False xs by (auto simp: s1_def)
      qed
      then obtain g where mv: "(if pos < ?n then intsetMoveTail s1 pos (Suc pos) else Some s1) =
              Some (s1\<lparr>is_contents := enc_all ?e (as @ g # bs)\<rparr>)" by blast
      define s2 where "s2 = s1\<lparr>is_contents := enc_all ?e (as @ g # bs)\<rparr>"
      have s2: "is_encoding s2 = ?e" "is_length s2 = ?n" using s1 by (simp_all add: s2_def)
      have set: "intsetSet s2 (int pos) v = Some (s2\<lparr>is_contents := enc_all ?e (as @ v # bs)\<rparr>)"
        using set_at [of s2 as g bs "[]" v] d(1) s1 xs(2) by (simp add: s2_def)
      have "intsetAdd ra s v =
          do { s2 \<leftarrow> (if pos < ?n then intsetMoveTail s1 pos (Suc pos) else Some s1);
               s3 \<leftarrow> intsetSet s2 (int pos) v;
               Some (s3\<lparr>is_length := u32 (int (is_length s3) + 1)\<rparr>, True) }"
        using False new search u rs s1 d(3)
        by (simp add: intsetAdd_def s1_def [symmetric] split del: if_split cong: if_cong)
      also have "\<dots> = Some (s2\<lparr>is_contents := enc_all ?e (as @ v # bs), is_length := Suc ?n\<rparr>, True)"
        unfolding mv s2_def [symmetric] using set u s2 by simp
      finally have "intsetAdd ra s v =
          Some (s2\<lparr>is_contents := enc_all ?e (as @ v # bs), is_length := Suc ?n\<rparr>, True)" .
      moreover have "intset_repr (s2\<lparr>is_contents := enc_all ?e (as @ v # bs), is_length := Suc ?n\<rparr>) (as @ v # bs)"
        using d(1,5) s1 vr xs by (auto simp: intset_repr_def s2_def)
      moreover have "sorted_wrt (<) (as @ v # bs)"
        using sorted_insert_at [OF st, of pos v] pos new by (simp add: as_def bs_def)
      ultimately show ?thesis using new xs intset_okI by (fastforce simp: xs_def [symmetric])
    qed
  qed
qed

lemma intsetRemove_elems:
  assumes ra: "realloc_ok ra" and ok: "intset_ok s" and v: "int64 v" and fits: "intset_fits s"
  shows "\<exists>s'. intsetRemove ra s v = Some (s', v \<in> set (intset_elems s)) \<and> intset_ok s' \<and>
           set (intset_elems s') = set (intset_elems s) - {v}"
proof -
  define xs where "xs = intset_elems s"
  have r: "intset_repr s xs" and st: "sorted_wrt (<) xs" using ok by (auto simp: intset_ok_iff xs_def)
  note d = intset_reprD [OF r]
  let ?e = "is_encoding s" and ?n = "length xs"
  have len: "?n < 2 ^ 31 - 1" "?n * ?e < 2 ^ 32" using fits d(3) by (auto simp: intset_fits_def)
  show ?thesis
  proof (cases "intsetValueEncoding v \<le> ?e")
    case False
    then have "v \<notin> set xs" using in_range_iff [OF d(1) v] d(5) by (auto simp: all_in_range_def)
    then show ?thesis using False ok by (auto simp: intsetRemove_def xs_def [symmetric])
  next
    case True
    obtain pos where search: "intsetSearch s v = Some (v \<in> set xs, pos)"
      and pos: "v \<in> set xs \<Longrightarrow> pos < ?n \<and> xs ! pos = v"
      using intsetSearch_correct [OF r st, of v] len(1) by auto
    show ?thesis
    proof (cases "v \<in> set xs")
      case False
      then show ?thesis using True search ok by (auto simp: intsetRemove_def xs_def [symmetric])
    next
      case found: True
      define as bs where "as = take pos xs" and "bs = drop (Suc pos) xs"
      have xs: "xs = as @ v # bs" "length as = pos"
        using pos [OF found] id_take_nth_drop [of pos xs] by (auto simp: as_def bs_def)
      have n: "?n = Suc (length (as @ bs))" using xs by simp
      have u: "u32 (int ?n - 1) = length (as @ bs)" "u32 (int pos + 1) = Suc pos"
        using len(1) n xs(2) by (auto simp: u32_small nat_add_distrib)
      have "\<exists>rest. (if pos < length (as @ bs) then intsetMoveTail s (Suc pos) pos else Some s) =
              Some (s\<lparr>is_contents := enc_all ?e (as @ bs) @ rest\<rparr>)"
      proof (cases "pos < length (as @ bs)")
        case True
        then show ?thesis using move_tail_down [of s as v bs] d xs len(2) by auto
      next
        case False
        then have "bs = []" using xs(2) by simp
        then show ?thesis using False d(4) xs by (auto intro!: exI [of _ "enc_int ?e v"])
      qed
      then obtain rest where mv: "(if pos < length (as @ bs) then intsetMoveTail s (Suc pos) pos else Some s) =
              Some (s\<lparr>is_contents := enc_all ?e (as @ bs) @ rest\<rparr>)" by blast
      define s1 where "s1 = s\<lparr>is_contents := enc_all ?e (as @ bs) @ rest\<rparr>"
      have rs: "intsetResize ra s1 (length (as @ bs)) = Some (s1\<lparr>is_contents := enc_all ?e (as @ bs)\<rparr>)"
        using resize_shrink [OF ra, of s1 "as @ bs" rest] d(1) len(1) n by (simp add: s1_def)
      have "intsetRemove ra s v =
          do { s1 \<leftarrow> (if pos < length (as @ bs) then intsetMoveTail s (Suc pos) pos else Some s);
               s2 \<leftarrow> intsetResize ra s1 (length (as @ bs));
               Some (s2\<lparr>is_length := length (as @ bs)\<rparr>, True) }"
        using True found search u d(3)
        by (simp add: intsetRemove_def Let_def split del: if_split cong: if_cong)
      also have "\<dots> = Some (s1\<lparr>is_contents := enc_all ?e (as @ bs), is_length := length (as @ bs)\<rparr>, True)"
        unfolding mv s1_def [symmetric] using rs by simp
      finally have rm: "intsetRemove ra s v =
          Some (s1\<lparr>is_contents := enc_all ?e (as @ bs), is_length := length (as @ bs)\<rparr>, True)" .
      have "intset_repr (s1\<lparr>is_contents := enc_all ?e (as @ bs), is_length := length (as @ bs)\<rparr>) (as @ bs)"
        using d(1,5) xs by (simp add: intset_repr_def s1_def)
      from intset_okI [OF this] show ?thesis
        using rm found sorted_remove_at [of as v bs] st xs(1) by (auto simp: xs_def [symmetric])
    qed
  qed
qed

lemma intsetFind_elems:
  assumes ok: "intset_ok s" and v: "int64 v" and len: "is_length s < 2 ^ 31"
  shows "intsetFind s v = Some (v \<in> set (intset_elems s))"
proof -
  have r: "intset_repr s (intset_elems s)" and st: "sorted_wrt (<) (intset_elems s)"
    using ok by (auto simp: intset_ok_iff)
  note d = intset_reprD [OF r]
  show ?thesis
  proof (cases "intsetValueEncoding v \<le> is_encoding s")
    case False
    then have "v \<notin> set (intset_elems s)"
      using in_range_iff [OF d(1) v] d(5) by (auto simp: all_in_range_def)
    then show ?thesis using False by (simp add: intsetFind_def)
  next
    case True
    then show ?thesis
      using intsetSearch_correct [OF r st, of v] len d(3) by (auto simp: intsetFind_def)
  qed
qed

section \<open>The interface\<close>

text \<open>What the set type (\<^verbatim>\<open>t_set.c\<close>) relies on of an integer set: an invariant, the set of elements, room for
  \<open>cap\<close> of them, and the three operations. Its clients issue sequences of operations and look at
  the answers.\<close>

datatype set_op = SetAdd int | SetRemove int | SetFind int

fun run_ops ::
  "('s \<Rightarrow> int \<Rightarrow> ('s \<times> bool) option) \<Rightarrow> ('s \<Rightarrow> int \<Rightarrow> ('s \<times> bool) option) \<Rightarrow> ('s \<Rightarrow> int \<Rightarrow> bool option) \<Rightarrow>
   's \<Rightarrow> set_op list \<Rightarrow> ('s \<times> bool list) option" where
  "run_ops add remove member s [] = Some (s, [])"
| "run_ops add remove member s (SetAdd v # ops) =
     do { (s', b) \<leftarrow> add s v; (t, bs) \<leftarrow> run_ops add remove member s' ops; Some (t, b # bs) }"
| "run_ops add remove member s (SetRemove v # ops) =
     do { (s', b) \<leftarrow> remove s v; (t, bs) \<leftarrow> run_ops add remove member s' ops; Some (t, b # bs) }"
| "run_ops add remove member s (SetFind v # ops) =
     do { b \<leftarrow> member s v; (t, bs) \<leftarrow> run_ops add remove member s ops; Some (t, b # bs) }"

text \<open>The same sequence on a mathematical set.\<close>

fun spec_ops :: "int set \<Rightarrow> set_op list \<Rightarrow> int set \<times> bool list" where
  "spec_ops A [] = (A, [])"
| "spec_ops A (SetAdd v # ops) = (let (B, bs) = spec_ops (insert v A) ops in (B, (v \<notin> A) # bs))"
| "spec_ops A (SetRemove v # ops) = (let (B, bs) = spec_ops (A - {v}) ops in (B, (v \<in> A) # bs))"
| "spec_ops A (SetFind v # ops) = (let (B, bs) = spec_ops A ops in (B, (v \<in> A) # bs))"

fun op_arg :: "set_op \<Rightarrow> int" where
  "op_arg (SetAdd v) = v"
| "op_arg (SetRemove v) = v"
| "op_arg (SetFind v) = v"

locale int_set =
  fixes inv :: "'s \<Rightarrow> bool" and elems :: "'s \<Rightarrow> int set" and cap :: nat
    and add :: "'s \<Rightarrow> int \<Rightarrow> ('s \<times> bool) option" and remove :: "'s \<Rightarrow> int \<Rightarrow> ('s \<times> bool) option"
    and member :: "'s \<Rightarrow> int \<Rightarrow> bool option"
  assumes finite_elems: "finite (elems s)"
    and add_law: "inv s \<Longrightarrow> card (elems s) < cap \<Longrightarrow> int64 v \<Longrightarrow>
      \<exists>s'. add s v = Some (s', v \<notin> elems s) \<and> inv s' \<and> elems s' = insert v (elems s)"
    and remove_law: "inv s \<Longrightarrow> card (elems s) < cap \<Longrightarrow> int64 v \<Longrightarrow>
      \<exists>s'. remove s v = Some (s', v \<in> elems s) \<and> inv s' \<and> elems s' = elems s - {v}"
    and find_law: "inv s \<Longrightarrow> card (elems s) < cap \<Longrightarrow> int64 v \<Longrightarrow> member s v = Some (v \<in> elems s)"
begin

lemma card_insert_room: "card (insert v (elems s)) \<le> Suc (card (elems s))"
  by (simp add: card_insert_le_m1 finite_elems card_insert_if)

lemma run_ops_refines:
  "inv s \<Longrightarrow> card (elems s) + length ops \<le> cap \<Longrightarrow> \<forall>x \<in> set ops. int64 (op_arg x) \<Longrightarrow>
   \<exists>s'. run_ops add remove member s ops = Some (s', snd (spec_ops (elems s) ops)) \<and> inv s' \<and>
        elems s' = fst (spec_ops (elems s) ops)"
proof (induction ops arbitrary: s)
  case Nil
  then show ?case by simp
next
  case (Cons x ops)
  have room: "card (elems s) < cap" using Cons.prems(2) by simp
  show ?case
  proof (cases x)
    case (SetAdd v)
    then obtain s' where s': "add s v = Some (s', v \<notin> elems s)" "inv s'" "elems s' = insert v (elems s)"
      using add_law [OF Cons.prems(1) room, of v] Cons.prems(3) by auto
    have "card (elems s') + length ops \<le> cap"
      using card_insert_room [of v s] s'(3) Cons.prems(2) by simp
    then show ?thesis using Cons.IH [OF s'(2)] Cons.prems(3) SetAdd s' by (auto split: prod.splits)
  next
    case (SetRemove v)
    then obtain s' where s': "remove s v = Some (s', v \<in> elems s)" "inv s'" "elems s' = elems s - {v}"
      using remove_law [OF Cons.prems(1) room, of v] Cons.prems(3) by auto
    have "card (elems s') + length ops \<le> cap"
      using card_mono [OF finite_elems, of "elems s - {v}" s] s'(3) Cons.prems(2) by auto
    then show ?thesis using Cons.IH [OF s'(2)] Cons.prems(3) SetRemove s' by (auto split: prod.splits)
  next
    case (SetFind v)
    then have "member s v = Some (v \<in> elems s)"
      using find_law [OF Cons.prems(1) room, of v] Cons.prems(3) by auto
    then show ?thesis using Cons.IH [OF Cons.prems(1)] Cons.prems SetFind by (auto split: prod.splits)
  qed
qed

end

lemma intset_fitsI: "intset_ok s \<Longrightarrow> card (set (intset_elems s)) < 2 ^ 29 \<Longrightarrow> intset_fits s"
proof -
  assume ok: "intset_ok s" and c: "card (set (intset_elems s)) < 2 ^ 29"
  have d: "distinct (intset_elems s)" using ok by (simp add: intset_ok_iff sorted_wrt_less_distinct)
  have l: "is_length s < 2 ^ 29" using distinct_card [OF d] c by (simp add: intset_elems_def)
  have "is_encoding s \<le> 8" using ok by (auto simp: intset_ok_def)
  then have "is_length s * is_encoding s \<le> (2 ^ 29 - 1) * 8" using l by (intro mult_le_mono) auto
  then show ?thesis using l by (simp add: intset_fits_def)
qed

interpretation iset: int_set "\<lambda>s. realloc_ok ra \<and> intset_ok s" "\<lambda>s. set (intset_elems s)" "2 ^ 29"
  "intsetAdd ra" "intsetRemove ra" intsetFind for ra
proof (unfold_locales, goal_cases)
  case 1
  show ?case by simp
next
  case (2 s v)
  then show ?case using intsetAdd_elems [of ra s v] intset_fitsI [of s] by auto
next
  case (3 s v)
  then show ?case using intsetRemove_elems [of ra s v] intset_fitsI [of s] by auto
next
  case (4 s v)
  then show ?case using intsetFind_elems [of s v] intset_fitsI [of s] by (auto simp: intset_fits_def)
qed

section \<open>Integrity check of a serialized set\<close>

lemma intsetValidate_loop_eq:
  assumes "intset_repr s xs" "length xs < 2 ^ 31" "i \<le> length xs" "0 < i" "prev = xs ! (i - 1)"
  shows "intsetValidate_loop s prev [i..<length xs] = Some (sorted_wrt (<) (drop (i - 1) xs))"
  using assms
proof (induction "length xs - i" arbitrary: i prev)
  case 0
  then have "i = length xs" by simp
  moreover have "sorted_wrt (<) (drop (i - 1) xs)" using calculation by (intro sorted_wrt01) simp
  ultimately show ?case by simp
next
  case (Suc k)
  then have i: "i < length xs" by simp
  have idx: "[i..<length xs] = i # [Suc i..<length xs]" using i by (simp add: upt_conv_Cons)
  have get: "intsetGet_pos s (to_int32 (int i)) = Some (xs ! i)"
    using get_repr [OF Suc.prems(1) i] Suc.prems(2) i by (simp add: to_int32_small)
  have IH: "intsetValidate_loop s (xs ! i) [Suc i..<length xs] = Some (sorted_wrt (<) (drop i xs))"
    using Suc.hyps(1) [of "Suc i" "xs ! i"] Suc.hyps(2) Suc.prems i by simp
  have "drop (i - 1) xs = xs ! (i - 1) # drop i xs"
    using Suc.prems(4) i Cons_nth_drop_Suc [of "i - 1" xs] by simp
  moreover have "drop i xs = xs ! i # drop (Suc i) xs" using i by (rule Cons_nth_drop_Suc [symmetric])
  ultimately have "sorted_wrt (<) (drop (i - 1) xs) \<longleftrightarrow> xs ! (i - 1) < xs ! i \<and> sorted_wrt (<) (drop i xs)"
    by (auto intro: less_trans)
  then show ?case unfolding idx using get IH Suc.prems(5) by auto
qed

text \<open>\<open>intsetMoveTail\<close> counts the bytes to move in a \<^verbatim>\<open>uint32_t\<close>: when they are a multiple of \<open>2 ^ 32\<close> none is
  moved, and the new element overwrites the first one.\<close>

lemma intsetMoveTail_wrapped:
  assumes "is_encoding s = 8" "is_length s < 2 ^ 32" "u32 (int (is_length s * 8)) = 0"
    "8 \<le> length (is_contents s)"
  shows "intsetMoveTail s 0 1 = Some s"
proof -
  have "u32 (int (is_length s) - int 0) = is_length s" using assms(2) by (simp add: u32_small)
  moreover have "mem_move (is_contents s) (1 * 8) (0 * 8) 0 = Some (is_contents s)"
    using assms(4) by (simp add: mem_move_def mem_read_def mem_write_def)
  ultimately show ?thesis using assms(1,3) by (simp add: intsetMoveTail_def Let_def)
qed

lemma intsetAdd_wrapped:
  assumes ra: "realloc_ok ra" and r: "intset_repr s (x # ys)" and st: "sorted_wrt (<) (x # ys)"
    and e: "is_encoding s = 8" and n: "length (x # ys) < 2 ^ 31 - 1" "u32 (int (length (x # ys) * 8)) = 0"
    and v: "int64 v" "v < x"
  shows "\<exists>s' z. intsetAdd ra s v = Some (s', True) \<and> intset_elems s' = v # ys @ [z]"
proof -
  note d = intset_reprD [OF r]
  define k where "k = length (x # ys)"
  have k: "is_length s = k" "k < 2 ^ 31 - 1" "u32 (int (k * 8)) = 0" "0 < k"
    using d(3) n by (simp_all add: k_def)
  have enc: "\<not> 8 < intsetValueEncoding v" using intsetValueEncoding_cases [of v] by auto
  have nv: "v \<notin> set (x # ys)" using st v(2) by auto
  obtain pos where "intsetSearch s v = Some (False, pos)" "\<forall>i < pos. (x # ys) ! i < v"
    using intsetSearch_correct [OF r st, of v] k nv by (auto simp: k_def)
  moreover from this(2) have "pos = 0" using v(2) by (metis less_not_sym not_gr_zero nth_Cons_0)
  ultimately have search: "intsetSearch s v = Some (False, 0)" by simp
  have u: "u32 (int k + 1) = Suc k" "u32 1 = 1" "to_int32 0 = 0"
    using k(2) by (auto simp: u32_small to_int32_small nat_add_distrib)
  obtain jk where rs: "intsetResize ra s (Suc k) = Some (s\<lparr>is_contents := enc_all 8 (x # ys) @ jk\<rparr>)"
    and jl: "length jk = 8"
    using resize_grow [OF ra d(1,4), of "Suc k"] k(2) e by (auto simp: k_def)
  define s1 where "s1 = s\<lparr>is_contents := enc_all 8 (x # ys) @ jk\<rparr>"
  have s1: "is_encoding s1 = 8" "is_length s1 = k" "is_contents s1 = enc_all 8 ([] @ x # ys) @ jk"
    using e k(1) by (simp_all add: s1_def)
  have mt: "intsetMoveTail s1 0 1 = Some s1"
    using k(2,3) s1 jl by (intro intsetMoveTail_wrapped) auto
  have set: "intsetSet s1 0 v = Some (s1\<lparr>is_contents := enc_all 8 (v # ys) @ jk\<rparr>)"
    using set_at [of s1 "[]" x ys jk v] s1 by simp
  define s' where "s' = s1\<lparr>is_contents := enc_all 8 (v # ys) @ jk, is_length := Suc k\<rparr>"
  have add: "intsetAdd ra s v = Some (s', True)"
    unfolding intsetAdd_def Let_def e using enc search k(1,4) u rs mt set s1
    by (simp add: s1_def [symmetric] s'_def del: enc_all_simps)
  have "in_range 8 v" using v(1) by (simp add: in_range_def int64_def)
  then have "intset_repr s' (v # ys @ [dec_int 8 jk])"
    using d(5) e s1 jl in_range_dec_int [of 8 jk] enc_dec_int [of 8 jk]
    by (simp add: intset_repr_def s'_def k_def)
  then show ?thesis using add repr_elems by blast
qed

lemma intset_elems_example:
  "intset_elems \<lparr>is_encoding = 2, is_length = 2, is_contents = [255, 255, 3, 0]\<rparr> = [-1, 3]"
  by (simp add: intset_elems_def dec_int_def sgn_val_def upt_rec)

lemma intset_ok_range:
  assumes "n < 2 ^ 62"
  shows "intset_ok \<lparr>is_encoding = 8, is_length = n, is_contents = enc_all 8 (map (\<lambda>i. int i + 1) [0..<n])\<rparr>"
    and "intset_elems \<lparr>is_encoding = 8, is_length = n, is_contents = enc_all 8 (map (\<lambda>i. int i + 1) [0..<n])\<rparr> =
           map (\<lambda>i. int i + 1) [0..<n]"
proof -
  let ?xs = "map (\<lambda>i. int i + 1) [0..<n]"
  have "intset_repr \<lparr>is_encoding = 8, is_length = n, is_contents = enc_all 8 ?xs\<rparr> ?xs"
    using assms by (auto simp: intset_repr_def all_in_range_def in_range_def)
  moreover have "sorted_wrt (<) ?xs" by (simp add: sorted_wrt_iff_nth_less)
  ultimately show "intset_ok \<lparr>is_encoding = 8, is_length = n, is_contents = enc_all 8 ?xs\<rparr>"
    "intset_elems \<lparr>is_encoding = 8, is_length = n, is_contents = enc_all 8 ?xs\<rparr> = ?xs"
    using intset_okI by blast+
qed

section \<open>Properties\<close>

text \<open>(C5) Any sequence of insertions, removals and lookups on a new integer set, of up to \<open>2 ^ 29\<close>
  operations on 64-bit integers, runs without a memory error and gives the same answers and the same
  final elements as on a mathematical set, whatever encodings the array goes through.\<close>

theorem intset_refines_set:
  assumes "realloc_ok ra" "length ops \<le> 2 ^ 29" "\<forall>x \<in> set ops. int64 (op_arg x)"
  shows "\<exists>s'. run_ops (intsetAdd ra) (intsetRemove ra) intsetFind intsetNew ops =
             Some (s', snd (spec_ops {} ops)) \<and>
           intset_ok s' \<and> set (intset_elems s') = fst (spec_ops {} ops)"
proof -
  have "intset_ok intsetNew" "intset_elems intsetNew = []"
    by (simp_all add: intset_ok_def intset_elems_def intsetNew_def)
  then show ?thesis
    using iset.run_ops_refines [of ra intsetNew ops] assms by auto
qed

theorem intset_refines_set_witness:
  "\<exists>s'. run_ops (intsetAdd realloc_zero) (intsetRemove realloc_zero) intsetFind intsetNew
           [SetAdd 5, SetAdd (-70000), SetFind 5, SetRemove 5, SetFind 5] =
         Some (s', [True, True, True, True, False]) \<and> set (intset_elems s') = {-70000}"
proof -
  have len: "length [SetAdd 5, SetAdd (-70000), SetFind 5, SetRemove 5, SetFind 5] \<le> 2 ^ 29" by simp
  have args: "\<forall>x \<in> set [SetAdd 5, SetAdd (-70000), SetFind 5, SetRemove 5, SetFind 5]. int64 (op_arg x)"
    by (simp add: int64_def)
  show ?thesis using intset_refines_set [OF realloc_ok_zero len args] by auto
qed

text \<open>(C30) Insertion: the array stays sorted and without duplicates, the answer says whether the value
  is new, and the elements are the old ones and the value. The upgrade to a wider encoding, done in
  place from the back, is one of the branches.\<close>

theorem intsetAdd_correct:
  assumes "realloc_ok ra" "intset_ok s" "int64 v"
    "is_length s * is_encoding s < 2 ^ 32" "is_length s < 2 ^ 31 - 1"
  shows "\<exists>s'. intsetAdd ra s v = Some (s', v \<notin> set (intset_elems s)) \<and> intset_ok s' \<and>
           set (intset_elems s') = insert v (set (intset_elems s)) \<and>
           is_length s' = card (insert v (set (intset_elems s)))"
proof -
  obtain s' where s': "intsetAdd ra s v = Some (s', v \<notin> set (intset_elems s))" "intset_ok s'"
    "set (intset_elems s') = insert v (set (intset_elems s))"
    using intsetAdd_elems [OF assms(1-3)] assms(4,5) by (auto simp: intset_fits_def)
  have "distinct (intset_elems s')" using s'(2) by (simp add: intset_ok_iff sorted_wrt_less_distinct)
  then have "length (intset_elems s') = card (insert v (set (intset_elems s)))"
    using distinct_card s'(3) by metis
  then show ?thesis using s' by (auto simp: intset_elems_def)
qed

theorem intsetAdd_correct_witness:
  "\<exists>s'. intsetAdd realloc_zero \<lparr>is_encoding = 2, is_length = 2, is_contents = [255, 255, 3, 0]\<rparr> 100000 =
          Some (s', True) \<and> intset_ok s' \<and> set (intset_elems s') = {-1, 3, 100000}"
proof -
  let ?s = "\<lparr>is_encoding = 2, is_length = 2, is_contents = [255, 255, 3, 0]\<rparr>"
  note el = intset_elems_example
  have ok: "intset_ok ?s" using el by (simp add: intset_ok_def)
  have v: "int64 100000" by (simp add: int64_def)
  show ?thesis using intsetAdd_correct [OF realloc_ok_zero ok v] el by auto
qed

text \<open>The binary search answers membership, with the index of the value, or else the index at
  which inserting it keeps the array sorted; it always terminates and never reads outside the array.\<close>

lemma intsetSearch_correct_pos:
  assumes "intset_ok s" "is_length s < 2 ^ 31"
  shows "\<exists>pos. intsetSearch s v = Some (v \<in> set (intset_elems s), pos) \<and>
     (if v \<in> set (intset_elems s) then pos < is_length s \<and> intset_elems s ! pos = v
      else pos \<le> is_length s \<and>
        sorted_wrt (<) (take pos (intset_elems s) @ v # drop pos (intset_elems s)))"
proof -
  have r: "intset_repr s (intset_elems s)" and st: "sorted_wrt (<) (intset_elems s)"
    using assms(1) by (auto simp: intset_ok_iff)
  have n: "length (intset_elems s) = is_length s" by (simp add: intset_elems_def)
  obtain pos where "intsetSearch s v = Some (v \<in> set (intset_elems s), pos)"
    and pos: "if v \<in> set (intset_elems s)
      then pos < length (intset_elems s) \<and> intset_elems s ! pos = v
      else pos \<le> length (intset_elems s) \<and> (\<forall>i < pos. intset_elems s ! i < v) \<and>
           (\<forall>i < length (intset_elems s). pos \<le> i \<longrightarrow> v < intset_elems s ! i)"
    using intsetSearch_correct [OF r st, of v] assms(2) n by auto
  then show ?thesis using n sorted_insert_at [OF st, of pos v] by (intro exI [of _ pos]) auto
qed

text \<open>(C38) The deep integrity check accepts a serialized set exactly when its header and size agree, it
  is not empty and it satisfies the invariant all operations rely on; it never reads outside the blob.\<close>

theorem intsetValidateIntegrity_iff:
  assumes "length p = sz" "sz < 2 ^ 31"
  shows "intsetValidateIntegrity p sz True =
           Some (8 \<le> sz \<and> intset_ok (intset_of_blob p) \<and> is_length (intset_of_blob p) \<noteq> 0)"
proof -
  define s where "s = intset_of_blob p"
  have c: "is_contents s = drop 8 p" by (simp add: s_def intset_of_blob_def)
  show ?thesis
  proof (cases "8 \<le> sz \<and> is_encoding s \<in> {2, 4, 8} \<and> 8 + is_length s * is_encoding s = sz \<and> is_length s \<noteq> 0")
    case False
    then have "intsetValidateIntegrity p sz True = Some False"
      by (auto simp: intsetValidateIntegrity_def Let_def s_def [symmetric])
    moreover have "\<not> (8 \<le> sz \<and> intset_ok s \<and> is_length s \<noteq> 0)"
      using False c assms(1) by (auto simp: intset_ok_def)
    ultimately show ?thesis by (simp add: s_def)
  next
    case True
    define xs where "xs = intset_elems s"
    have len: "length (is_contents s) = is_length s * is_encoding s" using True c assms(1) by auto
    have r: "intset_repr s xs" using repr_exists [OF _ len] True by (simp add: xs_def)
    note d = intset_reprD [OF r]
    have "length xs * is_encoding s < 2 ^ 31" using True d(3) assms(2) by auto
    then have n: "length xs < 2 ^ 31" using mult_bound d(2) by blast
    have n0: "0 < length xs" using True d(3) by simp
    have "intsetValidate_loop s (xs ! 0) [1..<length xs] = Some (sorted_wrt (<) xs)"
      using intsetValidate_loop_eq [OF r n, of 1 "xs ! 0"] n0 by simp
    moreover have "intsetGet_pos s 0 = Some (xs ! 0)" using get_repr [OF r n0] by simp
    ultimately have "intsetValidateIntegrity p sz True = Some (sorted_wrt (<) xs)"
      using True d(3) by (auto simp: intsetValidateIntegrity_def Let_def s_def [symmetric])
    then show ?thesis using True len by (auto simp: intset_ok_def s_def [symmetric] xs_def)
  qed
qed

theorem intsetValidateIntegrity_iff_witness:
  "intsetValidateIntegrity [2, 0, 0, 0, 2, 0, 0, 0, 255, 255, 3, 0] 12 True = Some True"
proof -
  let ?p = "[2, 0, 0, 0, 2, 0, 0, 0, 255, 255, 3, 0] :: bytes"
  have s: "intset_of_blob ?p = \<lparr>is_encoding = 2, is_length = 2, is_contents = [255, 255, 3, 0]\<rparr>"
    by (simp add: intset_of_blob_def)
  have "intset_ok (intset_of_blob ?p)" unfolding s using intset_elems_example by (simp add: intset_ok_def)
  then show ?thesis using intsetValidateIntegrity_iff [of ?p 12] s by simp
qed

text \<open>The limit the set type puts on the size of an integer set (\<^verbatim>\<open>t_set.c\<close>), from the configured one.\<close>

definition intsetMaxEntries :: "nat \<Rightarrow> nat" where
  "intsetMaxEntries set_max_intset_entries =
     (let max_entries = set_max_intset_entries in
      if max_entries \<ge> 2 ^ 30 then 2 ^ 30 else max_entries)"

text \<open>(C39) Below the limit of \<open>2 ^ 30\<close> entries that \<^verbatim>\<open>t_set.c\<close> enforces, at \<open>2 ^ 29\<close> elements of 8 bytes, inserting
  a value smaller than all of them does not implement set insertion, for any allocator: the byte
  count of \<open>intsetMoveTail\<close> wraps to 0, the smallest element is overwritten, and afterwards the
  invariant is broken or the element is lost.\<close>

theorem intsetAdd_overflow:
  assumes "realloc_ok ra" "intset_ok s" "is_encoding s = 8" "is_length s = 2 ^ 29" "int64 v"
    "\<forall>x \<in> set (intset_elems s). v < x"
  shows "is_length s < intsetMaxEntries (2 ^ 30) \<and>
    (\<exists>s'. intsetAdd ra s v = Some (s', True) \<and>
       \<not> (intset_ok s' \<and> set (intset_elems s') = insert v (set (intset_elems s))))"
proof -
  have r: "intset_repr s (intset_elems s)" and st: "sorted_wrt (<) (intset_elems s)"
    using assms(2) by (auto simp: intset_ok_iff)
  have n: "length (intset_elems s) = 2 ^ 29" using assms(4) by (simp add: intset_elems_def)
  then obtain x y ys where xs: "intset_elems s = x # y # ys"
    by (cases "intset_elems s"; cases "tl (intset_elems s)") auto
  have "length (x # y # ys) < 2 ^ 31 - 1" "u32 (int (length (x # y # ys) * 8)) = 0"
    using n unfolding xs by (simp_all add: u32_def)
  then obtain s' z where s': "intsetAdd ra s v = Some (s', True)" "intset_elems s' = v # (y # ys) @ [z]"
    using intsetAdd_wrapped [OF assms(1) r [unfolded xs] st [unfolded xs] assms(3), of v] assms(5,6) xs
    by auto
  have "\<not> (intset_ok s' \<and> set (intset_elems s') = insert v (set (intset_elems s)))"
  proof
    assume a: "intset_ok s' \<and> set (intset_elems s') = insert v (set (intset_elems s))"
    have "v < x" "x \<noteq> y" "x \<notin> set ys" "x < y" using assms(6) st unfolding xs by auto
    then have "z = x" using a unfolding s'(2) xs by auto
    moreover have "y < z" using a unfolding intset_ok_iff s'(2) by (auto simp: sorted_wrt_append)
    ultimately show False using \<open>x < y\<close> by simp
  qed
  then show ?thesis using s'(1) assms(4) by (auto simp: intsetMaxEntries_def)
qed

theorem intsetAdd_overflow_witness:
  "\<exists>s s'. intset_ok s \<and> is_encoding s = 8 \<and> is_length s = 2 ^ 29 \<and> intsetAdd realloc_zero s 0 = Some (s', True) \<and>
     \<not> (intset_ok s' \<and> set (intset_elems s') = insert 0 (set (intset_elems s)))"
proof -
  define n :: nat where "n = 2 ^ 29"
  define s where "s = \<lparr>is_encoding = 8, is_length = n, is_contents = enc_all 8 (map (\<lambda>i. int i + 1) [0..<n])\<rparr>"
  have "n < 2 ^ 62" by (simp add: n_def)
  then have ok: "intset_ok s" and el: "intset_elems s = map (\<lambda>i. int i + 1) [0..<n]"
    unfolding s_def by (rule intset_ok_range)+
  have e: "is_encoding s = 8" "is_length s = 2 ^ 29" by (simp_all add: s_def n_def)
  have v: "int64 0" "\<forall>x \<in> set (intset_elems s). 0 < x" unfolding el by (auto simp: int64_def)
  show ?thesis using ok e intsetAdd_overflow [OF realloc_ok_zero ok e v] by blast
qed

end
