(* ===== verification/Util_Numbers.thy ===== *)
theory Util_Numbers
  imports Redis_Prelude
begin

text \<open>
  Integer/string conversion of \<^verbatim>\<open>src/util.c\<close>: \<open>digits10\<close>, \<open>sdigits10\<close>, \<open>ull2string\<close>, \<open>ll2string\<close>,
  \<open>string2ll\<close>, \<open>string2l\<close>.

  The reference is \<open>show_nat\<close>/\<open>show_int\<close>, the plain decimal notation. Printing writes exactly it
  (two digits at a time, from the table \<open>digits\<close>, right to left), parsing accepts exactly it.
\<close>

section \<open>Decimal notation, the reference\<close>

fun show_nat :: "nat \<Rightarrow> bytes" where
  "show_nat n = (if n < 10 then [48 + of_nat n] else show_nat (n div 10) @ [48 + of_nat (n mod 10)])"

declare show_nat.simps [simp del]

definition show_int :: "int \<Rightarrow> bytes" where
  "show_int v = (if v < 0 then 45 # show_nat (nat (- v)) else show_nat (nat v))"

section \<open>Operations\<close>

function digits10 :: "nat \<Rightarrow> nat" where
  "digits10 v =
     (if v < 10 then 1
      else if v < 100 then 2
      else if v < 1000 then 3
      else if v < 1000000000000 then
        (if v < 100000000 then
           (if v < 1000000 then
              (if v < 10000 then 4 else 5 + (if v \<ge> 100000 then 1 else 0))
            else 7 + (if v \<ge> 10000000 then 1 else 0))
         else if v < 10000000000 then 9 + (if v \<ge> 1000000000 then 1 else 0)
         else 11 + (if v \<ge> 100000000000 then 1 else 0))
      else 12 + digits10 (v div 1000000000000))"
  by pat_completeness auto
termination by (relation "measure id") auto

declare digits10.simps [simp del]

definition sdigits10 :: "int \<Rightarrow> nat" where
  "sdigits10 v =
     (if v < 0 then
        (let uv = (if v \<noteq> INT64_MIN then nat (- v) else nat INT64_MAX + 1)
         in digits10 uv + 1)
      else digits10 (nat v))"

text \<open>The table of two-digit strings \<open>00\<close> to \<open>99\<close>.\<close>

definition digits :: bytes where
  "digits = map of_char (''0001020304050607080910111213141516171819'' @
                         ''2021222324252627282930313233343536373839'' @
                         ''4041424344454647484950515253545556575859'' @
                         ''6061626364656667686970717273747576777879'' @
                         ''8081828384858687888990919293949596979899'')"

text \<open>The \<^verbatim>\<open>while (value >= 100)\<close> loop of \<open>ull2string\<close>; \<open>nxt\<close> is the offset of \<^verbatim>\<open>dst[next]\<close>. The
  result is the buffer, the remaining value and the offset of its last digit.\<close>

function ull2string_loop :: "bytes \<Rightarrow> nat \<Rightarrow> nat \<Rightarrow> (bytes \<times> nat \<times> nat) option" where
  "ull2string_loop dst nxt value =
     (if value \<ge> 100 then
        (if nxt = 0 then None
         else do {
           d1 \<leftarrow> rd digits (value mod 100 * 2 + 1);
           dst1 \<leftarrow> mem_write dst nxt [d1];
           d0 \<leftarrow> rd digits (value mod 100 * 2);
           dst2 \<leftarrow> mem_write dst1 (nxt - 1) [d0];
           if nxt < 2 then None else ull2string_loop dst2 (nxt - 2) (value div 100)
         })
      else Some (dst, value, nxt))"
  by pat_completeness auto
termination by (relation "measure (\<lambda>(dst, nxt, value). value)") auto

declare ull2string_loop.simps [simp del]

text \<open>The last one or two digits.\<close>

definition ull2string_last :: "bytes \<Rightarrow> nat \<Rightarrow> nat \<Rightarrow> bytes option" where
  "ull2string_last dst nxt value =
     (if value < 10 then mem_write dst nxt [48 + of_nat value]
      else if nxt = 0 then None
      else do {
        d1 \<leftarrow> rd digits (value * 2 + 1);
        dst1 \<leftarrow> mem_write dst nxt [d1];
        d0 \<leftarrow> rd digits (value * 2);
        mem_write dst1 (nxt - 1) [d0]
      })"

text \<open>\<open>buf\<close> is the memory, \<open>off\<close> the offset \<^verbatim>\<open>dst\<close> points to. The result is the memory and the
  returned length.\<close>

definition ull2string :: "bytes \<Rightarrow> nat \<Rightarrow> nat \<Rightarrow> nat \<Rightarrow> (bytes \<times> nat) option" where
  "ull2string buf off dstlen value =
     (let len = digits10 value in
      if len \<ge> dstlen then
        (if dstlen > 0 then do { b \<leftarrow> mem_write buf off [0]; Some (b, 0) } else Some (buf, 0))
      else do {
        b0 \<leftarrow> mem_write buf (off + len) [0];
        (b1, value, nxt) \<leftarrow> ull2string_loop b0 (off + len - 1) value;
        b2 \<leftarrow> ull2string_last b1 nxt value;
        Some (b2, len)
      })"

definition ll2string :: "bytes \<Rightarrow> nat \<Rightarrow> nat \<Rightarrow> int \<Rightarrow> (bytes \<times> nat) option" where
  "ll2string buf off dstlen svalue =
     (if svalue < 0 then
        (let value = (if svalue \<noteq> INT64_MIN then nat (- svalue) else nat INT64_MAX + 1) in
         if dstlen < 2 then
           (if dstlen > 0 then do { b \<leftarrow> mem_write buf off [0]; Some (b, 0) } else Some (buf, 0))
         else do {
           b \<leftarrow> mem_write buf off [45];
           (b', len) \<leftarrow> ull2string b (off + 1) (dstlen - 1) value;
           Some (b', if len = 0 then 0 else len + 1)
         })
      else ull2string buf off dstlen (nat svalue))"

text \<open>\<^verbatim>\<open>p[0] >= lo && p[0] <= hi\<close> on \<^verbatim>\<open>char\<close>, which is signed.\<close>

definition char_in :: "byte \<Rightarrow> byte \<Rightarrow> byte \<Rightarrow> bool" where
  "char_in lo hi c \<longleftrightarrow> sint lo \<le> sint c \<and> sint c \<le> sint hi"

fun string2ll_loop :: "nat \<Rightarrow> bytes \<Rightarrow> (nat \<times> bytes) option" where
  "string2ll_loop v [] = Some (v, [])"
| "string2ll_loop v (c # cs) =
     (if char_in 48 57 c then
        (if v > UINT64_MAX div 10 then None
         else if v * 10 > UINT64_MAX - (unat c - 48) then None
         else string2ll_loop (v * 10 + (unat c - 48)) cs)
      else Some (v, c # cs))"

definition string2ll :: "bytes \<Rightarrow> int option" where
  "string2ll s =
     (if length s = 0 \<or> length s \<ge> 21 then None
      else if length s = 1 \<and> hd s = 48 then Some 0
      else
        (let negative = (hd s = 45); p = (if negative then tl s else s) in
         if p = [] then None
         else if char_in 49 57 (hd p) then
           (case string2ll_loop (unat (hd p) - 48) (tl p) of
              None \<Rightarrow> None
            | Some (v, rest) \<Rightarrow>
                if rest \<noteq> [] then None
                else if negative then
                  (if v > nat (- (INT64_MIN + 1)) + 1 then None else Some (- int v))
                else if v > nat INT64_MAX then None else Some (int v))
         else None))"

text \<open>\<^verbatim>\<open>long\<close> has 64 bits, so the range check of \<open>string2l\<close> is against the same limits.\<close>

definition string2l :: "bytes \<Rightarrow> int option" where
  "string2l s =
     (case string2ll s of
        None \<Rightarrow> None
      | Some llval \<Rightarrow> if llval < INT64_MIN \<or> llval > INT64_MAX then None else Some llval)"

section \<open>Decimal notation: lemmas\<close>

lemma show_nat_small: "n < 10 \<Longrightarrow> show_nat n = [48 + of_nat n]"
  by (subst show_nat.simps) simp

lemma show_nat_step:
  "0 < n \<Longrightarrow> d < 10 \<Longrightarrow> show_nat (10 * n + d) = show_nat n @ [48 + of_nat d]"
  by (subst show_nat.simps) simp

lemma show_nat_big: "10 \<le> n \<Longrightarrow> show_nat n = show_nat (n div 10) @ [48 + of_nat (n mod 10)]"
  by (subst show_nat.simps) simp

lemma show_nat_nonempty [simp]: "show_nat n \<noteq> []"
  by (subst show_nat.simps) simp

lemma show_nat_100:
  assumes "100 \<le> n"
  shows "show_nat n = show_nat (n div 100) @
           [48 + of_nat (n mod 100 div 10), 48 + of_nat (n mod 100 mod 10)]"
proof -
  have "n mod 100 = 10 * (n div 10 mod 10) + n mod 10"
    using mod_mult2_eq [of n 10 10] by simp
  then have "n div 10 mod 10 = n mod 100 div 10" "n mod 10 = n mod 100 mod 10"
    by simp_all
  moreover have "n div 10 div 10 = n div 100" using div_mult2_eq [of n 10 10] by simp
  moreover have "10 \<le> n" "10 \<le> n div 10" using assms by auto
  ultimately show ?thesis
    using show_nat_big [of n] show_nat_big [of "n div 10"] by simp
qed

lemma length_show_nat_less: "n < 10 ^ k \<Longrightarrow> 0 < k \<Longrightarrow> length (show_nat n) \<le> k"
proof (induction n arbitrary: k rule: show_nat.induct)
  case (1 n)
  show ?case
  proof (cases "n < 10")
    case True
    then show ?thesis using 1 by (simp add: show_nat_small)
  next
    case False
    from "1.prems"(2) obtain m where m: "k = Suc m" by (cases k) auto
    with False "1.prems"(1) have "0 < m" by (cases m) auto
    moreover have "n div 10 < 10 ^ m" using "1.prems"(1) m by (simp add: div_less_iff_less_mult)
    ultimately have "length (show_nat (n div 10)) \<le> m" using "1.IH" False by simp
    with False m show ?thesis by (simp add: show_nat_big)
  qed
qed

lemma length_show_nat_ge: "10 ^ k \<le> n \<Longrightarrow> k < length (show_nat n)"
proof (induction k arbitrary: n)
  case 0
  then show ?case by simp
next
  case (Suc k)
  then have "10 ^ k \<le> n div 10" by (simp add: less_eq_div_iff_mult_less_eq)
  then have "k < length (show_nat (n div 10))" by (rule Suc.IH)
  moreover have "10 \<le> n" using Suc.prems one_le_power [of "10::nat" k] unfolding power_Suc by linarith
  ultimately show ?case by (simp add: show_nat_big)
qed

lemma length_show_nat_eq:
  assumes "10 ^ k \<le> n" "n < 10 ^ Suc k"
  shows "length (show_nat n) = Suc k"
  using length_show_nat_less [OF assms(2)] length_show_nat_ge [OF assms(1)] by simp

lemma length_show_nat_div:
  "10 ^ k \<le> n \<Longrightarrow> length (show_nat n) = k + length (show_nat (n div 10 ^ k))"
proof (induction k arbitrary: n)
  case 0
  then show ?case by simp
next
  case (Suc k)
  have ten: "10 \<le> n" using Suc.prems one_le_power [of "10::nat" k] unfolding power_Suc by linarith
  have "10 ^ k \<le> n div 10" using Suc.prems by (simp add: less_eq_div_iff_mult_less_eq)
  then have "length (show_nat (n div 10)) = k + length (show_nat (n div 10 div 10 ^ k))"
    by (rule Suc.IH)
  moreover have "n div 10 div 10 ^ k = n div 10 ^ Suc k" by (simp add: div_mult2_eq)
  ultimately show ?case using ten by (simp add: show_nat_big)
qed

section \<open>Printing\<close>

lemma digits10_eq: "digits10 v = length (show_nat v)"
proof (induction v rule: digits10.induct)
  case (1 v)
  consider "v < 10 ^ 3" | "10 ^ 3 \<le> v \<and> v < 10 ^ 6" | "10 ^ 6 \<le> v \<and> v < 10 ^ 9"
    | "10 ^ 9 \<le> v \<and> v < 10 ^ 12" | "10 ^ 12 \<le> v"
    by linarith
  then show ?case
  proof cases
    case 1
    then show ?thesis
      using length_show_nat_eq [of 1 v] length_show_nat_eq [of 2 v]
      by (subst digits10.simps) (auto simp: show_nat_small)
  next
    case 2
    then show ?thesis
      using length_show_nat_eq [of 3 v] length_show_nat_eq [of 4 v] length_show_nat_eq [of 5 v]
      by (subst digits10.simps) auto
  next
    case 3
    then show ?thesis
      using length_show_nat_eq [of 6 v] length_show_nat_eq [of 7 v] length_show_nat_eq [of 8 v]
      by (subst digits10.simps) auto
  next
    case 4
    then show ?thesis
      using length_show_nat_eq [of 9 v] length_show_nat_eq [of 10 v] length_show_nat_eq [of 11 v]
      by (subst digits10.simps) auto
  next
    case 5
    then have "digits10 v = 12 + digits10 (v div 1000000000000)"
      by (subst digits10.simps) simp
    also have "\<dots> = 12 + length (show_nat (v div 10 ^ 12))"
      using 5 "1.IH" by simp
    finally show ?thesis using length_show_nat_div [of 12 v] 5 by simp
  qed
qed

lemma length_digits: "length digits = 200"
  by (simp add: digits_def)

lemma digits_eq:
  "digits = concat (map (\<lambda>i. [48 + of_nat (i div 10), 48 + of_nat (i mod 10)]) [0..<100])"
  unfolding digits_def by (simp add: upt_rec of_char_def)

lemma rd_digits:
  assumes "i < 100"
  shows "rd digits (i * 2) = Some (48 + of_nat (i div 10))"
    and "rd digits (i * 2 + 1) = Some (48 + of_nat (i mod 10))"
    and "rd digits (Suc (i * 2)) = Some (48 + of_nat (i mod 10))"
proof -
  have "digits ! (i * 2) = 48 + of_nat (i div 10) \<and> digits ! (i * 2 + 1) = 48 + of_nat (i mod 10)"
    unfolding digits_eq using assms by (rule nth_pairs)
  then show "rd digits (i * 2) = Some (48 + of_nat (i div 10))"
    and "rd digits (i * 2 + 1) = Some (48 + of_nat (i mod 10))"
    and "rd digits (Suc (i * 2)) = Some (48 + of_nat (i mod 10))"
    using assms by (auto simp: rd_def length_digits)
qed

lemma two_digits: "10 \<le> v \<Longrightarrow> v < 100 \<Longrightarrow> show_nat v = [48 + of_nat (v div 10), 48 + of_nat (v mod 10)]"
  by (simp add: show_nat_big show_nat_small)

lemma ull2string_last_eq:
  assumes "v < 100" "length mid = length (show_nat v)" "nxt = length as + length mid - 1"
  shows "ull2string_last (as @ mid @ bs) nxt v = Some (as @ show_nat v @ bs)"
proof (cases "v < 10")
  case True
  with assms obtain x where "mid = [x]" by (auto simp: show_nat_small length_Suc_conv)
  with True assms show ?thesis
    by (simp add: ull2string_last_def show_nat_small mem_write_append [of _ as _ "[x]", simplified])
next
  case False
  with assms obtain x y where mid: "mid = [x, y]" by (auto simp: two_digits length_Suc_conv)
  have w1: "mem_write (as @ [x, y] @ bs) (length as + 1) [d] = Some (as @ [x, d] @ bs)" for d
    using mem_write_append [of _ "as @ [x]" "[d]" "[y]" bs] by simp
  have w0: "mem_write (as @ [x, d] @ bs) (length as) [e] = Some (as @ [e, d] @ bs)" for d e
    using mem_write_append [of _ as "[e]" "[x]" "d # bs"] by simp
  show ?thesis
    using False assms mid w0 w1 by (simp add: ull2string_last_def rd_digits two_digits)
qed

lemma ull2string_loop_eq:
  assumes "length mid = length (show_nat v)" "nxt = length as + length mid - 1"
  shows "do { (b, v', nxt') \<leftarrow> ull2string_loop (as @ mid @ bs) nxt v; ull2string_last b nxt' v' } =
           Some (as @ show_nat v @ bs)"
  using assms
proof (induction v arbitrary: mid nxt bs rule: less_induct)
  case (less v)
  show ?case
  proof (cases "100 \<le> v")
    case False
    then have "ull2string_loop (as @ mid @ bs) nxt v = Some (as @ mid @ bs, v, nxt)"
      by (subst ull2string_loop.simps) simp
    then show ?thesis using False less.prems by (simp add: ull2string_last_eq)
  next
    case True
    define m where "m = take (length (show_nat (v div 100))) mid"
    have len: "length mid = length (show_nat (v div 100)) + 2"
      using less.prems(1) show_nat_100 [OF True] by simp
    then have lm: "length m = length (show_nat (v div 100))" by (simp add: m_def)
    have "0 < length m" using lm by simp
    have "length (drop (length (show_nat (v div 100))) mid) = 2" using len by simp
    then obtain x y where "drop (length (show_nat (v div 100))) mid = [x, y]"
      by (rule length_2E)
    then have mid: "mid = m @ [x, y]" unfolding m_def by (metis append_take_drop_id)
    have nxt: "nxt = length (as @ m) + 1" using less.prems(2) mid by simp
    let ?d0 = "48 + of_nat (v mod 100 div 10) :: byte" and ?d1 = "48 + of_nat (v mod 100 mod 10) :: byte"
    have w1: "mem_write (as @ mid @ bs) nxt [?d1] = Some (as @ m @ [x, ?d1] @ bs)"
      using mem_write_append [of nxt "as @ m @ [x]" "[?d1]" "[y]" bs] nxt mid by simp
    have w0: "mem_write (as @ m @ [x, ?d1] @ bs) (nxt - 1) [?d0] = Some (as @ m @ [?d0, ?d1] @ bs)"
      using mem_write_append [of "nxt - 1" "as @ m" "[?d0]" "[x]" "?d1 # bs"] nxt by simp
    have "ull2string_loop (as @ mid @ bs) nxt v =
            ull2string_loop (as @ m @ [?d0, ?d1] @ bs) (nxt - 2) (v div 100)"
      using True w1 w0 nxt \<open>0 < length m\<close> rd_digits [of "v mod 100"]
      by (subst ull2string_loop.simps) simp
    moreover have "do { (b, v', nxt') \<leftarrow> ull2string_loop (as @ m @ [?d0, ?d1] @ bs) (nxt - 2) (v div 100);
                        ull2string_last b nxt' v' } = Some (as @ show_nat (v div 100) @ [?d0, ?d1] @ bs)"
      using True lm nxt \<open>0 < length m\<close> by (intro less.IH) auto
    ultimately show ?thesis using show_nat_100 [OF True] by simp
  qed
qed

lemma ull2string_eq:
  assumes "length (show_nat v) < dstlen" "length mid = Suc (length (show_nat v))"
  shows "ull2string (as @ mid @ bs) (length as) dstlen v =
           Some (as @ show_nat v @ 0 # bs, length (show_nat v))"
proof -
  obtain m x where mid: "mid = m @ [x]" "length m = length (show_nat v)"
    using assms(2) by (metis append_butlast_last_id length_butlast diff_Suc_1 list.size(3) nat.distinct(1))
  have w: "mem_write (as @ mid @ bs) (length as + length (show_nat v)) [0] = Some (as @ m @ 0 # bs)"
    using mem_write_append [of _ "as @ m" "[0]" "[x]" bs] mid by simp
  have "do { (b, v', nxt') \<leftarrow> ull2string_loop (as @ m @ 0 # bs) (length as + length (show_nat v) - 1) v;
             ull2string_last b nxt' v' } = Some (as @ show_nat v @ 0 # bs)"
    using mid(2) by (intro ull2string_loop_eq) auto
  then show ?thesis
    using assms(1) w
    by (auto simp: ull2string_def digits10_eq Let_def split: bind_splits prod.splits)
qed

section \<open>Parsing\<close>

abbreviation dval :: "byte \<Rightarrow> nat" where "dval c \<equiv> unat c - 48"

abbreviation is_dig :: "byte \<Rightarrow> bool" where "is_dig c \<equiv> 48 \<le> unat c \<and> unat c \<le> 57"

definition dec_acc :: "nat \<Rightarrow> bytes \<Rightarrow> nat" where
  "dec_acc = foldl (\<lambda>v c. v * 10 + dval c)"

lemma dec_acc_simps [simp]:
  "dec_acc v [] = v" "dec_acc v (c # cs) = dec_acc (v * 10 + dval c) cs"
  "dec_acc v (cs @ [c]) = dec_acc v cs * 10 + dval c"
  by (simp_all add: dec_acc_def)

lemma dec_acc_ge: "v \<le> dec_acc v cs"
  by (induction cs rule: rev_induct) auto

lemma sint_byte: "sint (c :: byte) = (if unat c < 128 then int (unat c) else int (unat c) - 256)"
proof -
  have u: "uint c = int (unat c)" by simp
  have "sint c = (int (unat c) + 128) mod 256 - 128"
    unfolding u [symmetric]
    by (simp add: sint_uint signed_take_bit_eq_take_bit_shift take_bit_eq_mod)
  moreover have "(int (unat c) + 128) mod 256 = (int (unat c) - 128) mod 256"
    using mod_add_self2 [of "int (unat c) - 128" 256] by (simp add: algebra_simps)
  ultimately show ?thesis
    using unat_byte_less [of c] by (cases "unat c < 128") (simp_all del: of_nat_unat unat_byte_less)
qed

lemma char_in_iff:
  "unat lo < 128 \<Longrightarrow> unat hi < 128 \<Longrightarrow> char_in lo hi c \<longleftrightarrow> unat lo \<le> unat c \<and> unat c \<le> unat hi"
  using unat_byte_less [of c] by (auto simp: char_in_def sint_byte simp del: of_nat_unat unat_byte_less)

lemma char_in_digit [simp]:
  "char_in 48 57 c \<longleftrightarrow> is_dig c" "char_in 49 57 c \<longleftrightarrow> 49 \<le> unat c \<and> unat c \<le> 57"
  by (simp_all add: char_in_iff)

lemma string2ll_loop_complete:
  "\<forall>c \<in> set cs. is_dig c \<Longrightarrow> dec_acc v cs \<le> UINT64_MAX \<Longrightarrow> string2ll_loop v cs = Some (dec_acc v cs, [])"
proof (induction cs arbitrary: v)
  case Nil
  then show ?case by simp
next
  case (Cons c cs)
  have "v * 10 + dval c \<le> UINT64_MAX"
    using Cons.prems(2) dec_acc_ge [of "v * 10 + dval c" cs] by simp
  then show ?case using Cons by auto
qed

lemma string2ll_loop_sound:
  "string2ll_loop v cs = Some (w, []) \<Longrightarrow> (\<forall>c \<in> set cs. is_dig c) \<and> w = dec_acc v cs"
  by (induction cs arbitrary: v) (auto split: if_splits)

lemma byte_of_dval: "is_dig c \<Longrightarrow> 48 + of_nat (dval c) = c"
  by (rule unsigned_word_eqI [where 'a = nat]) (simp add: unat_word_ariths)

lemma show_nat_dec_acc:
  "0 < v \<Longrightarrow> \<forall>c \<in> set cs. is_dig c \<Longrightarrow> show_nat (dec_acc v cs) = show_nat v @ cs"
proof (induction cs rule: rev_induct)
  case Nil
  then show ?case by simp
next
  case (snoc c cs)
  have "0 < dec_acc v cs" using snoc.prems(1) dec_acc_ge [of v cs] by simp
  moreover have "dval c < 10" using snoc.prems(2) by auto
  ultimately have "show_nat (10 * dec_acc v cs + dval c) = show_nat (dec_acc v cs) @ [48 + of_nat (dval c)]"
    by (rule show_nat_step)
  also have "(48 + of_nat (dval c) :: byte) = c" using snoc.prems(2) by (intro byte_of_dval) auto
  finally have "show_nat (10 * dec_acc v cs + dval c) = show_nat (dec_acc v cs) @ [c]" .
  then show ?case using snoc by (simp add: mult.commute)
qed

lemma unat_digit: "d < 10 \<Longrightarrow> unat (48 + of_nat d :: byte) = 48 + d"
  by (simp add: unat_word_ariths)

lemma show_nat_cases:
  "0 < w \<Longrightarrow> \<exists>c cs. show_nat w = c # cs \<and> 49 \<le> unat c \<and> unat c \<le> 57 \<and>
     (\<forall>c \<in> set cs. is_dig c) \<and> dec_acc (dval c) cs = w"
proof (induction w rule: less_induct)
  case (less w)
  show ?case
  proof (cases "w < 10")
    case True
    then show ?thesis using less.prems by (auto simp: show_nat_small unat_digit)
  next
    case False
    then obtain c cs where IH: "show_nat (w div 10) = c # cs" "49 \<le> unat c" "unat c \<le> 57"
      "\<forall>c \<in> set cs. is_dig c" "dec_acc (dval c) cs = w div 10"
      using less.IH [of "w div 10"] div_greater_zero_iff [of w 10] by auto
    let ?d = "48 + of_nat (w mod 10) :: byte"
    have "unat ?d = 48 + w mod 10" by (rule unat_digit) simp
    moreover have "show_nat w = c # (cs @ [?d])" using False IH(1) by (simp add: show_nat_big)
    moreover have "w mod 10 < 10" by simp
    ultimately show ?thesis using IH by (intro exI [of _ c] exI [of _ "cs @ [?d]"]) auto
  qed
qed

lemma length_show_int: "int64 v \<Longrightarrow> length (show_int v) \<le> 20"
proof -
  assume "int64 v"
  then have "nat (- v) < 10 ^ 19" "nat v < 10 ^ 19" by (auto simp: int64_def)
  then have "length (show_nat (nat (- v))) \<le> 19" "length (show_nat (nat v)) \<le> 19"
    by (auto intro: length_show_nat_less)
  then show ?thesis by (auto simp: show_int_def)
qed

lemma show_int_nonempty [simp]: "show_int v \<noteq> []"
  by (simp add: show_int_def)

lemma string2ll_show_int:
  assumes "int64 v"
  shows "string2ll (show_int v) = Some v"
proof (cases "v = 0")
  case True
  then show ?thesis by (simp add: show_int_def show_nat_small string2ll_def)
next
  case False
  define w where "w = nat \<bar>v\<bar>"
  have w: "0 < w" "w \<le> 9223372036854775808" "0 < v \<Longrightarrow> w \<le> 9223372036854775807"
    using False assms by (auto simp: w_def int64_def)
  obtain c cs where sw: "show_nat w = c # cs" "49 \<le> unat c" "unat c \<le> 57"
    "\<forall>c \<in> set cs. is_dig c" "dec_acc (dval c) cs = w"
    using show_nat_cases [OF w(1)] by blast
  have loop: "string2ll_loop (dval c) cs = Some (w, [])"
    using string2ll_loop_complete [OF sw(4), of "dval c"] sw(5) w(2) by simp
  have c: "c \<noteq> 45" "c \<noteq> 48" using sw(2) by auto
  have len: "length (show_int v) < 21" using length_show_int [OF assms] by simp
  show ?thesis
  proof (cases "v < 0")
    case True
    then have "show_int v = 45 # c # cs" "v = - int w" using sw by (auto simp: show_int_def w_def)
    then show ?thesis using len sw w loop by (simp add: string2ll_def Let_def)
  next
    case False
    then have "show_int v = c # cs" "v = int w" "0 < v" using sw \<open>v \<noteq> 0\<close> by (auto simp: show_int_def w_def)
    then show ?thesis using len sw w c loop by (simp add: string2ll_def Let_def)
  qed
qed

lemma parsed_digits:
  assumes "49 \<le> unat c" "unat c \<le> 57" "string2ll_loop (dval c) cs = Some (w, [])"
  shows "show_nat w = c # cs" "0 < w"
proof -
  have d: "\<forall>c \<in> set cs. is_dig c" "w = dec_acc (dval c) cs"
    using string2ll_loop_sound [OF assms(3)] by auto
  have "show_nat (dval c) = [c]"
    using assms(1,2) byte_of_dval [of c] by (simp add: show_nat_small)
  then show "show_nat w = c # cs" using show_nat_dec_acc [of "dval c" cs] d assms(1) by simp
  show "0 < w" using d(2) dec_acc_ge [of "dval c" cs] assms(1) by simp
qed

lemma string2ll_sound:
  assumes "string2ll s = Some v"
  shows "int64 v \<and> s = show_int v"
proof (cases "s = [48]")
  case True
  then show ?thesis using assms by (simp add: string2ll_def show_int_def show_nat_small int64_def)
next
  case False
  define negative where "negative \<longleftrightarrow> hd s = 45"
  define p where "p = (if negative then tl s else s)"
  have ne: "s \<noteq> []" using assms by (auto simp: string2ll_def)
  have one: "\<not> (length s = 1 \<and> hd s = 48)" using False by (cases s) auto
  have e: "(if p = [] then None
     else if char_in 49 57 (hd p) then
       (case string2ll_loop (dval (hd p)) (tl p) of
          None \<Rightarrow> None
        | Some (v, rest) \<Rightarrow>
            if rest \<noteq> [] then None
            else if negative then (if v > nat (- (INT64_MIN + 1)) + 1 then None else Some (- int v))
            else if v > nat INT64_MAX then None else Some (int v))
     else None) = Some v"
    using assms ne one unfolding string2ll_def Let_def negative_def p_def
    by (simp del: char_in_digit split: if_split_asm)
  then obtain c cs where p: "p = c # cs" by (cases p) auto
  with e have c: "49 \<le> unat c" "unat c \<le> 57" by (auto split: if_split_asm)
  with e p obtain w where loop: "string2ll_loop (dval c) cs = Some (w, [])"
    and v: "v = (if negative then - int w else int w)"
    and bnd: "w \<le> (if negative then 9223372036854775808 else 9223372036854775807)"
    by (cases "string2ll_loop (dval c) cs") (auto split: if_split_asm)
  have "show_nat w = p" "0 < w" using parsed_digits [OF c loop] p by auto
  moreover have "s = (if negative then 45 # p else p)" using ne by (cases s) (auto simp: p_def negative_def)
  ultimately show ?thesis using v bnd by (auto simp: show_int_def int64_def split: if_splits)
qed

lemma ll2string_eq:
  assumes "int64 v" "length (show_int v) < dstlen" "length mid = Suc (length (show_int v))"
  shows "ll2string (as @ mid @ bs) (length as) dstlen v =
           Some (as @ show_int v @ 0 # bs, length (show_int v))"
proof (cases "v < 0")
  case False
  then show ?thesis using assms by (simp add: ll2string_def show_int_def ull2string_eq)
next
  case True
  obtain x m where mid: "mid = x # m" using assms(3) by (cases mid) auto
  have sv: "show_int v = 45 # show_nat (nat (- v))" using True by (simp add: show_int_def)
  have w: "mem_write (as @ x # m @ bs) (length as) [45] = Some (as @ 45 # m @ bs)"
    using mem_write_append [of _ as "[45]" "[x]" "m @ bs"] by simp
  have "ull2string ((as @ [45]) @ m @ bs) (length (as @ [45])) (dstlen - 1) (nat (- v)) =
          Some ((as @ [45]) @ show_nat (nat (- v)) @ 0 # bs, length (show_nat (nat (- v))))"
    using assms sv mid by (intro ull2string_eq) auto
  moreover have "(if v \<noteq> INT64_MIN then nat (- v) else nat INT64_MAX + 1) = nat (- v)"
    by auto
  ultimately show ?thesis
    using True assms mid w sv by (simp add: ll2string_def Let_def)
qed

lemma sdigits10_eq: "int64 v \<Longrightarrow> sdigits10 v = length (show_int v)"
  by (auto simp: sdigits10_def show_int_def digits10_eq Let_def)

lemma ull2string_short:
  assumes "off + dstlen \<le> length buf" "dstlen \<le> length (show_nat v)"
  shows "ull2string buf off dstlen v =
           Some (if dstlen = 0 then buf else take off buf @ 0 # drop (Suc off) buf, 0)"
  using assms by (simp add: ull2string_def digits10_eq mem_write_def)

lemma ll2string_short:
  assumes "off + dstlen \<le> length buf" "dstlen \<le> length (show_int v)" "int64 v"
  shows "\<exists>b'. ll2string buf off dstlen v = Some (b', 0) \<and> length b' = length buf \<and>
           take off b' = take off buf \<and> drop (off + dstlen) b' = drop (off + dstlen) buf"
proof -
  consider "0 \<le> v" | "v < 0" "dstlen < 2" | "v < 0" "2 \<le> dstlen" by linarith
  then show ?thesis
  proof cases
    case 1
    then show ?thesis
      using assms by (auto simp: ll2string_def show_int_def ull2string_short min_def drop_Cons' add.commute)
  next
    case 2
    then have "dstlen = 0 \<or> dstlen = 1" by auto
    with 2 show ?thesis
      using assms by (auto simp: ll2string_def mem_write_def Let_def min_def drop_Cons')
  next
    case 3
    define b where "b = take off buf @ 45 # drop (Suc off) buf"
    have w: "mem_write buf off [45] = Some b" using 3 assms(1) by (simp add: mem_write_def b_def)
    have val: "(if v \<noteq> INT64_MIN then nat (- v) else nat INT64_MAX + 1) = nat (- v)"
      by auto
    have "length b = length buf" using 3 assms(1) by (simp add: b_def)
    moreover have "dstlen - 1 \<le> length (show_nat (nat (- v)))"
      using 3 assms(2) by (simp add: show_int_def)
    ultimately have u: "ull2string b (off + 1) (dstlen - 1) (nat (- v)) =
        Some (take (Suc off) b @ 0 # drop (Suc (Suc off)) b, 0)"
      using 3 assms(1) by (simp add: ull2string_short)
    have "take off (take (Suc off) b @ 0 # drop (Suc (Suc off)) b) = take off buf"
      using 3 assms(1) by (simp add: b_def min_def)
    moreover have "drop (off + dstlen) (take (Suc off) b @ 0 # drop (Suc (Suc off)) b) =
        drop (off + dstlen) buf"
      using 3(2) assms(1) le_Suc_ex [OF 3(2)] by (auto simp: b_def min_def add.commute)
    ultimately show ?thesis using 3 assms(1) w u val by (simp add: ll2string_def Let_def b_def)
  qed
qed

section \<open>Properties\<close>

text \<open>(C36) \<open>string2ll\<close> accepts exactly the canonical decimal notation of the 64-bit integers, and
  returns the integer denoted: no spaces, no leading zeroes, no plus sign, no minus zero, no
  overflow. This is the strictness its comment promises.\<close>

theorem string2ll_iff: "string2ll s = Some v \<longleftrightarrow> int64 v \<and> s = show_int v"
  using string2ll_sound string2ll_show_int by blast

text \<open>(C37) \<open>ll2string\<close> never writes outside the \<open>dstlen\<close> bytes it is given. When they hold the decimal
  notation and a terminating NUL it writes exactly these and returns the length; otherwise it
  returns 0.\<close>

theorem ll2string_correct:
  assumes "int64 v" "off + dstlen \<le> length buf"
  shows "\<exists>b' r. ll2string buf off dstlen v = Some (b', r) \<and> length b' = length buf \<and>
           take off b' = take off buf \<and> drop (off + dstlen) b' = drop (off + dstlen) buf \<and>
           (if length (show_int v) < dstlen
            then r = length (show_int v) \<and> take (r + 1) (drop off b') = show_int v @ [0]
            else r = 0)"
proof (cases "length (show_int v) < dstlen")
  case True
  obtain as mid bs where b: "buf = as @ mid @ bs" "length as = off" "length mid = Suc (length (show_int v))"
    using split_at [of off "Suc (length (show_int v))" buf] True assms(2) by (metis Suc_leI add_le_mono order_refl order_trans)
  have "ll2string buf off dstlen v = Some (as @ show_int v @ 0 # bs, length (show_int v))"
    using ll2string_eq [OF assms(1) True b(3), of as bs] b by simp
  then show ?thesis using True b by (simp add: drop_Cons')
next
  case False
  then show ?thesis using ll2string_short [OF assms(2) _ assms(1)] by auto
qed

theorem ll2string_correct_witness:
  "\<exists>b' r. ll2string (replicate 21 7) 0 21 (-9223372036854775808) = Some (b', r) \<and> r = 20"
proof -
  have h: "int64 (-9223372036854775808)" by (simp add: int64_def)
  have "length (show_int (-9223372036854775808)) = 20"
    using length_show_nat_eq [of 18 9223372036854775808] by (simp add: show_int_def)
  then show ?thesis using ll2string_correct [OF h, of 0 21 "replicate 21 7"] by auto
qed

text \<open>Printing and parsing are inverse: what \<open>ll2string\<close> writes into a buffer of 21 bytes (the
  size \<^verbatim>\<open>LONG_STR_SIZE\<close> and \<^verbatim>\<open>LP_INTBUF_SIZE\<close> reserve), \<open>string2ll\<close> reads back as the same integer,
  for every 64-bit integer.\<close>

lemma ll2string_string2ll:
  assumes "int64 v" "length buf = 21"
  shows "\<exists>b' n. ll2string buf 0 21 v = Some (b', n) \<and> 0 < n \<and> n \<le> 20 \<and> string2ll (take n b') = Some v"
proof -
  have len: "length (show_int v) < 21" using length_show_int [OF assms(1)] by simp
  obtain as mid bs where b: "buf = as @ mid @ bs" "length as = 0" "length mid = Suc (length (show_int v))"
    using split_at [of 0 "Suc (length (show_int v))" buf] len assms(2) by auto
  then have "ll2string buf 0 21 v = Some (show_int v @ 0 # bs, length (show_int v))"
    using ll2string_eq [OF assms(1) len b(3), of "[]" bs] by simp
  then show ?thesis using len string2ll_show_int [OF assms(1)] by auto
qed

end
