(* ===== verification/Listpack_Codec.thy ===== *)
theory Listpack_Codec
  imports Util_Numbers
begin

text \<open>
  The entry encoding of \<^verbatim>\<open>src/listpack.c\<close>: integer and string encodings, the reverse-encoded length that
  closes each entry, the computation of entry sizes and the decoding of entries. A listpack is a
  buffer of bytes and a pointer into it an offset.

  The lemmas are round trips: decoding what the encoder wrote returns the element, for every 64-bit
  integer and for every string, whichever of the nine encodings is chosen; the entry size computed
  from the first bytes of an encoding is its length; the reverse length decodes to what was encoded.
\<close>

section \<open>Encoding bytes\<close>

definition LP_ENCODING_IS_7BIT_UINT :: "byte \<Rightarrow> bool" where
  "LP_ENCODING_IS_7BIT_UINT b \<longleftrightarrow> b AND 0x80 = 0"

definition LP_ENCODING_IS_6BIT_STR :: "byte \<Rightarrow> bool" where
  "LP_ENCODING_IS_6BIT_STR b \<longleftrightarrow> b AND 0xC0 = 0x80"

definition LP_ENCODING_IS_13BIT_INT :: "byte \<Rightarrow> bool" where
  "LP_ENCODING_IS_13BIT_INT b \<longleftrightarrow> b AND 0xE0 = 0xC0"

definition LP_ENCODING_IS_12BIT_STR :: "byte \<Rightarrow> bool" where
  "LP_ENCODING_IS_12BIT_STR b \<longleftrightarrow> b AND 0xF0 = 0xE0"

definition LP_ENCODING_IS_16BIT_INT :: "byte \<Rightarrow> bool" where
  "LP_ENCODING_IS_16BIT_INT b \<longleftrightarrow> b AND 0xFF = 0xF1"

definition LP_ENCODING_IS_24BIT_INT :: "byte \<Rightarrow> bool" where
  "LP_ENCODING_IS_24BIT_INT b \<longleftrightarrow> b AND 0xFF = 0xF2"

definition LP_ENCODING_IS_32BIT_INT :: "byte \<Rightarrow> bool" where
  "LP_ENCODING_IS_32BIT_INT b \<longleftrightarrow> b AND 0xFF = 0xF3"

definition LP_ENCODING_IS_64BIT_INT :: "byte \<Rightarrow> bool" where
  "LP_ENCODING_IS_64BIT_INT b \<longleftrightarrow> b AND 0xFF = 0xF4"

definition LP_ENCODING_IS_32BIT_STR :: "byte \<Rightarrow> bool" where
  "LP_ENCODING_IS_32BIT_STR b \<longleftrightarrow> b AND 0xFF = 0xF0"

abbreviation (input) LP_EOF :: byte where "LP_EOF \<equiv> 0xFF"
abbreviation (input) LP_HDR_SIZE :: nat where "LP_HDR_SIZE \<equiv> 6"
abbreviation (input) LP_HDR_NUMELE_UNKNOWN :: nat where "LP_HDR_NUMELE_UNKNOWN \<equiv> 65535"
abbreviation (input) LP_INTBUF_SIZE :: nat where "LP_INTBUF_SIZE \<equiv> 21"

text \<open>The string lengths stored in the first bytes of an entry.\<close>

definition LP_ENCODING_6BIT_STR_LEN :: "bytes \<Rightarrow> nat \<Rightarrow> nat option" where
  "LP_ENCODING_6BIT_STR_LEN lp p = do { b0 \<leftarrow> rd lp p; Some (unat (b0 AND 0x3F)) }"

definition LP_ENCODING_12BIT_STR_LEN :: "bytes \<Rightarrow> nat \<Rightarrow> nat option" where
  "LP_ENCODING_12BIT_STR_LEN lp p =
     do { b0 \<leftarrow> rd lp p; b1 \<leftarrow> rd lp (p + 1); Some (unat b1 OR push_bit 8 (unat (b0 AND 0xF))) }"

definition LP_ENCODING_32BIT_STR_LEN :: "bytes \<Rightarrow> nat \<Rightarrow> nat option" where
  "LP_ENCODING_32BIT_STR_LEN lp p = do { bs \<leftarrow> mem_read lp (p + 1) 4; Some (le_val bs) }"

section \<open>Encoding\<close>

text \<open>\<open>lpStringToInt64\<close> is the code of \<open>string2ll\<close> with the integer types spelled \<^verbatim>\<open>int64_t\<close>.\<close>

fun lpStringToInt64_loop :: "nat \<Rightarrow> bytes \<Rightarrow> (nat \<times> bytes) option" where
  "lpStringToInt64_loop v [] = Some (v, [])"
| "lpStringToInt64_loop v (c # cs) =
     (if char_in 48 57 c then
        (if v > UINT64_MAX div 10 then None
         else if v * 10 > UINT64_MAX - (unat c - 48) then None
         else lpStringToInt64_loop (v * 10 + (unat c - 48)) cs)
      else Some (v, c # cs))"

definition lpStringToInt64 :: "bytes \<Rightarrow> int option" where
  "lpStringToInt64 s =
     (if length s = 0 \<or> length s \<ge> 21 then None
      else if length s = 1 \<and> hd s = 48 then Some 0
      else
        (let negative = (hd s = 45); p = (if negative then tl s else s) in
         if p = [] then None
         else if char_in 49 57 (hd p) then
           (case lpStringToInt64_loop (unat (hd p) - 48) (tl p) of
              None \<Rightarrow> None
            | Some (v, rest) \<Rightarrow>
                if rest \<noteq> [] then None
                else if negative then
                  (if v > nat (- (INT64_MIN + 1)) + 1 then None else Some (- int v))
                else if v > nat INT64_MAX then None else Some (int v))
         else None))"

text \<open>The bytes of \<^verbatim>\<open>intenc\<close> and the value of \<^verbatim>\<open>*enclen\<close>.\<close>

definition lpEncodeIntegerGetType :: "int \<Rightarrow> bytes \<times> nat" where
  "lpEncodeIntegerGetType v =
     (if 0 \<le> v \<and> v \<le> 127 then ([of_int v], 1)
      else if -4096 \<le> v \<and> v \<le> 4095 then
        (let v = (if v < 0 then 2 ^ 13 + v else v) in
         ([of_int (v div 2 ^ 8) OR 0xC0, of_int v], 2))
      else if -32768 \<le> v \<and> v \<le> 32767 then
        (let v = (if v < 0 then 2 ^ 16 + v else v) in
         ([0xF1, of_int v, of_int (v div 2 ^ 8)], 3))
      else if -8388608 \<le> v \<and> v \<le> 8388607 then
        (let v = (if v < 0 then 2 ^ 24 + v else v) in
         ([0xF2, of_int v, of_int (v div 2 ^ 8), of_int (v div 2 ^ 16)], 4))
      else if -2147483648 \<le> v \<and> v \<le> 2147483647 then
        (let v = (if v < 0 then 2 ^ 32 + v else v) in
         ([0xF3, of_int v, of_int (v div 2 ^ 8), of_int (v div 2 ^ 16), of_int (v div 2 ^ 24)], 5))
      else
        (let uv = v mod 2 ^ 64 in
         ([0xF4, of_int uv, of_int (uv div 2 ^ 8), of_int (uv div 2 ^ 16), of_int (uv div 2 ^ 24),
           of_int (uv div 2 ^ 32), of_int (uv div 2 ^ 40), of_int (uv div 2 ^ 48), of_int (uv div 2 ^ 56)], 9)))"

datatype lp_enctype = LP_ENCODING_INT | LP_ENCODING_STRING

definition lpEncodeGetType :: "bytes \<Rightarrow> lp_enctype \<times> bytes \<times> nat" where
  "lpEncodeGetType ele =
     (case lpStringToInt64 ele of
        Some v \<Rightarrow> (let (intenc, enclen) = lpEncodeIntegerGetType v in (LP_ENCODING_INT, intenc, enclen))
      | None \<Rightarrow>
          (LP_ENCODING_STRING, [],
           if length ele < 64 then 1 + length ele
           else if length ele < 4096 then 2 + length ele
           else 5 + length ele))"

definition lpEncodeBacklen :: "nat \<Rightarrow> bytes" where
  "lpEncodeBacklen l =
     (if l \<le> 127 then [of_nat l]
      else if l < 16383 then
        [of_nat (l div 2 ^ 7), (of_nat l AND 127) OR 128]
      else if l < 2097151 then
        [of_nat (l div 2 ^ 14), (of_nat (l div 2 ^ 7) AND 127) OR 128, (of_nat l AND 127) OR 128]
      else if l < 268435455 then
        [of_nat (l div 2 ^ 21), (of_nat (l div 2 ^ 14) AND 127) OR 128,
         (of_nat (l div 2 ^ 7) AND 127) OR 128, (of_nat l AND 127) OR 128]
      else
        [of_nat (l div 2 ^ 28), (of_nat (l div 2 ^ 21) AND 127) OR 128, (of_nat (l div 2 ^ 14) AND 127) OR 128,
         (of_nat (l div 2 ^ 7) AND 127) OR 128, (of_nat l AND 127) OR 128])"

definition lpEncodeBacklenBytes :: "nat \<Rightarrow> nat" where
  "lpEncodeBacklenBytes l =
     (if l \<le> 127 then 1
      else if l < 16383 then 2
      else if l < 2097151 then 3
      else if l < 268435455 then 4
      else 5)"

text \<open>The loop of \<open>lpDecodeBacklen\<close>, going down from \<open>p\<close>; reading below the buffer is an error.\<close>

function lpDecodeBacklen_loop :: "bytes \<Rightarrow> nat \<Rightarrow> nat \<Rightarrow> nat \<Rightarrow> nat option" where
  "lpDecodeBacklen_loop lp p val shift =
     do { b \<leftarrow> rd lp p;
          let val = val OR push_bit shift (unat (b AND 127));
          if b AND 128 = 0 then Some val
          else if shift + 7 > 28 then Some UINT64_MAX
          else if p = 0 then None
          else lpDecodeBacklen_loop lp (p - 1) val (shift + 7) }"
  by pat_completeness auto
termination by (relation "measure (\<lambda>(lp, p, val, shift). 28 - shift)") auto

declare lpDecodeBacklen_loop.simps [simp del]

definition lpDecodeBacklen :: "bytes \<Rightarrow> nat \<Rightarrow> nat option" where
  "lpDecodeBacklen lp p = lpDecodeBacklen_loop lp p 0 0"

text \<open>The bytes \<open>lpEncodeString\<close> writes at \<^verbatim>\<open>buf\<close>.\<close>

definition lpEncodeString :: "bytes \<Rightarrow> bytes" where
  "lpEncodeString s =
     (let len = length s in
      if len < 64 then [of_nat len OR 0x80] @ s
      else if len < 4096 then [of_nat (len div 2 ^ 8) OR 0xE0, of_nat len] @ s
      else [0xF0, of_nat len, of_nat (len div 2 ^ 8), of_nat (len div 2 ^ 16), of_nat (len div 2 ^ 24)] @ s)"

section \<open>Sizes\<close>

definition lpCurrentEncodedSizeUnsafe :: "bytes \<Rightarrow> nat \<Rightarrow> nat option" where
  "lpCurrentEncodedSizeUnsafe lp p =
     do { b \<leftarrow> rd lp p;
          if LP_ENCODING_IS_7BIT_UINT b then Some 1
          else if LP_ENCODING_IS_6BIT_STR b then map_option (\<lambda>n. 1 + n) (LP_ENCODING_6BIT_STR_LEN lp p)
          else if LP_ENCODING_IS_13BIT_INT b then Some 2
          else if LP_ENCODING_IS_16BIT_INT b then Some 3
          else if LP_ENCODING_IS_24BIT_INT b then Some 4
          else if LP_ENCODING_IS_32BIT_INT b then Some 5
          else if LP_ENCODING_IS_64BIT_INT b then Some 9
          else if LP_ENCODING_IS_12BIT_STR b then map_option (\<lambda>n. 2 + n) (LP_ENCODING_12BIT_STR_LEN lp p)
          else if LP_ENCODING_IS_32BIT_STR b then
            map_option (\<lambda>n. (5 + n) mod 2 ^ 32) (LP_ENCODING_32BIT_STR_LEN lp p)
          else if b = LP_EOF then Some 1
          else Some 0 }"

definition lpCurrentEncodedSizeBytes :: "byte \<Rightarrow> nat" where
  "lpCurrentEncodedSizeBytes encoding =
     (if LP_ENCODING_IS_7BIT_UINT encoding then 1
      else if LP_ENCODING_IS_6BIT_STR encoding then 1
      else if LP_ENCODING_IS_13BIT_INT encoding then 1
      else if LP_ENCODING_IS_16BIT_INT encoding then 1
      else if LP_ENCODING_IS_24BIT_INT encoding then 1
      else if LP_ENCODING_IS_32BIT_INT encoding then 1
      else if LP_ENCODING_IS_64BIT_INT encoding then 1
      else if LP_ENCODING_IS_12BIT_STR encoding then 2
      else if LP_ENCODING_IS_32BIT_STR encoding then 5
      else if encoding = LP_EOF then 1
      else 0)"

definition lpSkip :: "bytes \<Rightarrow> nat \<Rightarrow> nat option" where
  "lpSkip lp p =
     do { entrylen \<leftarrow> lpCurrentEncodedSizeUnsafe lp p;
          Some (p + (entrylen + lpEncodeBacklenBytes entrylen)) }"

definition lpEntrySizeInteger :: "int \<Rightarrow> nat" where
  "lpEntrySizeInteger lval =
     (let enclen = snd (lpEncodeIntegerGetType lval); backlen = lpEncodeBacklenBytes enclen
      in enclen + backlen)"

definition lpEstimateBytesRepeatedInteger :: "int \<Rightarrow> nat \<Rightarrow> nat" where
  "lpEstimateBytesRepeatedInteger lval rep = LP_HDR_SIZE + lpEntrySizeInteger lval * rep + 1"

section \<open>Decoding\<close>

text \<open>
  What \<open>lpGet\<close> returns: a pointer into the listpack with \<^verbatim>\<open>*count\<close> the length of the string there; the
  pointer \<^verbatim>\<open>intbuf\<close> (its new contents) with \<^verbatim>\<open>*count\<close> the length of the decimal notation; or NULL with
  \<^verbatim>\<open>*count\<close> the integer.
\<close>

datatype lp_ret = InLp nat nat | InBuf bytes nat | IsInt int

text \<open>The conversion at the end of \<open>lpGetWithBuf\<close> and \<open>lpGetWithSize\<close>; \<open>intbuf = None\<close> is the NULL pointer.\<close>

definition lp_int_ret :: "nat \<Rightarrow> nat \<Rightarrow> nat \<Rightarrow> bytes option \<Rightarrow> lp_ret option" where
  "lp_int_ret uval negstart negmax intbuf =
     (let val = (if uval \<ge> negstart then - int (negmax - uval) - 1 else int uval) in
      case intbuf of
        None \<Rightarrow> Some (IsInt val)
      | Some buf \<Rightarrow> do { (b, n) \<leftarrow> ll2string buf 0 LP_INTBUF_SIZE val; Some (InBuf b n) })"

definition lpGetWithBuf :: "bytes \<Rightarrow> nat \<Rightarrow> bytes option \<Rightarrow> lp_ret option" where
  "lpGetWithBuf lp p intbuf =
     do { e \<leftarrow> rd lp p;
          if LP_ENCODING_IS_6BIT_STR e then
            do { n \<leftarrow> LP_ENCODING_6BIT_STR_LEN lp p; Some (InLp (p + 1) n) }
          else if LP_ENCODING_IS_12BIT_STR e then
            do { n \<leftarrow> LP_ENCODING_12BIT_STR_LEN lp p; Some (InLp (p + 2) n) }
          else if LP_ENCODING_IS_32BIT_STR e then
            do { n \<leftarrow> LP_ENCODING_32BIT_STR_LEN lp p; Some (InLp (p + 5) n) }
          else do {
            (uval, negstart, negmax) \<leftarrow>
              (if LP_ENCODING_IS_7BIT_UINT e then Some (unat (e AND 0x7F), UINT64_MAX, 0)
               else if LP_ENCODING_IS_13BIT_INT e then
                 do { b1 \<leftarrow> rd lp (p + 1); Some (unat b1 OR push_bit 8 (unat (e AND 0x1F)), 2 ^ 12, 8191) }
               else if LP_ENCODING_IS_16BIT_INT e then
                 do { bs \<leftarrow> mem_read lp (p + 1) 2; Some (le_val bs, 2 ^ 15, 65535) }
               else if LP_ENCODING_IS_24BIT_INT e then
                 do { bs \<leftarrow> mem_read lp (p + 1) 3; Some (le_val bs, 2 ^ 23, UINT32_MAX div 2 ^ 8) }
               else if LP_ENCODING_IS_32BIT_INT e then
                 do { bs \<leftarrow> mem_read lp (p + 1) 4; Some (le_val bs, 2 ^ 31, UINT32_MAX) }
               else if LP_ENCODING_IS_64BIT_INT e then
                 do { bs \<leftarrow> mem_read lp (p + 1) 8; Some (le_val bs, 2 ^ 63, UINT64_MAX) }
               else Some (12345678900000000 + unat e, UINT64_MAX, 0));
            lp_int_ret uval negstart negmax intbuf } }"

definition lpGet :: "bytes \<Rightarrow> nat \<Rightarrow> bytes option \<Rightarrow> lp_ret option" where
  "lpGet lp p intbuf = lpGetWithBuf lp p intbuf"

text \<open>The same with \<^verbatim>\<open>*entry_size\<close>, which the last branch leaves unset.\<close>

definition lpGetWithSize :: "bytes \<Rightarrow> nat \<Rightarrow> bytes option \<Rightarrow> (lp_ret \<times> nat option) option" where
  "lpGetWithSize lp p intbuf =
     do { e \<leftarrow> rd lp p;
          if LP_ENCODING_IS_7BIT_UINT e then
            do { r \<leftarrow> lp_int_ret (unat (e AND 0x7F)) UINT64_MAX 0 intbuf; Some (r, Some 2) }
          else if LP_ENCODING_IS_6BIT_STR e then
            do { n \<leftarrow> LP_ENCODING_6BIT_STR_LEN lp p;
                 Some (InLp (p + 1) n, Some (1 + n + lpEncodeBacklenBytes (n + 1))) }
          else if LP_ENCODING_IS_13BIT_INT e then
            do { b1 \<leftarrow> rd lp (p + 1);
                 r \<leftarrow> lp_int_ret (unat b1 OR push_bit 8 (unat (e AND 0x1F))) (2 ^ 12) 8191 intbuf;
                 Some (r, Some 3) }
          else if LP_ENCODING_IS_16BIT_INT e then
            do { bs \<leftarrow> mem_read lp (p + 1) 2;
                 r \<leftarrow> lp_int_ret (le_val bs) (2 ^ 15) 65535 intbuf; Some (r, Some 4) }
          else if LP_ENCODING_IS_24BIT_INT e then
            do { bs \<leftarrow> mem_read lp (p + 1) 3;
                 r \<leftarrow> lp_int_ret (le_val bs) (2 ^ 23) (UINT32_MAX div 2 ^ 8) intbuf; Some (r, Some 5) }
          else if LP_ENCODING_IS_32BIT_INT e then
            do { bs \<leftarrow> mem_read lp (p + 1) 4;
                 r \<leftarrow> lp_int_ret (le_val bs) (2 ^ 31) UINT32_MAX intbuf; Some (r, Some 6) }
          else if LP_ENCODING_IS_64BIT_INT e then
            do { bs \<leftarrow> mem_read lp (p + 1) 8;
                 r \<leftarrow> lp_int_ret (le_val bs) (2 ^ 63) UINT64_MAX intbuf; Some (r, Some 10) }
          else if LP_ENCODING_IS_12BIT_STR e then
            do { n \<leftarrow> LP_ENCODING_12BIT_STR_LEN lp p;
                 Some (InLp (p + 2) n, Some (2 + n + lpEncodeBacklenBytes (n + 2))) }
          else if LP_ENCODING_IS_32BIT_STR e then
            do { n \<leftarrow> LP_ENCODING_32BIT_STR_LEN lp p;
                 Some (InLp (p + 5) n, Some (5 + n + lpEncodeBacklenBytes (n + 5))) }
          else do { r \<leftarrow> lp_int_ret (12345678900000000 + unat e) UINT64_MAX 0 intbuf; Some (r, None) } }"

section \<open>Ranges of the encoding byte\<close>

named_theorems lp_enc \<open>the encoding tests as ranges of the first byte\<close>

lemma and_FF [simp]: "(b :: byte) AND 0xFF = b"
  by (rule bit_word_eqI) (auto simp: bit_simps less_Suc_eq numeral_eq_Suc)

lemma LP_7BIT [lp_enc]: "LP_ENCODING_IS_7BIT_UINT b \<longleftrightarrow> unat b < 128"
  using unat_and_hi [of b 7] div_eq_range [of 128 "unat b" 0]
  by (simp add: LP_ENCODING_IS_7BIT_UINT_def hi_masks byte_eq_iff del: hi_masks(1) [symmetric])

lemma LP_6BIT [lp_enc]: "LP_ENCODING_IS_6BIT_STR b \<longleftrightarrow> 128 \<le> unat b \<and> unat b < 192"
proof -
  have "LP_ENCODING_IS_6BIT_STR b \<longleftrightarrow> unat (b AND NOT (mask 6)) = 2 * 64"
    unfolding LP_ENCODING_IS_6BIT_STR_def hi_masks(2) [symmetric] by (simp add: byte_eq_iff)
  then show ?thesis using div_eq_range [of 64 "unat b" 2] by (simp add: unat_and_hi)
qed

lemma LP_13BIT [lp_enc]: "LP_ENCODING_IS_13BIT_INT b \<longleftrightarrow> 192 \<le> unat b \<and> unat b < 224"
proof -
  have "LP_ENCODING_IS_13BIT_INT b \<longleftrightarrow> unat (b AND NOT (mask 5)) = 6 * 32"
    unfolding LP_ENCODING_IS_13BIT_INT_def hi_masks(3) [symmetric] by (simp add: byte_eq_iff)
  then show ?thesis using div_eq_range [of 32 "unat b" 6] by (simp add: unat_and_hi)
qed

lemma LP_12BIT [lp_enc]: "LP_ENCODING_IS_12BIT_STR b \<longleftrightarrow> 224 \<le> unat b \<and> unat b < 240"
proof -
  have "LP_ENCODING_IS_12BIT_STR b \<longleftrightarrow> unat (b AND NOT (mask 4)) = 14 * 16"
    unfolding LP_ENCODING_IS_12BIT_STR_def hi_masks(4) [symmetric] by (simp add: byte_eq_iff)
  then show ?thesis using div_eq_range [of 16 "unat b" 14] by (simp add: unat_and_hi)
qed

lemma LP_exact [lp_enc]:
  "LP_ENCODING_IS_16BIT_INT b \<longleftrightarrow> unat b = 241" "LP_ENCODING_IS_24BIT_INT b \<longleftrightarrow> unat b = 242"
  "LP_ENCODING_IS_32BIT_INT b \<longleftrightarrow> unat b = 243" "LP_ENCODING_IS_64BIT_INT b \<longleftrightarrow> unat b = 244"
  "LP_ENCODING_IS_32BIT_STR b \<longleftrightarrow> unat b = 240" "b = LP_EOF \<longleftrightarrow> unat b = 255"
  by (simp_all add: LP_ENCODING_IS_16BIT_INT_def LP_ENCODING_IS_24BIT_INT_def
      LP_ENCODING_IS_32BIT_INT_def LP_ENCODING_IS_64BIT_INT_def LP_ENCODING_IS_32BIT_STR_def
      byte_eq_iff)

lemma and_lo:
  "unat ((b :: byte) AND 0x7F) = unat b mod 128" "unat (b AND 0x3F) = unat b mod 64"
  "unat (b AND 0x1F) = unat b mod 32" "unat (b AND 0xF) = unat b mod 16"
  using unat_and_mask [of b 7] unat_and_mask [of b 6] unat_and_mask [of b 5] unat_and_mask [of b 4]
  by (simp_all add: mask_eq_exp_minus_1)

section \<open>The reverse-encoded length\<close>

lemma length_lpEncodeBacklen [simp]: "length (lpEncodeBacklen l) = lpEncodeBacklenBytes l"
  by (simp add: lpEncodeBacklen_def lpEncodeBacklenBytes_def)

lemma lpEncodeBacklenBytes_range: "1 \<le> lpEncodeBacklenBytes l" "lpEncodeBacklenBytes l \<le> 5"
  by (simp_all add: lpEncodeBacklenBytes_def)

lemma unat_backlen_byte:
  "unat (((of_nat x :: byte) AND 127) OR 128) = x mod 128 + 128"
proof -
  have "unat ((of_nat x :: byte) AND 127) = x mod 128"
    using and_lo(1) [of "of_nat x"] mod_mod_cancel [of 128 256 x] by simp
  then show ?thesis
    using unat_or_add [of "(of_nat x :: byte) AND 127" 7 128] by simp
qed

lemma backlen_cont: "b AND 128 = (0 :: byte) \<longleftrightarrow> unat b < 128"
  using LP_7BIT [of b] by (simp add: LP_ENCODING_IS_7BIT_UINT_def)

lemma backlen_low: "unat ((((of_nat x :: byte) AND 127) OR 128) AND 127) = x mod 128"
  using and_lo(1) [of "((of_nat x :: byte) AND 127) OR 128"] by (simp only: unat_backlen_byte) simp

text \<open>One round of the loop on a continuation byte and on the last one.\<close>

lemma lpDecodeBacklen_more:
  assumes "val < 2 ^ shift" "shift + 7 \<le> 28" "as \<noteq> []" "p = length as"
  shows "lpDecodeBacklen_loop (as @ ((of_nat x AND 127) OR 128) # bs) p val shift =
           lpDecodeBacklen_loop (as @ ((of_nat x AND 127) OR 128) # bs) (p - 1)
             (val + 2 ^ shift * (x mod 128)) (shift + 7)"
  using assms by (subst lpDecodeBacklen_loop.simps)
    (simp add: mem_simps backlen_cont unat_backlen_byte backlen_low shift_or_add)

lemma lpDecodeBacklen_last:
  assumes "val < 2 ^ shift" "x < 128" "p = length as"
  shows "lpDecodeBacklen_loop (as @ of_nat x # bs) p val shift = Some (val + 2 ^ shift * x)"
proof -
  have "unat ((of_nat x :: byte) AND 127) = x" using and_lo(1) [of "of_nat x"] assms by simp
  then show ?thesis
    using assms by (subst lpDecodeBacklen_loop.simps) (simp add: mem_simps backlen_cont shift_or_add)
qed

lemma base128:
  fixes l :: nat
  shows "l mod 128 + 128 * (l div 128) = l"
    "l mod 128 + 128 * (l div 128 mod 128) + 16384 * (l div 16384) = l"
    "l mod 128 + 128 * (l div 128 mod 128) + 16384 * (l div 16384 mod 128) + 2097152 * (l div 2097152) = l"
    "l mod 128 + 128 * (l div 128 mod 128) + 16384 * (l div 16384 mod 128) +
     2097152 * (l div 2097152 mod 128) + 268435456 * (l div 268435456) = l"
proof -
  have d: "l div 16384 = l div 128 div 128" "l div 2097152 = l div 128 div 128 div 128"
    "l div 268435456 = l div 128 div 128 div 128 div 128"
    by (simp_all flip: div_mult2_eq)
  define a where "a = l div 128"
  define b where "b = a div 128"
  define c where "c = b div 128"
  define e where "e = c div 128"
  have "l = 128 * a + l mod 128" "a = 128 * b + a mod 128" "b = 128 * c + b mod 128" "c = 128 * e + c mod 128"
    by (simp_all add: a_def b_def c_def e_def)
  then show "l mod 128 + 128 * (l div 128) = l"
    "l mod 128 + 128 * (l div 128 mod 128) + 16384 * (l div 16384) = l"
    "l mod 128 + 128 * (l div 128 mod 128) + 16384 * (l div 16384 mod 128) + 2097152 * (l div 2097152) = l"
    "l mod 128 + 128 * (l div 128 mod 128) + 16384 * (l div 16384 mod 128) +
     2097152 * (l div 2097152 mod 128) + 268435456 * (l div 268435456) = l"
    unfolding d a_def [symmetric] b_def [symmetric] c_def [symmetric] e_def [symmetric] by linarith+
qed

text \<open>A whole field of \<open>length xs + 1\<close> bytes: the least significant group is the last byte.\<close>

fun groups_val :: "nat list \<Rightarrow> nat \<Rightarrow> nat" where
  "groups_val [] x = x"
| "groups_val (y # ys) x = y mod 128 + 128 * groups_val ys x"

abbreviation (input) "cont_byte x \<equiv> ((of_nat x :: byte) AND 127) OR 128"

lemma lpDecodeBacklen_groups:
  assumes "val < 2 ^ shift" "shift + 7 * length xs \<le> 28" "x < 128" "p = length as + length xs"
  shows "lpDecodeBacklen_loop (as @ of_nat x # map (\<lambda>y. cont_byte y) (rev xs) @ bs) p val shift =
           Some (val + 2 ^ shift * groups_val xs x)"
  using assms
proof (induction xs arbitrary: val shift p bs)
  case Nil
  then show ?case using lpDecodeBacklen_last by simp
next
  case (Cons y ys)
  let ?pre = "as @ of_nat x # map (\<lambda>y. cont_byte y) (rev ys)"
  have "val + 2 ^ shift * (y mod 128) < 2 ^ shift + 2 ^ shift * (y mod 128)" using Cons.prems by simp
  also have "\<dots> = 2 ^ shift * (1 + y mod 128)" by (simp add: algebra_simps)
  also have "\<dots> \<le> 2 ^ shift * 128" by (intro mult_left_mono) (auto simp: Suc_leI)
  finally have lt: "val + 2 ^ shift * (y mod 128) < 2 ^ (shift + 7)" by (simp add: power_add)
  have "lpDecodeBacklen_loop (?pre @ cont_byte y # bs) p val shift =
          lpDecodeBacklen_loop (?pre @ cont_byte y # bs) (p - 1) (val + 2 ^ shift * (y mod 128)) (shift + 7)"
    using Cons.prems by (intro lpDecodeBacklen_more) auto
  also have "\<dots> = Some (val + 2 ^ shift * (y mod 128) + 2 ^ (shift + 7) * groups_val ys x)"
    using Cons.IH [of "val + 2 ^ shift * (y mod 128)" "shift + 7" "p - 1" "cont_byte y # bs"] lt Cons.prems
    by simp
  finally show ?case by (simp add: power_add algebra_simps)
qed

lemma lpDecodeBacklen_eq:
  assumes "l < 2 ^ 35" "p = length as + lpEncodeBacklenBytes l - 1"
  shows "lpDecodeBacklen (as @ lpEncodeBacklen l @ bs) p = Some l"
proof -
  have "\<exists>xs x. x < 128 \<and> length xs = lpEncodeBacklenBytes l - 1 \<and> groups_val xs x = l \<and>
          lpEncodeBacklen l = of_nat x # map (\<lambda>y. cont_byte y) (rev xs)"
  proof -
    consider "l \<le> 127" | "127 < l" "l < 16383" | "16383 \<le> l" "l < 2097151"
      | "2097151 \<le> l" "l < 268435455" | "268435455 \<le> l" by linarith
    then show ?thesis
    proof cases
      case 1
      show ?thesis by (rule exI [of _ "[]"], rule exI [of _ l])
          (use 1 in \<open>simp add: lpEncodeBacklen_def lpEncodeBacklenBytes_def\<close>)
    next
      case 2
      show ?thesis by (rule exI [of _ "[l]"], rule exI [of _ "l div 128"])
          (use 2 base128(1) [of l] in \<open>simp add: lpEncodeBacklen_def lpEncodeBacklenBytes_def\<close>)
    next
      case 3
      show ?thesis by (rule exI [of _ "[l, l div 128]"], rule exI [of _ "l div 16384"])
          (use 3 base128(2) [of l] in \<open>simp add: lpEncodeBacklen_def lpEncodeBacklenBytes_def\<close>)
    next
      case 4
      show ?thesis by (rule exI [of _ "[l, l div 128, l div 16384]"], rule exI [of _ "l div 2097152"])
          (use 4 base128(3) [of l] in \<open>simp add: lpEncodeBacklen_def lpEncodeBacklenBytes_def\<close>)
    next
      case 5
      show ?thesis
        by (rule exI [of _ "[l, l div 128, l div 16384, l div 2097152]"], rule exI [of _ "l div 268435456"])
          (use 5 assms(1) base128(4) [of l] in \<open>simp add: lpEncodeBacklen_def lpEncodeBacklenBytes_def\<close>)
    qed
  qed
  then obtain xs x where x: "x < 128" "length xs = lpEncodeBacklenBytes l - 1" "groups_val xs x = l"
    "lpEncodeBacklen l = of_nat x # map (\<lambda>y. cont_byte y) (rev xs)" by blast
  have "7 * length xs \<le> 28" using x(2) lpEncodeBacklenBytes_range(2) [of l] by simp
  then show ?thesis
    using lpDecodeBacklen_groups [of 0 0 xs x p as bs] x assms(2) lpEncodeBacklenBytes_range(1) [of l]
    unfolding lpDecodeBacklen_def by simp
qed

section \<open>Reading an entry inside a larger buffer\<close>

lemma rd_mono: "rd c i = Some x \<Longrightarrow> rd (as @ c @ bs) (length as + i) = Some x"
  by (auto simp: rd_def nth_append)

lemma mem_read_mono: "mem_read c i n = Some x \<Longrightarrow> mem_read (as @ c @ bs) (length as + i) n = Some x"
  by (auto simp: mem_read_def split: if_splits)

lemma rd_mono0: "rd c 0 = Some x \<Longrightarrow> rd (as @ c @ bs) (length as) = Some x"
  using rd_mono [of c 0] by simp

lemma str_len_mono:
  "LP_ENCODING_6BIT_STR_LEN c 0 = Some n \<Longrightarrow> LP_ENCODING_6BIT_STR_LEN (as @ c @ bs) (length as) = Some n"
  "LP_ENCODING_12BIT_STR_LEN c 0 = Some n \<Longrightarrow> LP_ENCODING_12BIT_STR_LEN (as @ c @ bs) (length as) = Some n"
  "LP_ENCODING_32BIT_STR_LEN c 0 = Some n \<Longrightarrow> LP_ENCODING_32BIT_STR_LEN (as @ c @ bs) (length as) = Some n"
  by (auto simp: LP_ENCODING_6BIT_STR_LEN_def LP_ENCODING_12BIT_STR_LEN_def LP_ENCODING_32BIT_STR_LEN_def
      split: Option.bind_splits dest!: rd_mono [of c _ _ as bs] mem_read_mono [of c _ _ _ as bs])

lemma lpCurrentEncodedSizeUnsafe_mono:
  assumes "lpCurrentEncodedSizeUnsafe c 0 = Some n"
  shows "lpCurrentEncodedSizeUnsafe (as @ c @ bs) (length as) = Some n"
  using assms unfolding lpCurrentEncodedSizeUnsafe_def
  apply -
  by ((erule ext_bind ext_if ext_map rd_mono0 str_len_mono | assumption)+)

fun shift_ret :: "nat \<Rightarrow> lp_ret \<Rightarrow> lp_ret" where
  "shift_ret k (InLp p n) = InLp (k + p) n"
| "shift_ret k r = r"

lemma shift_lp_int_ret: "lp_int_ret u s m buf = Some r \<Longrightarrow> shift_ret k r = r"
  by (auto simp: lp_int_ret_def Let_def split: option.splits Option.bind_splits)

lemma ext_case_prod:
  assumes "(case x of (a, b, c) \<Rightarrow> f a b c) = Some r" "\<And>a b c. f a b c = Some r \<Longrightarrow> g a b c = Some s"
  shows "(case x of (a, b, c) \<Rightarrow> g a b c) = Some s"
  using assms by (cases x) auto

lemma lpGet_mono_aux:
  "rd c (0 + 1) = Some x \<Longrightarrow> rd (as @ c @ bs) (length as + 1) = Some x"
  "mem_read c (0 + 1) n = Some xs \<Longrightarrow> mem_read (as @ c @ bs) (length as + 1) n = Some xs"
  "Some (InLp (0 + i) n) = Some r \<Longrightarrow> Some (InLp (l + i) n) = Some (shift_ret l r)"
  "lp_int_ret u s m buf = Some r \<Longrightarrow> lp_int_ret u s m buf = Some (shift_ret l r)"
  using rd_mono [of c 1] mem_read_mono [of c 1] shift_lp_int_ret by auto

lemma lpGet_mono:
  assumes "lpGet c 0 buf = Some r"
  shows "lpGet (as @ c @ bs) (length as) buf = Some (shift_ret (length as) r)"
  using assms unfolding lpGet_def lpGetWithBuf_def
  apply -
  by ((erule ext_bind ext_if ext_case_prod rd_mono0 str_len_mono lpGet_mono_aux | assumption)+)

section \<open>Entries\<close>

text \<open>
  What an entry stands for, and when a string of bytes is an entry: its first byte is not the end
  marker and announces exactly its length.
\<close>

datatype elem = EInt int | EStr bytes

definition chunk_ok :: "bytes \<Rightarrow> bool" where
  "chunk_ok c \<longleftrightarrow> c \<noteq> [] \<and> hd c \<noteq> LP_EOF \<and> lpCurrentEncodedSizeUnsafe c 0 = Some (length c)"

definition chunk_val :: "bytes \<Rightarrow> elem" where
  "chunk_val c =
     (case lpGet c 0 None of
        Some (IsInt v) \<Rightarrow> EInt v
      | Some (InLp p n) \<Rightarrow> EStr (take n (drop p c))
      | _ \<Rightarrow> EStr [])"

fun elem_str :: "elem \<Rightarrow> bytes" where
  "elem_str (EInt v) = show_int v"
| "elem_str (EStr s) = s"

text \<open>The entry the encoders write for an element.\<close>

fun enc_elem :: "elem \<Rightarrow> bytes" where
  "enc_elem (EInt v) = fst (lpEncodeIntegerGetType v)"
| "enc_elem (EStr s) = lpEncodeString s"

fun elem_ok :: "elem \<Rightarrow> bool" where
  "elem_ok (EInt v) \<longleftrightarrow> int64 v"
| "elem_ok (EStr s) \<longleftrightarrow> length s < 2 ^ 32 - 5"

lemma le_bytes_numeral:
  "le_bytes 2 u = [of_nat u, of_nat (u div 256)]"
  "le_bytes 3 u = of_nat u # le_bytes 2 (u div 256)" "le_bytes 4 u = of_nat u # le_bytes 3 (u div 256)"
  "le_bytes 5 u = of_nat u # le_bytes 4 (u div 256)" "le_bytes 6 u = of_nat u # le_bytes 5 (u div 256)"
  "le_bytes 7 u = of_nat u # le_bytes 6 (u div 256)" "le_bytes 8 u = of_nat u # le_bytes 7 (u div 256)"
proof -
  have p: "le_bytes n u = of_nat u # le_bytes (n - 1) (u div 256)" if "0 < n" for n u
    using that by (cases n) auto
  show "le_bytes 2 u = [of_nat u, of_nat (u div 256)]" using p [of 2 u] p [of 1 "u div 256"] by simp
  show "le_bytes 3 u = of_nat u # le_bytes 2 (u div 256)" using p [of 3 u] by simp
  show "le_bytes 4 u = of_nat u # le_bytes 3 (u div 256)" using p [of 4 u] by simp
  show "le_bytes 5 u = of_nat u # le_bytes 4 (u div 256)" using p [of 5 u] by simp
  show "le_bytes 6 u = of_nat u # le_bytes 5 (u div 256)" using p [of 6 u] by simp
  show "le_bytes 7 u = of_nat u # le_bytes 6 (u div 256)" using p [of 7 u] by simp
  show "le_bytes 8 u = of_nat u # le_bytes 7 (u div 256)" using p [of 8 u] by simp
qed

lemma le_bytes_int:
  "[of_int (int u), of_int (int u div 2 ^ 8)] = le_bytes 2 u"
  "[of_int (int u), of_int (int u div 2 ^ 8), of_int (int u div 2 ^ 16)] = le_bytes 3 u"
  "[of_int (int u), of_int (int u div 2 ^ 8), of_int (int u div 2 ^ 16), of_int (int u div 2 ^ 24)] = le_bytes 4 u"
  "[of_int (int u), of_int (int u div 2 ^ 8), of_int (int u div 2 ^ 16), of_int (int u div 2 ^ 24),
    of_int (int u div 2 ^ 32), of_int (int u div 2 ^ 40), of_int (int u div 2 ^ 48), of_int (int u div 2 ^ 56)] =
   le_bytes 8 u"
proof -
  have d: "(of_int (int u div numeral k) :: byte) = of_nat (u div numeral k)" for k
    by (metis of_int_of_nat_eq of_nat_div of_nat_numeral)
  show "[of_int (int u), of_int (int u div 2 ^ 8)] = le_bytes 2 u"
    "[of_int (int u), of_int (int u div 2 ^ 8), of_int (int u div 2 ^ 16)] = le_bytes 3 u"
    "[of_int (int u), of_int (int u div 2 ^ 8), of_int (int u div 2 ^ 16), of_int (int u div 2 ^ 24)] = le_bytes 4 u"
    "[of_int (int u), of_int (int u div 2 ^ 8), of_int (int u div 2 ^ 16), of_int (int u div 2 ^ 24),
      of_int (int u div 2 ^ 32), of_int (int u div 2 ^ 40), of_int (int u div 2 ^ 48), of_int (int u div 2 ^ 56)] =
     le_bytes 8 u"
    by (simp_all add: le_bytes_numeral d flip: div_mult2_eq)
qed

section \<open>Integers\<close>

text \<open>The shapes of an integer encoding: one byte, 13 bits, or a tag and a two's complement little-endian field.\<close>

lemma uns_val_enc:
  assumes "- (2 ^ (8 * n - 1)) \<le> v" "v < 2 ^ (8 * n - 1)" "0 < n"
  shows "(if v < 0 then 2 ^ (8 * n) + v else v) = int (uns_val n v)"
proof -
  have two: "(2 :: int) ^ (8 * n) = 2 * 2 ^ (8 * n - 1)"
    using assms(3) by (metis Suc_pred' mult_pos_pos power_Suc zero_less_numeral)
  have pos: "(0 :: int) < 2 ^ (8 * n - 1)" by simp
  have "v mod 2 ^ (8 * n) = (v + 2 ^ (8 * n)) mod 2 ^ (8 * n)" by simp
  then have "v < 0 \<Longrightarrow> v mod 2 ^ (8 * n) = 2 ^ (8 * n) + v"
    using assms(1) two pos mod_pos_pos_trivial [of "v + 2 ^ (8 * n)" "2 ^ (8 * n)"] by linarith
  moreover have "0 \<le> v \<Longrightarrow> v mod 2 ^ (8 * n) = v"
    using assms(2) two pos by (intro mod_pos_pos_trivial) linarith+
  ultimately show ?thesis by (simp add: uns_val_def)
qed

lemma or_tag:
  "unat x < 64 \<Longrightarrow> unat (x OR 0x80 :: byte) = unat x + 128"
  "unat x < 32 \<Longrightarrow> unat (x OR 0xC0 :: byte) = unat x + 192"
  "unat x < 16 \<Longrightarrow> unat (x OR 0xE0 :: byte) = unat x + 224"
  using unat_or_add [of x 6 128] unat_or_add [of x 5 192] unat_or_add [of x 4 224] by simp_all

lemma lpEncodeInteger_cases:
  assumes "int64 v"
  obtains (u7) u where "v = int u" "u < 128" "lpEncodeIntegerGetType v = ([of_nat u], 1)"
  | (i13) u where "u < 8192" "v = (if u < 4096 then int u else int u - 8192)"
      "lpEncodeIntegerGetType v = ([of_nat (u div 256) OR 0xC0, of_nat u], 2)"
  | (i16) "lpEncodeIntegerGetType v = (0xF1 # le_bytes 2 (uns_val 2 v), 3)" "sgn_val 2 (uns_val 2 v) = v"
  | (i24) "lpEncodeIntegerGetType v = (0xF2 # le_bytes 3 (uns_val 3 v), 4)" "sgn_val 3 (uns_val 3 v) = v"
  | (i32) "lpEncodeIntegerGetType v = (0xF3 # le_bytes 4 (uns_val 4 v), 5)" "sgn_val 4 (uns_val 4 v) = v"
  | (i64) "lpEncodeIntegerGetType v = (0xF4 # le_bytes 8 (uns_val 8 v), 9)" "sgn_val 8 (uns_val 8 v) = v"
proof -
  define r1 r2 r3 r4 r5 where r: "r1 \<longleftrightarrow> 0 \<le> v \<and> v \<le> 127" "r2 \<longleftrightarrow> -4096 \<le> v \<and> v \<le> 4095"
    "r3 \<longleftrightarrow> -32768 \<le> v \<and> v \<le> 32767" "r4 \<longleftrightarrow> -8388608 \<le> v \<and> v \<le> 8388607"
    "r5 \<longleftrightarrow> -2147483648 \<le> v \<and> v \<le> 2147483647"
  consider (a) r1 | (b) "\<not> r1" r2 | (c) "\<not> r1" "\<not> r2" r3 | (d) "\<not> r1" "\<not> r2" "\<not> r3" r4
    | (e) "\<not> r1" "\<not> r2" "\<not> r3" "\<not> r4" r5 | (f) "\<not> r1" "\<not> r2" "\<not> r3" "\<not> r4" "\<not> r5" by blast
  then show thesis
  proof cases
    case a
    note a = a [unfolded r]
    then have "lpEncodeIntegerGetType v = ([of_nat (nat v)], 1)" by (simp add: lpEncodeIntegerGetType_def)
    then show thesis using u7 [of "nat v"] a by linarith
  next
    case b
    note b = b [unfolded r]
    define w where "w = (if v < 0 then 2 ^ 13 + v else v)"
    have w: "w = int (nat w)" "nat w < 8192" "v = (if nat w < 4096 then int (nat w) else int (nat w) - 8192)"
      using b by (auto simp: w_def)
    have "lpEncodeIntegerGetType v = ([of_int (w div 2 ^ 8) OR 0xC0, of_int w], 2)"
      using b by (simp add: lpEncodeIntegerGetType_def w_def)
    also have "\<dots> = ([of_nat (nat w div 256) OR 0xC0, of_nat (nat w)], 2)"
      using w(1) le_bytes_int(1) [of "nat w"] by (simp add: le_bytes_numeral(1))
    finally show thesis using i13 w by blast
  next
    case c
    note c = c [unfolded r]
    have "(if v < 0 then 2 ^ 16 + v else v) = int (uns_val 2 v)" using uns_val_enc [of 2 v] c by (simp split: if_splits)
    then have "lpEncodeIntegerGetType v = (0xF1 # le_bytes 2 (uns_val 2 v), 3)"
      unfolding lpEncodeIntegerGetType_def Let_def le_bytes_int(1) [symmetric] using c by (simp only:) simp
    moreover have "sgn_val 2 (uns_val 2 v) = v" using c by (intro sgn_uns_val) simp_all
    ultimately show thesis by (rule i16)
  next
    case d
    note d = d [unfolded r]
    have "(if v < 0 then 2 ^ 24 + v else v) = int (uns_val 3 v)" using uns_val_enc [of 3 v] d by (simp split: if_splits)
    then have "lpEncodeIntegerGetType v = (0xF2 # le_bytes 3 (uns_val 3 v), 4)"
      unfolding lpEncodeIntegerGetType_def Let_def le_bytes_int(2) [symmetric] using d by (simp only:) simp
    moreover have "sgn_val 3 (uns_val 3 v) = v" using d by (intro sgn_uns_val) simp_all
    ultimately show thesis by (rule i24)
  next
    case e
    note e = e [unfolded r]
    have "(if v < 0 then 2 ^ 32 + v else v) = int (uns_val 4 v)" using uns_val_enc [of 4 v] e by (simp split: if_splits)
    then have "lpEncodeIntegerGetType v = (0xF3 # le_bytes 4 (uns_val 4 v), 5)"
      unfolding lpEncodeIntegerGetType_def Let_def le_bytes_int(3) [symmetric] using e by (simp only:) simp
    moreover have "sgn_val 4 (uns_val 4 v) = v" using e by (intro sgn_uns_val) simp_all
    ultimately show thesis by (rule i32)
  next
    case f
    note f = f [unfolded r]
    have "v mod 2 ^ 64 = int (uns_val 8 v)" by (simp add: uns_val_def)
    then have "lpEncodeIntegerGetType v = (0xF4 # le_bytes 8 (uns_val 8 v), 9)"
      unfolding lpEncodeIntegerGetType_def Let_def le_bytes_int(4) [symmetric] using f by (simp only:) simp
    moreover have "sgn_val 8 (uns_val 8 v) = v" using assms by (intro sgn_uns_val) (simp_all add: int64_def)
    ultimately show thesis by (rule i64)
  qed
qed

lemma lp_int_ret_sgn:
  assumes "u < 2 ^ (8 * n)" "s = 2 ^ (8 * n - 1)" "m = 2 ^ (8 * n) - 1"
  shows "lp_int_ret u s m None = Some (IsInt (sgn_val n u))"
proof -
  have "int (2 ^ (8 * n) - 1 - u) = 2 ^ (8 * n) - 1 - int u"
    using assms(1) by (simp add: of_nat_diff Suc_le_eq less_imp_le)
  then show ?thesis using assms by (simp add: lp_int_ret_def sgn_val_def)
qed

lemma mem_read_Cons: "mem_read (x # xs) 1 (length xs) = Some xs"
  by (simp add: mem_read_def)

lemma mem_read_le [simp]: "mem_read (x # le_bytes n u) (Suc 0) n = Some (le_bytes n u)"
  using mem_read_Cons [of x "le_bytes n u"] by simp

lemma rd_Cons0 [simp]: "rd (x # xs) 0 = Some x"
  by (simp add: rd_def)

lemma rd_Cons1 [simp]: "rd (x # y # xs) (Suc 0) = Some y"
  by (simp add: rd_def)

lemmas enc_eval = lpCurrentEncodedSizeUnsafe_def lpGet_def lpGetWithBuf_def lp_enc
  LP_ENCODING_6BIT_STR_LEN_def LP_ENCODING_12BIT_STR_LEN_def LP_ENCODING_32BIT_STR_LEN_def

lemma lpGet_tagged:
  assumes "(t, n) \<in> {(0xF1, 2), (0xF2, 3), (0xF3, 4), (0xF4, 8)}" "u < 2 ^ (8 * n)"
  shows "lpGet (t # le_bytes n u) 0 None = Some (IsInt (sgn_val n u))"
    and "lpCurrentEncodedSizeUnsafe (t # le_bytes n u) 0 = Some (Suc n)"
  using assms by (auto simp: enc_eval le_val_le_bytes lp_int_ret_sgn)

lemma lpGet_13bit:
  assumes "u < 8192"
  shows "lpGet [of_nat (u div 256) OR 0xC0, of_nat u] 0 None =
           Some (IsInt (if u < 4096 then int u else int u - 8192))"
    and "lpCurrentEncodedSizeUnsafe [of_nat (u div 256) OR 0xC0, of_nat u] 0 = Some 2"
proof -
  have h: "unat ((of_nat (u div 256) :: byte) OR 0xC0) = u div 256 + 192"
    using or_tag(2) [of "of_nat (u div 256)"] assms by simp
  have l: "unat (((of_nat (u div 256) :: byte) OR 0xC0) AND 0x1F) = u div 256"
    unfolding and_lo h using assms by (simp add: mod_add_right_eq [symmetric] less_mult_imp_div_less)
  have "u mod 256 OR push_bit 8 (u div 256) = u" using shift_or_add [of "u mod 256" 8 "u div 256"] by simp
  then show "lpGet [of_nat (u div 256) OR 0xC0, of_nat u] 0 None =
      Some (IsInt (if u < 4096 then int u else int u - 8192))"
    "lpCurrentEncodedSizeUnsafe [of_nat (u div 256) OR 0xC0, of_nat u] 0 = Some 2"
    using assms by (auto simp: enc_eval h l lp_int_ret_def less_mult_imp_div_less)
qed

lemma lpGet_7bit:
  assumes "u < 128"
  shows "lpGet [of_nat u] 0 None = Some (IsInt (int u))"
    and "lpCurrentEncodedSizeUnsafe [of_nat u] 0 = Some 1"
  using assms and_lo(1) [of "of_nat u"] by (simp_all add: enc_eval lp_int_ret_def)

lemma lpGet_integer:
  assumes "int64 v" "lpEncodeIntegerGetType v = (e, n)"
  shows "chunk_ok e" "length e = n" "lpGet e 0 None = Some (IsInt v)"
proof -
  have "chunk_ok e \<and> length e = n \<and> lpGet e 0 None = Some (IsInt v)"
    using assms(1)
  proof (cases rule: lpEncodeInteger_cases)
    case (u7 u)
    then show ?thesis using assms(2) lpGet_7bit [of u] by (auto simp: chunk_ok_def lp_enc)
  next
    case (i13 u)
    have "unat ((of_nat (u div 256) :: byte) OR 0xC0) = u div 256 + 192"
      using or_tag(2) [of "of_nat (u div 256)"] i13 by simp
    moreover have "u div 256 < 32" using i13 by simp
    ultimately show ?thesis using i13 assms(2) lpGet_13bit [of u] by (auto simp: chunk_ok_def lp_enc)
  next
    case i16
    then show ?thesis using assms(2) lpGet_tagged [of 241 2 "uns_val 2 v"] uns_val_less [of 2 v]
      by (auto simp: chunk_ok_def lp_enc)
  next
    case i24
    then show ?thesis using assms(2) lpGet_tagged [of 242 3 "uns_val 3 v"] uns_val_less [of 3 v]
      by (auto simp: chunk_ok_def lp_enc)
  next
    case i32
    then show ?thesis using assms(2) lpGet_tagged [of 243 4 "uns_val 4 v"] uns_val_less [of 4 v]
      by (auto simp: chunk_ok_def lp_enc)
  next
    case i64
    then show ?thesis using assms(2) lpGet_tagged [of 244 8 "uns_val 8 v"] uns_val_less [of 8 v]
      by (auto simp: chunk_ok_def lp_enc)
  qed
  then show "chunk_ok e" "length e = n" "lpGet e 0 None = Some (IsInt v)" by auto
qed

section \<open>Strings\<close>

lemma lpEncodeString_cases:
  assumes "length s < 2 ^ 32 - 5"
  obtains h where "lpEncodeString s = h @ s" "h \<noteq> []" "unat (hd h) \<noteq> 255"
    "length h = (if length s < 64 then 1 else if length s < 4096 then 2 else 5)"
    "lpCurrentEncodedSizeUnsafe (h @ s) 0 = Some (length h + length s)"
    "lpGet (h @ s) 0 buf = Some (InLp (length h) (length s))"
proof -
  consider (a) "length s < 64" | (b) "\<not> length s < 64" "length s < 4096" | (c) "\<not> length s < 64" "\<not> length s < 4096" by blast
  then show thesis
  proof cases
    case a
    have h: "unat ((of_nat (length s) :: byte) OR 0x80) = length s + 128"
      using or_tag(1) [of "of_nat (length s)"] a by simp
    have l: "unat (((of_nat (length s) :: byte) OR 0x80) AND 0x3F) = length s"
      unfolding and_lo h using a by (simp add: mod_add_right_eq [symmetric])
    show thesis
      by (rule that [of "[of_nat (length s) OR 0x80]"]) (use a in \<open>simp_all add: lpEncodeString_def Let_def enc_eval h l\<close>)
  next
    case b
    have h: "unat ((of_nat (length s div 256) :: byte) OR 0xE0) = length s div 256 + 224"
      using or_tag(3) [of "of_nat (length s div 256)"] b by simp
    have l: "unat (((of_nat (length s div 256) :: byte) OR 0xE0) AND 0xF) = length s div 256"
      unfolding and_lo h using b by (simp add: mod_add_right_eq [symmetric] less_mult_imp_div_less)
    have d: "length s div 256 < 16" using b by simp
    have "length s mod 256 OR push_bit 8 (length s div 256) = length s"
      using shift_or_add [of "length s mod 256" 8 "length s div 256"] by simp
    then show thesis
      by (intro that [of "[of_nat (length s div 256) OR 0xE0, of_nat (length s)]"])
        (use b d in \<open>simp_all add: lpEncodeString_def Let_def enc_eval h l\<close>)
  next
    case c
    have le: "[of_nat (length s), of_nat (length s div 2 ^ 8), of_nat (length s div 2 ^ 16), of_nat (length s div 2 ^ 24)] =
        le_bytes 4 (length s)"
      by (simp add: le_bytes_numeral flip: div_mult2_eq)
    have m: "mem_read (0xF0 # le_bytes 4 (length s) @ s) (Suc 0) 4 = Some (le_bytes 4 (length s))"
      using mem_read_append [of 1 "[0xF0]" 4 "le_bytes 4 (length s)" s] by simp
    show thesis
      by (rule that [of "0xF0 # le_bytes 4 (length s)"])
        (use c assms le in \<open>simp_all add: lpEncodeString_def Let_def enc_eval m le_val_le_bytes\<close>)
  qed
qed

lemma lpGet_string:
  assumes "length s < 2 ^ 32 - 5"
  shows "chunk_ok (lpEncodeString s)" "chunk_val (lpEncodeString s) = EStr s"
    "length (lpEncodeString s) = length s + (if length s < 64 then 1 else if length s < 4096 then 2 else 5)"
proof -
  obtain h where h: "lpEncodeString s = h @ s" "h \<noteq> []" "unat (hd h) \<noteq> 255"
    "length h = (if length s < 64 then 1 else if length s < 4096 then 2 else 5)"
    "lpCurrentEncodedSizeUnsafe (h @ s) 0 = Some (length h + length s)"
    "lpGet (h @ s) 0 None = Some (InLp (length h) (length s))"
    using lpEncodeString_cases [OF assms] .
  from h(2,3,5) show "chunk_ok (lpEncodeString s)" unfolding h(1) chunk_ok_def lp_enc by simp
  from h(6) show "chunk_val (lpEncodeString s) = EStr s" unfolding h(1) chunk_val_def by simp
  from h(4) show "length (lpEncodeString s) = length s + (if length s < 64 then 1 else if length s < 4096 then 2 else 5)"
    unfolding h(1) by simp
qed

lemma enc_elem_ok:
  assumes "elem_ok x"
  shows "chunk_ok (enc_elem x)" "chunk_val (enc_elem x) = x"
proof -
  have "chunk_ok (enc_elem x) \<and> chunk_val (enc_elem x) = x"
  proof (cases x)
    case (EInt v)
    then show ?thesis using assms lpGet_integer [of v] by (cases "lpEncodeIntegerGetType v") (simp add: chunk_val_def)
  next
    case (EStr s)
    then show ?thesis using assms lpGet_string [of s] by simp
  qed
  then show "chunk_ok (enc_elem x)" "chunk_val (enc_elem x) = x" by auto
qed

section \<open>Strings that are integers\<close>

lemma lpStringToInt64_loop_eq: "lpStringToInt64_loop v s = string2ll_loop v s"
  by (induction s arbitrary: v) auto

lemma lpStringToInt64_eq: "lpStringToInt64 s = string2ll s"
  unfolding lpStringToInt64_def string2ll_def lpStringToInt64_loop_eq ..

text \<open>The entry written for a string, and its element.\<close>

definition elem_of :: "bytes \<Rightarrow> elem" where
  "elem_of s = (case lpStringToInt64 s of Some v \<Rightarrow> EInt v | None \<Rightarrow> EStr s)"

lemma elem_of_ok: "length s < 2 ^ 32 - 5 \<Longrightarrow> elem_ok (elem_of s)"
  using string2ll_sound by (auto simp: elem_of_def lpStringToInt64_eq split: option.split)

lemma elem_str_elem_of [simp]: "elem_str (elem_of s) = s"
  using string2ll_sound by (auto simp: elem_of_def lpStringToInt64_eq split: option.split)

lemma elem_of_EStr: "elem_of s = EStr t \<Longrightarrow> t = s"
  by (simp add: elem_of_def split: option.splits)

lemma lpEncodeGetType_eq:
  assumes "length s < 2 ^ 32 - 5"
  shows "lpEncodeGetType s =
    (case elem_of s of EInt v \<Rightarrow> (LP_ENCODING_INT, enc_elem (elem_of s), length (enc_elem (elem_of s)))
       | EStr _ \<Rightarrow> (LP_ENCODING_STRING, [], length (enc_elem (elem_of s))))"
proof (cases "string2ll s")
  case None
  then show ?thesis using lpGet_string(3) [OF assms]
    by (simp add: lpEncodeGetType_def elem_of_def lpStringToInt64_eq)
next
  case (Some v)
  obtain e n where e: "lpEncodeIntegerGetType v = (e, n)" by fastforce
  then show ?thesis using Some lpGet_integer(2) [OF _ e] string2ll_sound [OF Some]
    by (simp add: lpEncodeGetType_def elem_of_def lpStringToInt64_eq)
qed

section \<open>Reading into a buffer\<close>

lemma lp_int_ret_buf:
  assumes "lp_int_ret u s m None = Some (IsInt v)" "ll2string buf 0 LP_INTBUF_SIZE v = Some (b, n)"
  shows "lp_int_ret u s m (Some buf) = Some (InBuf b n)"
  using assms unfolding lp_int_ret_def Let_def by (simp del: of_nat_diff)

lemma lpGet_buf:
  assumes "lpGet c p None = Some (IsInt v)" "ll2string buf 0 LP_INTBUF_SIZE v = Some (b, n)"
  shows "lpGet c p (Some buf) = Some (InBuf b n)"
  using assms(1) unfolding lpGet_def lpGetWithBuf_def
  apply -
  by ((erule ext_bind ext_if ext_case_prod lp_int_ret_buf [OF _ assms(2)] | assumption | simp)+)

text \<open>The string a result of \<open>lpGet\<close> denotes.\<close>

fun ret_str :: "bytes \<Rightarrow> lp_ret \<Rightarrow> bytes" where
  "ret_str lp (InLp p n) = take n (drop p lp)"
| "ret_str lp (InBuf b n) = take n b"
| "ret_str lp (IsInt v) = show_int v"

lemma ll2string_21:
  assumes "int64 v" "length buf = 21"
  shows "\<exists>rest. ll2string buf 0 21 v = Some (show_int v @ rest, length (show_int v))"
proof -
  have len: "length (show_int v) < 21" using length_show_int [OF assms(1)] by simp
  obtain as mid bs where b: "buf = as @ mid @ bs" "length as = 0" "length mid = Suc (length (show_int v))"
    using split_at [of 0 "Suc (length (show_int v))" buf] len assms(2) by auto
  then show ?thesis using ll2string_eq [OF assms(1) len b(3), of "[]" bs] by simp
qed

lemma lpGet_elem:
  assumes "elem_ok x" "length buf = 21"
  shows "\<exists>r. lpGet (as @ enc_elem x @ bs) (length as) (Some buf) = Some r \<and>
             ret_str (as @ enc_elem x @ bs) r = elem_str x"
proof (cases x)
  case (EInt v)
  obtain e n where e: "lpEncodeIntegerGetType v = (e, n)" by fastforce
  have g: "lpGet (as @ e @ bs) (length as) None = Some (IsInt v)"
    using lpGet_mono [OF lpGet_integer(3) [OF _ e]] assms EInt by simp
  obtain rest where "ll2string buf 0 21 v = Some (show_int v @ rest, length (show_int v))"
    using ll2string_21 [of v buf] assms EInt by auto
  then have "lpGet (as @ e @ bs) (length as) (Some buf) = Some (InBuf (show_int v @ rest) (length (show_int v)))"
    using lpGet_buf [OF g] by simp
  then show ?thesis using EInt e by simp
next
  case (EStr s)
  obtain h where h: "lpEncodeString s = h @ s" "lpGet (h @ s) 0 (Some buf) = Some (InLp (length h) (length s))"
    using lpEncodeString_cases [of s] assms EStr by (metis elem_ok.simps(2))
  then show ?thesis using EStr lpGet_mono [OF h(2), of as bs] by (simp add: h(1))
qed

section \<open>The two readers agree\<close>

lemma lpGetWithSize_fst: "map_option fst (lpGetWithSize lp p intbuf) = lpGetWithBuf lp p intbuf"
proof (cases "rd lp p")
  case None
  then show ?thesis by (simp add: lpGetWithSize_def lpGetWithBuf_def)
next
  case (Some e)
  have m: "map_option fst (Option.bind m (\<lambda>r. Some (r, k r))) = m" for m :: "lp_ret option" and k :: "lp_ret \<Rightarrow> nat option"
    by (cases m) auto
  have n: "map_option fst (Option.bind m (\<lambda>n. Some (InLp q n, k n))) = Option.bind m (\<lambda>n. Some (InLp q n))"
    for m q and k :: "nat \<Rightarrow> nat option"
    by (cases m) auto
  have b: "map_option fst (Option.bind m f) = Option.bind m (\<lambda>x. map_option fst (f x))"
    for m :: "'a option" and f :: "'a \<Rightarrow> (lp_ret \<times> nat option) option"
    by (cases m) auto
  show ?thesis
    using unsigned_less [of e] unfolding lpGetWithSize_def lpGetWithBuf_def Some Option.bind.bind_lunit lp_enc
    by (auto simp: m n b)
qed

text \<open>An entry with a 32-bit length holds that many bytes: the sum does not wrap.\<close>

lemma chunk_ok_32:
  assumes "chunk_ok c" "unat (hd c) = 240" "LP_ENCODING_32BIT_STR_LEN c 0 = Some k"
  shows "length c = 5 + k"
proof -
  have c: "rd c 0 = Some (hd c)" using assms(1) by (cases c) (auto simp: chunk_ok_def)
  have "lpCurrentEncodedSizeUnsafe c 0 = Some ((5 + k) mod 2 ^ 32)"
    using assms(2,3) unfolding lpCurrentEncodedSizeUnsafe_def c Option.bind.bind_lunit lp_enc by simp
  then have l: "length c = (5 + k) mod 2 ^ 32" using assms(1) by (simp add: chunk_ok_def)
  have "5 \<le> length c" using assms(3) by (auto simp: LP_ENCODING_32BIT_STR_LEN_def mem_read_def split: Option.bind_splits if_splits)
  moreover have "k < 2 ^ 32"
    using assms(3) le_val_less [of "take 4 (drop 1 c)"]
    by (auto simp: LP_ENCODING_32BIT_STR_LEN_def mem_read_def split: Option.bind_splits if_splits)
  ultimately show ?thesis using l by (cases "5 + k < 2 ^ 32") (auto simp: le_mod_geq)
qed

lemma lpGetWithSize_snd:
  assumes "lpGetWithSize lp p intbuf = Some (r, sz)" "lp = as @ c @ bs" "p = length as" "chunk_ok c"
  shows "sz = Some (length c + lpEncodeBacklenBytes (length c))"
proof -
  have c: "rd c 0 = Some (hd c)" "hd c \<noteq> LP_EOF" "lpCurrentEncodedSizeUnsafe c 0 = Some (length c)"
    using assms(4) by (cases c; simp add: chunk_ok_def)+
  have e: "rd lp p = Some (hd c)" using rd_mono0 [OF c(1)] assms by simp
  have l: "lpCurrentEncodedSizeUnsafe lp p = Some (length c)"
    using lpCurrentEncodedSizeUnsafe_mono [OF c(3)] assms by simp
  have k: "unat (hd c) = 240 \<Longrightarrow> LP_ENCODING_32BIT_STR_LEN lp p = Some k \<Longrightarrow> length c = 5 + k" for k
  proof -
    assume h: "unat (hd c) = 240" "LP_ENCODING_32BIT_STR_LEN lp p = Some k"
    obtain k' where k': "LP_ENCODING_32BIT_STR_LEN c 0 = Some k'"
      using c(3) h(1) unfolding lpCurrentEncodedSizeUnsafe_def c(1) Option.bind.bind_lunit lp_enc by auto
    then have "k' = k" using str_len_mono(3) [OF k', of as bs] assms h by simp
    then show "length c = 5 + k" using chunk_ok_32 [OF assms(4) h(1) k'] by simp
  qed
  have z: "length c \<noteq> 0" using assms(4) by (simp add: chunk_ok_def)
  show ?thesis using assms(1) l c(2) k z
    unfolding lpGetWithSize_def lpCurrentEncodedSizeUnsafe_def e Option.bind.bind_lunit lp_enc
    by (auto simp: lpEncodeBacklenBytes_def split: if_splits Option.bind_splits)
qed

section \<open>Properties of the encoding\<close>

text \<open>(C3) Storing and reading back: whatever string is encoded, whether or not it looks like an integer,
  the bytes written have the announced length, the entry size read back from them is that length
  and \<open>lpGet\<close> on them returns the very same string, wherever the entry lies in memory.\<close>

theorem lpEncode_lpGet:
  assumes "length ele < 2 ^ 32 - 5" "length intbuf = 21"
    and "lpEncodeGetType ele = (t, intenc, enclen)"
    and "e = (if t = LP_ENCODING_INT then intenc else lpEncodeString ele)"
  shows "length e = enclen \<and> lpCurrentEncodedSizeUnsafe (as @ e @ bs) (length as) = Some enclen \<and>
    (\<exists>r. lpGet (as @ e @ bs) (length as) (Some intbuf) = Some r \<and> ret_str (as @ e @ bs) r = ele)"
proof -
  have e: "e = enc_elem (elem_of ele)" "enclen = length e"
    using assms(3,4) unfolding lpEncodeGetType_eq [OF assms(1)] by (auto split: elem.splits dest: elem_of_EStr)
  have "lpCurrentEncodedSizeUnsafe e 0 = Some (length e)"
    using enc_elem_ok(1) [OF elem_of_ok [OF assms(1)]] by (simp add: e chunk_ok_def)
  then show ?thesis
    using lpCurrentEncodedSizeUnsafe_mono lpGet_elem [OF elem_of_ok [OF assms(1)] assms(2), of as bs] e by auto
qed

theorem lpEncode_lpGet_witness:
  "lpEncodeGetType [45, 49] = (LP_ENCODING_INT, [0xDF, 0xFF], 2) \<and>
   (\<exists>r. lpGet ([7] @ [0xDF, 0xFF] @ [9]) 1 (Some (replicate 21 0)) = Some r \<and>
        ret_str ([7] @ [0xDF, 0xFF] @ [9]) r = [45, 49])"
proof -
  have "string2ll [45, 49] = Some (-1)"
    using string2ll_show_int [of "-1"] by (simp add: int64_def show_int_def show_nat_small)
  then have t: "lpEncodeGetType [45, 49] = (LP_ENCODING_INT, [0xDF, 0xFF], 2)"
    by (simp add: lpEncodeGetType_def lpStringToInt64_eq lpEncodeIntegerGetType_def)
  show ?thesis using t lpEncode_lpGet [OF _ _ t, of "replicate 21 0" "[0xDF, 0xFF]" "[7]" "[9]"] by simp
qed

text \<open>(C35) Every 64-bit integer survives encoding and decoding, in an encoding of at most nine bytes.\<close>

theorem lpEncodeIntegerGetType_lpGet:
  assumes "int64 v" "lpEncodeIntegerGetType v = (intenc, enclen)"
  shows "length intenc = enclen \<and> enclen \<le> 9 \<and>
    lpCurrentEncodedSizeUnsafe (as @ intenc @ bs) (length as) = Some enclen \<and>
    lpGet (as @ intenc @ bs) (length as) None = Some (IsInt v)"
proof -
  note g = lpGet_integer [OF assms]
  have "enclen \<le> 9" using assms(1) by (cases rule: lpEncodeInteger_cases) (use assms(2) in auto)
  then show ?thesis
    using g lpGet_mono [OF g(3)] lpCurrentEncodedSizeUnsafe_mono [of intenc] by (auto simp: chunk_ok_def)
qed

theorem lpEncodeIntegerGetType_lpGet_witness:
  "lpGet ([] @ [0xF1, 0x00, 0x80] @ [2]) 0 None = Some (IsInt (-32768))"
proof -
  have t: "lpEncodeIntegerGetType (-32768) = ([0xF1, 0x00, 0x80], 3)" by (simp add: lpEncodeIntegerGetType_def)
  have "int64 (-32768)" by (simp add: int64_def)
  from lpEncodeIntegerGetType_lpGet [OF this t, of "[]" "[2]"] show ?thesis by simp
qed

text \<open>(C34) The reverse-encoded length is read back, starting from its last byte, for every length below
  \<open>2\<^sup>3\<^sup>5\<close>, and occupies the announced number of bytes, between one and five.\<close>

theorem lpDecodeBacklen_lpEncodeBacklen:
  assumes "l < 2 ^ 35"
  shows "lpDecodeBacklen (as @ lpEncodeBacklen l @ bs) (length as + lpEncodeBacklenBytes l - 1) = Some l \<and>
    length (lpEncodeBacklen l) = lpEncodeBacklenBytes l \<and> lpEncodeBacklenBytes l \<in> {1..5}"
  using lpDecodeBacklen_eq [OF assms] lpEncodeBacklenBytes_range [of l] by simp

theorem lpDecodeBacklen_lpEncodeBacklen_witness:
  "lpDecodeBacklen ([1] @ [7, 232] @ [0xFF]) 2 = Some 1000"
proof -
  have "lpEncodeBacklen 1000 = [7, 232]" by (simp add: lpEncodeBacklen_def)
  then have "lpDecodeBacklen ([1] @ [7, 232] @ [0xFF]) (Suc (Suc 0)) = Some 1000"
    using lpDecodeBacklen_lpEncodeBacklen [of 1000 "[1]" "[0xFF]"] by (simp add: lpEncodeBacklenBytes_def)
  then show ?thesis by (simp add: numeral_2_eq_2)
qed

text \<open>\<open>lpGetWithSize\<close> is \<open>lpGet\<close> and the size of the whole entry, reverse length included, in one pass.\<close>

lemma lpGetWithSize_agrees:
  assumes "chunk_ok c"
  shows "lpGetWithSize (as @ c @ bs) (length as) intbuf =
    map_option (\<lambda>r. (r, Some (length c + lpEncodeBacklenBytes (length c)))) (lpGet (as @ c @ bs) (length as) intbuf)"
proof (cases "lpGetWithSize (as @ c @ bs) (length as) intbuf")
  case None
  then show ?thesis using lpGetWithSize_fst [of "as @ c @ bs" "length as" intbuf] by (simp add: lpGet_def)
next
  case (Some rs)
  then show ?thesis
    using lpGetWithSize_fst [of "as @ c @ bs" "length as" intbuf] lpGetWithSize_snd [OF _ refl refl assms]
    by (cases rs) (auto simp: lpGet_def dest: sym)
qed

end
