(* ===== verification/Listpack.thy ===== *)
theory Listpack
  imports Listpack_Codec
begin

text \<open>
  The listpack of \<^verbatim>\<open>src/listpack.c\<close>: a header (total bytes and number of elements), the entries, each
  followed by its reverse-encoded length, and an end marker, in one buffer whose tail beyond the end
  marker is allocator slack. The operations are modelled on the buffer with every read and write
  bounded; \<open>None\<close> is a failed \<^verbatim>\<open>assert\<close> or an access outside the buffer, an inner \<open>None\<close> the NULL pointer.

  \<open>lp_repr lp cs\<close> says that \<open>lp\<close> holds the entries \<open>cs\<close>. The lemmas show that every operation on such
  a buffer succeeds and refines the operation on the list of entries.
\<close>

section \<open>Header\<close>

definition lpGetTotalBytes :: "bytes \<Rightarrow> nat option" where
  "lpGetTotalBytes lp = do { bs \<leftarrow> mem_read lp 0 4; Some (le_val bs) }"

definition lpGetNumElements :: "bytes \<Rightarrow> nat option" where
  "lpGetNumElements lp = do { bs \<leftarrow> mem_read lp 4 2; Some (le_val bs) }"

definition lpSetTotalBytes :: "bytes \<Rightarrow> nat \<Rightarrow> bytes option" where
  "lpSetTotalBytes lp v = mem_write lp 0 (le_bytes 4 v)"

definition lpSetNumElements :: "bytes \<Rightarrow> nat \<Rightarrow> bytes option" where
  "lpSetNumElements lp v = mem_write lp 4 (le_bytes 2 v)"

definition lpBytes :: "bytes \<Rightarrow> nat option" where
  "lpBytes lp = lpGetTotalBytes lp"

abbreviation (input) LISTPACK_MAX_SAFETY_SIZE :: nat where "LISTPACK_MAX_SAFETY_SIZE \<equiv> 2 ^ 30"

definition lpSafeToAdd :: "bytes option \<Rightarrow> nat \<Rightarrow> bool option" where
  "lpSafeToAdd lp add =
     do { len \<leftarrow> (case lp of Some lp \<Rightarrow> lpGetTotalBytes lp | None \<Rightarrow> Some 0);
          Some (\<not> (len + add) mod 2 ^ 64 > LISTPACK_MAX_SAFETY_SIZE) }"

definition lpNew :: "realloc_fn \<Rightarrow> nat \<Rightarrow> bytes option" where
  "lpNew ra capacity =
     do { let lp = ra [] (if capacity > LP_HDR_SIZE + 1 then capacity else LP_HDR_SIZE + 1);
          lp \<leftarrow> lpSetTotalBytes lp (LP_HDR_SIZE + 1);
          lp \<leftarrow> lpSetNumElements lp 0;
          mem_write lp LP_HDR_SIZE [LP_EOF] }"

text \<open>\<^verbatim>\<open>lp_malloc_size(lp)\<close> is the length of the buffer.\<close>

definition lpShrinkToFit :: "realloc_fn \<Rightarrow> bytes \<Rightarrow> bytes option" where
  "lpShrinkToFit ra lp =
     do { sz \<leftarrow> lpGetTotalBytes lp;
          if sz < length lp then Some (ra lp sz) else Some lp }"

definition lpDup :: "realloc_fn \<Rightarrow> bytes \<Rightarrow> bytes option" where
  "lpDup ra lp = do { n \<leftarrow> lpBytes lp; bs \<leftarrow> mem_read lp 0 n; mem_write (ra [] n) 0 bs }"

section \<open>Validation and traversal\<close>

definition OUT_OF_RANGE :: "nat \<Rightarrow> nat \<Rightarrow> bool" where
  "OUT_OF_RANGE lpbytes p \<longleftrightarrow> p < LP_HDR_SIZE \<or> p > lpbytes - 1"

text \<open>The result and the new \<^verbatim>\<open>*pp\<close>.\<close>

definition lpValidateNext :: "bytes \<Rightarrow> nat option \<Rightarrow> nat \<Rightarrow> (bool \<times> nat option) option" where
  "lpValidateNext lp pp lpbytes =
     (case pp of
        None \<Rightarrow> Some (False, None)
      | Some p \<Rightarrow>
          if OUT_OF_RANGE lpbytes p then Some (False, pp)
          else do {
            e \<leftarrow> rd lp p;
            if e = LP_EOF then Some (True, None)
            else do {
              let lenbytes = lpCurrentEncodedSizeBytes e;
              if lenbytes = 0 then Some (False, pp)
              else if OUT_OF_RANGE lpbytes (p + lenbytes) then Some (False, pp)
              else do {
                entrylen \<leftarrow> lpCurrentEncodedSizeUnsafe lp p;
                let encodedBacklen = lpEncodeBacklenBytes entrylen;
                let entrylen = entrylen + encodedBacklen;
                if OUT_OF_RANGE lpbytes (p + entrylen) then Some (False, pp)
                else do {
                  prevlen \<leftarrow> lpDecodeBacklen lp (p + entrylen - 1);
                  if (prevlen + encodedBacklen) mod 2 ^ 64 \<noteq> entrylen then Some (False, pp)
                  else Some (True, Some (p + entrylen)) } } } })"

definition lpAssertValidEntry :: "bytes \<Rightarrow> nat \<Rightarrow> nat \<Rightarrow> unit option" where
  "lpAssertValidEntry lp lpbytes p = do { (ok, _) \<leftarrow> lpValidateNext lp (Some p) lpbytes; c_assert ok }"

definition lpNextWithBytes :: "bytes \<Rightarrow> nat \<Rightarrow> nat \<Rightarrow> nat option option" where
  "lpNextWithBytes lp p lpbytes =
     do { p \<leftarrow> lpSkip lp p;
          e \<leftarrow> rd lp p;
          if e = LP_EOF then Some None
          else do { lpAssertValidEntry lp lpbytes p; Some (Some p) } }"

definition lpNext :: "bytes \<Rightarrow> nat \<Rightarrow> nat option option" where
  "lpNext lp p =
     do { p \<leftarrow> lpSkip lp p;
          e \<leftarrow> rd lp p;
          if e = LP_EOF then Some None
          else do { n \<leftarrow> lpBytes lp; lpAssertValidEntry lp n p; Some (Some p) } }"

text \<open>\<open>prevlen\<close> is a \<^verbatim>\<open>uint64_t\<close>; a pointer below the buffer does not pass the assertion.\<close>

definition lpPrev :: "bytes \<Rightarrow> nat \<Rightarrow> nat option option" where
  "lpPrev lp p =
     (if p = LP_HDR_SIZE then Some None
      else if p = 0 then None
      else do {
        let p = p - 1;
        prevlen \<leftarrow> lpDecodeBacklen lp p;
        let prevlen = (prevlen + lpEncodeBacklenBytes prevlen) mod 2 ^ 64;
        let d = (prevlen + (2 ^ 64 - 1)) mod 2 ^ 64;
        if d > p then None
        else do { n \<leftarrow> lpBytes lp; lpAssertValidEntry lp n (p - d); Some (Some (p - d)) } })"

definition lpFirst :: "bytes \<Rightarrow> nat option option" where
  "lpFirst lp =
     do { let p = LP_HDR_SIZE;
          e \<leftarrow> rd lp p;
          if e = LP_EOF then Some None
          else do { n \<leftarrow> lpBytes lp; lpAssertValidEntry lp n p; Some (Some p) } }"

definition lpLast :: "bytes \<Rightarrow> nat option option" where
  "lpLast lp = do { n \<leftarrow> lpGetTotalBytes lp; if n = 0 then None else lpPrev lp (n - 1) }"

definition lpValidateFirst :: "bytes \<Rightarrow> nat option option" where
  "lpValidateFirst lp =
     do { let p = LP_HDR_SIZE; e \<leftarrow> rd lp p; if e = LP_EOF then Some None else Some (Some p) }"

text \<open>Moving on strictly increases the pointer, so the scans end.\<close>

lemma lpValidateNext_True:
  assumes "lpValidateNext lp (Some p) n = Some (True, Some q)"
  shows "p < q" "q \<le> n - 1"
  using assms
  by (auto simp: lpValidateNext_def Let_def OUT_OF_RANGE_def lpEncodeBacklenBytes_def
      split: if_splits Option.bind_splits)

lemma lpValidateNext_measure: "lpValidateNext lp (Some p) n = Some (True, Some q) \<Longrightarrow> n - q < n - p"
  using lpValidateNext_True [of lp p n q] by linarith

lemma lpSkip_less: "lpSkip lp p = Some q \<Longrightarrow> p < q"
  using lpEncodeBacklenBytes_range(1) [of "the (lpCurrentEncodedSizeUnsafe lp p)"]
  by (auto simp: lpSkip_def split: Option.bind_splits)

lemma lpNext_less:
  assumes "lpNext lp p = Some (Some q)"
  shows "p < q" "q < length lp"
proof -
  have "lpSkip lp p = Some q \<and> q < length lp"
    using assms by (auto simp: lpNext_def rd_def split: if_splits Option.bind_splits)
  then show "p < q" "q < length lp" using lpSkip_less by auto
qed

lemma lpNext_measure: "lpNext lp p = Some (Some q) \<Longrightarrow> length lp - q < length lp - p"
  using lpNext_less [of lp p q] by linarith

function lpLength_loop :: "bytes \<Rightarrow> nat \<Rightarrow> nat option \<Rightarrow> nat option" where
  "lpLength_loop lp count p =
     (case p of
        None \<Rightarrow> Some count
      | Some q \<Rightarrow> (case lpNext lp q of None \<Rightarrow> None | Some r \<Rightarrow> lpLength_loop lp (count + 1) r))"
  by pat_completeness auto
termination
  by (relation "measure (\<lambda>(lp, count, p). case p of None \<Rightarrow> 0 | Some q \<Rightarrow> Suc (length lp - q))")
    (auto split: option.splits dest: lpNext_measure)

declare lpLength_loop.simps [simp del]

text \<open>The count and the listpack, whose header it may update.\<close>

definition lpLength :: "bytes \<Rightarrow> (nat \<times> bytes) option" where
  "lpLength lp =
     do { numele \<leftarrow> lpGetNumElements lp;
          if numele \<noteq> LP_HDR_NUMELE_UNKNOWN then Some (numele, lp)
          else do {
            p \<leftarrow> lpFirst lp;
            count \<leftarrow> lpLength_loop lp 0 p;
            lp \<leftarrow> (if count < LP_HDR_NUMELE_UNKNOWN then lpSetNumElements lp count else Some lp);
            Some (count, lp) } }"

fun lpSeek_forward :: "bytes \<Rightarrow> nat \<Rightarrow> nat option \<Rightarrow> nat option option" where
  "lpSeek_forward lp (Suc index) (Some ele) = do { ele \<leftarrow> lpNext lp ele; lpSeek_forward lp index ele }"
| "lpSeek_forward lp _ ele = Some ele"

text \<open>Here \<open>k\<close> is the number of steps left, \<open>-1 - index\<close>.\<close>

fun lpSeek_backward :: "bytes \<Rightarrow> nat \<Rightarrow> nat option \<Rightarrow> nat option option" where
  "lpSeek_backward lp (Suc k) (Some ele) = do { ele \<leftarrow> lpPrev lp ele; lpSeek_backward lp k ele }"
| "lpSeek_backward lp _ ele = Some ele"

definition lpSeek :: "bytes \<Rightarrow> int \<Rightarrow> nat option option" where
  "lpSeek lp index =
     do { numele \<leftarrow> lpGetNumElements lp;
          let index' = (if numele \<noteq> LP_HDR_NUMELE_UNKNOWN \<and> index < 0 then int numele + index else index);
          if numele \<noteq> LP_HDR_NUMELE_UNKNOWN \<and> (index' < 0 \<or> index' \<ge> int numele) then Some None
          else do {
            let (forward, index'') =
              (if numele \<noteq> LP_HDR_NUMELE_UNKNOWN
               then (if index' > int numele div 2 then (False, index' - int numele) else (True, index'))
               else (\<not> index' < 0, index'));
            if forward then do { ele \<leftarrow> lpFirst lp; lpSeek_forward lp (nat index'') ele }
            else do { ele \<leftarrow> lpLast lp; lpSeek_backward lp (nat (- 1 - index'')) ele } } }"

section \<open>Reading and searching\<close>

text \<open>\<^verbatim>\<open>*slen\<close> or \<^verbatim>\<open>*lval\<close> and the pointer.\<close>

definition lpGetValue :: "bytes \<Rightarrow> nat \<Rightarrow> lp_ret option" where
  "lpGetValue lp p =
     do { r \<leftarrow> lpGet lp p None;
          Some (case r of InLp q n \<Rightarrow> InLp q (n mod 2 ^ 32) | InBuf b n \<Rightarrow> InBuf b (n mod 2 ^ 32) | IsInt v \<Rightarrow> IsInt v) }"

definition lpGetIntegerValue :: "bytes \<Rightarrow> nat \<Rightarrow> int option option" where
  "lpGetIntegerValue lp p =
     do { r \<leftarrow> lpGet lp p None; Some (case r of IsInt v \<Rightarrow> Some v | _ \<Rightarrow> None) }"

definition lpCompare :: "bytes \<Rightarrow> nat \<Rightarrow> bytes \<Rightarrow> bool option" where
  "lpCompare lp p s =
     do { e \<leftarrow> rd lp p;
          if e = LP_EOF then Some False
          else do {
            r \<leftarrow> lpGet lp p None;
            (case r of
               InLp q sz \<Rightarrow>
                 if length s = sz then do { v \<leftarrow> mem_read lp q (length s); Some (v = s) } else Some False
             | InBuf b sz \<Rightarrow> None
             | IsInt sz \<Rightarrow>
                 Some (case lpStringToInt64 s of Some sval \<Rightarrow> sz = sval | None \<Rightarrow> False)) } }"

record lpFindArg =
  fa_s :: bytes
  fa_vencoding :: nat
  fa_vll :: int

text \<open>Whether the comparison returned 0, and the updated argument. \<open>lpGetWithSize\<close> is called without a
  buffer, so it does not return one.\<close>

definition lpFindCmp :: "bytes \<Rightarrow> lpFindArg \<Rightarrow> lp_ret \<Rightarrow> (bool \<times> lpFindArg) option" where
  "lpFindCmp lp arg value =
     (case value of
        InLp q slen \<Rightarrow>
          if slen = length (fa_s arg) then do { v \<leftarrow> mem_read lp q slen; Some (fa_s arg = v, arg) }
          else Some (False, arg)
      | InBuf b slen \<Rightarrow> None
      | IsInt ll \<Rightarrow>
          (let arg =
             (if fa_vencoding arg = 0 then
                (if length (fa_s arg) \<ge> 32 \<or> length (fa_s arg) = 0 then arg\<lparr>fa_vencoding := 255\<rparr>
                 else case lpStringToInt64 (fa_s arg) of
                        None \<Rightarrow> arg\<lparr>fa_vencoding := 255\<rparr>
                      | Some v \<Rightarrow> arg\<lparr>fa_vll := v, fa_vencoding := 1\<rparr>)
              else arg)
           in Some (fa_vencoding arg \<noteq> 255 \<and> ll = fa_vll arg, arg)))"

text \<open>
  One round of the search loop up to the move to the next entry. \<open>cmp\<close> is the comparison callback with its
  user argument threaded; \<open>es\<close> is \<^verbatim>\<open>entry_size\<close>, which keeps its value when the entry is badly encoded. \<open>skipcnt\<close> is the
  number of entries still to be skipped; the \<^verbatim>\<open>int\<close> of the source holds this number as long as \<open>skip\<close> is below 2 ^ 31.
\<close>

definition lpFind_round ::
  "(bytes \<Rightarrow> 'u \<Rightarrow> lp_ret \<Rightarrow> (bool \<times> 'u) option) \<Rightarrow> nat \<Rightarrow> bytes \<Rightarrow> nat \<Rightarrow> nat \<Rightarrow> nat \<Rightarrow> 'u \<Rightarrow> nat \<Rightarrow>
   (bool \<times> nat \<times> nat \<times> 'u \<times> nat) option" where
  "lpFind_round cmp skip lp lp_bytes p skipcnt user es =
     (if skipcnt = 0 then
        do { (value, es') \<leftarrow> lpGetWithSize lp p None;
             let es = (case es' of Some n \<Rightarrow> n | None \<Rightarrow> es);
             (case value of
                IsInt _ \<Rightarrow> Some ()
              | _ \<Rightarrow> c_assert (p \<ge> LP_HDR_SIZE \<and> p + es < lp_bytes));
             (eq, user) \<leftarrow> cmp lp user value;
             if eq then Some (True, p, skipcnt, user, es)
             else Some (False, p + es, skip, user, es) }
      else do { p \<leftarrow> lpSkip lp p; Some (False, p, skipcnt - 1, user, es) })"

partial_function (option) lpFind_loop ::
  "(bytes \<Rightarrow> 'u \<Rightarrow> lp_ret \<Rightarrow> (bool \<times> 'u) option) \<Rightarrow> nat \<Rightarrow> bytes \<Rightarrow> nat \<Rightarrow> nat \<Rightarrow> nat \<Rightarrow> 'u \<Rightarrow> nat \<Rightarrow>
   nat option option" where
  "lpFind_loop cmp skip lp lp_bytes p skipcnt user es =
     Option.bind (lpFind_round cmp skip lp lp_bytes p skipcnt user es) (\<lambda>(found, p', skipcnt', user', es').
       if found then Some (Some p)
       else Option.bind
         (if p' + 8 \<ge> lp_bytes then lpAssertValidEntry lp lp_bytes p'
          else c_assert (p' \<ge> LP_HDR_SIZE \<and> p' < lp_bytes)) (\<lambda>_.
         Option.bind (rd lp p') (\<lambda>e.
           if e = LP_EOF then Some None
           else lpFind_loop cmp skip lp lp_bytes p' skipcnt' user' es')))"

definition lpFindCbInternal ::
  "(bytes \<Rightarrow> 'u \<Rightarrow> lp_ret \<Rightarrow> (bool \<times> 'u) option) \<Rightarrow> nat \<Rightarrow> bytes \<Rightarrow> nat option \<Rightarrow> 'u \<Rightarrow> nat option option" where
  "lpFindCbInternal cmp skip lp p user =
     do { lp_bytes \<leftarrow> lpBytes lp;
          p \<leftarrow> (case p of None \<Rightarrow> lpFirst lp | Some q \<Rightarrow> Some (Some q));
          case p of
            None \<Rightarrow> Some None
          | Some q \<Rightarrow> lpFind_loop cmp skip lp lp_bytes q 0 user 123456789 }"

definition lpFind :: "bytes \<Rightarrow> nat option \<Rightarrow> bytes \<Rightarrow> nat \<Rightarrow> nat option option" where
  "lpFind lp p s skip = lpFindCbInternal lpFindCmp skip lp p \<lparr>fa_s = s, fa_vencoding = 0, fa_vll = 0\<rparr>"

section \<open>Inserting, replacing and deleting\<close>

datatype lp_where = LP_BEFORE | LP_AFTER | LP_REPLACE

definition ASSERT_INTEGRITY :: "bytes \<Rightarrow> nat \<Rightarrow> unit option" where
  "ASSERT_INTEGRITY lp p = do { n \<leftarrow> lpGetTotalBytes lp; c_assert (p \<ge> LP_HDR_SIZE \<and> p < n) }"

definition ASSERT_INTEGRITY_LEN :: "bytes \<Rightarrow> nat \<Rightarrow> nat \<Rightarrow> unit option" where
  "ASSERT_INTEGRITY_LEN lp p len = do { n \<leftarrow> lpGetTotalBytes lp; c_assert (p \<ge> LP_HDR_SIZE \<and> p + len < n) }"

text \<open>
  The second half of \<open>lpInsert\<close>, from the reallocation on: make room (or close the gap) at \<open>poff\<close>, write the
  encoded element \<open>enc\<close> and its reverse length, update the header. \<open>enc\<close> is what \<^verbatim>\<open>memcpy\<close> or
  \<open>lpEncodeString\<close> writes. The result is the listpack and \<^verbatim>\<open>*newp\<close>.
\<close>

definition lpInsert_place ::
  "realloc_fn \<Rightarrow> bytes \<Rightarrow> nat \<Rightarrow> lp_where \<Rightarrow> bool \<Rightarrow> bytes \<Rightarrow> bytes \<Rightarrow> nat \<Rightarrow> nat \<Rightarrow> nat \<Rightarrow> (bytes \<times> nat option) option" where
  "lpInsert_place ra lp poff whr delete enc backlen old_listpack_bytes replaced_len new_listpack_bytes =
     do { let dst = poff;
          let enclen = length enc;
          let backlen_size = length backlen;
          let lp = (if new_listpack_bytes > old_listpack_bytes \<and> new_listpack_bytes > length lp
                    then ra lp new_listpack_bytes else lp);
          lp \<leftarrow>
            (if whr = LP_BEFORE then
               (if poff > old_listpack_bytes then None
                else mem_move lp (dst + enclen + backlen_size) dst (old_listpack_bytes - poff))
             else mem_move lp (dst + enclen + backlen_size) (dst + replaced_len)
                    (old_listpack_bytes - poff - replaced_len));
          let lp = (if new_listpack_bytes < old_listpack_bytes then ra lp new_listpack_bytes else lp);
          newp \<leftarrow> (if delete then do { e \<leftarrow> rd lp dst; Some (if e = LP_EOF then None else Some dst) }
                   else Some (Some dst));
          lp \<leftarrow>
            (if \<not> delete then do { lp \<leftarrow> mem_write lp dst enc; mem_write lp (dst + enclen) backlen }
             else Some lp);
          lp \<leftarrow>
            (if whr \<noteq> LP_REPLACE \<or> delete then
               do { num_elements \<leftarrow> lpGetNumElements lp;
                    if num_elements \<noteq> LP_HDR_NUMELE_UNKNOWN then
                      (if \<not> delete then lpSetNumElements lp (num_elements + 1)
                       else lpSetNumElements lp ((num_elements + (2 ^ 32 - 1)) mod 2 ^ 32))
                    else Some lp }
             else Some lp);
          lp \<leftarrow> lpSetTotalBytes lp new_listpack_bytes;
          Some (lp, newp) }"

text \<open>
  The inner \<open>None\<close> is the NULL result for a listpack that would grow beyond \<^verbatim>\<open>UINT32_MAX\<close> bytes. \<open>eleint\<close> is an
  encoded integer, its length is \<^verbatim>\<open>size\<close>.
\<close>

definition lpInsert ::
  "realloc_fn \<Rightarrow> bytes \<Rightarrow> bytes option \<Rightarrow> bytes option \<Rightarrow> nat \<Rightarrow> lp_where \<Rightarrow> (bytes \<times> nat option) option option" where
  "lpInsert ra lp elestr eleint p whr =
     do { let delete = (elestr = None \<and> eleint = None);
          let whr = (if delete then LP_REPLACE else whr);
          (p, whr) \<leftarrow>
            (if whr = LP_AFTER then do { p \<leftarrow> lpSkip lp p; ASSERT_INTEGRITY lp p; Some (p, LP_BEFORE) }
             else Some (p, whr));
          let poff = p;
          let (enc, enclen) =
            (case elestr of
               Some s \<Rightarrow>
                 (let (enctype, intenc, enclen) = lpEncodeGetType s
                  in (if enctype = LP_ENCODING_INT then take enclen intenc else lpEncodeString s, enclen))
             | None \<Rightarrow> (case eleint of Some e \<Rightarrow> (e, length e) | None \<Rightarrow> ([], 0)));
          let backlen = (if \<not> delete then lpEncodeBacklen enclen else []);
          let backlen_size = length backlen;
          old_listpack_bytes \<leftarrow> lpGetTotalBytes lp;
          replaced_len \<leftarrow>
            (if whr = LP_REPLACE then
               do { n \<leftarrow> lpCurrentEncodedSizeUnsafe lp p;
                    let n = (n + lpEncodeBacklenBytes n) mod 2 ^ 32;
                    ASSERT_INTEGRITY_LEN lp p n;
                    Some n }
             else Some 0);
          let new_listpack_bytes = old_listpack_bytes + enclen + backlen_size - replaced_len;
          if new_listpack_bytes > UINT32_MAX then Some None
          else map_option Some
                 (lpInsert_place ra lp poff whr delete enc backlen old_listpack_bytes replaced_len new_listpack_bytes) }"

definition lpInsertString ::
  "realloc_fn \<Rightarrow> bytes \<Rightarrow> bytes \<Rightarrow> nat \<Rightarrow> lp_where \<Rightarrow> (bytes \<times> nat option) option option" where
  "lpInsertString ra lp s p whr = lpInsert ra lp (Some s) None p whr"

definition lpInsertInteger ::
  "realloc_fn \<Rightarrow> bytes \<Rightarrow> int \<Rightarrow> nat \<Rightarrow> lp_where \<Rightarrow> (bytes \<times> nat option) option option" where
  "lpInsertInteger ra lp lval p whr =
     (let (intenc, enclen) = lpEncodeIntegerGetType lval
      in lpInsert ra lp None (Some (take enclen intenc)) p whr)"

text \<open>The callers below pass NULL for \<^verbatim>\<open>newp\<close>.\<close>

definition no_newp :: "(bytes \<times> nat option) option option \<Rightarrow> bytes option option" where
  "no_newp r = map_option (map_option fst) r"

definition lpAppend :: "realloc_fn \<Rightarrow> bytes \<Rightarrow> bytes \<Rightarrow> bytes option option" where
  "lpAppend ra lp ele =
     do { listpack_bytes \<leftarrow> lpGetTotalBytes lp;
          if listpack_bytes = 0 then None
          else no_newp (lpInsert ra lp (Some ele) None (listpack_bytes - 1) LP_BEFORE) }"

definition lpAppendInteger :: "realloc_fn \<Rightarrow> bytes \<Rightarrow> int \<Rightarrow> bytes option option" where
  "lpAppendInteger ra lp lval =
     do { listpack_bytes \<leftarrow> lpGetTotalBytes lp;
          if listpack_bytes = 0 then None
          else no_newp (lpInsertInteger ra lp lval (listpack_bytes - 1) LP_BEFORE) }"

definition lpPrepend :: "realloc_fn \<Rightarrow> bytes \<Rightarrow> bytes \<Rightarrow> bytes option option" where
  "lpPrepend ra lp s =
     do { p \<leftarrow> lpFirst lp;
          case p of
            None \<Rightarrow> lpAppend ra lp s
          | Some p \<Rightarrow> no_newp (lpInsert ra lp (Some s) None p LP_BEFORE) }"

definition lpPrependInteger :: "realloc_fn \<Rightarrow> bytes \<Rightarrow> int \<Rightarrow> bytes option option" where
  "lpPrependInteger ra lp lval =
     do { p \<leftarrow> lpFirst lp;
          case p of
            None \<Rightarrow> lpAppendInteger ra lp lval
          | Some p \<Rightarrow> no_newp (lpInsertInteger ra lp lval p LP_BEFORE) }"

definition lpReplace :: "realloc_fn \<Rightarrow> bytes \<Rightarrow> nat \<Rightarrow> bytes \<Rightarrow> (bytes \<times> nat option) option option" where
  "lpReplace ra lp p s = lpInsert ra lp (Some s) None p LP_REPLACE"

definition lpReplaceInteger :: "realloc_fn \<Rightarrow> bytes \<Rightarrow> nat \<Rightarrow> int \<Rightarrow> (bytes \<times> nat option) option option" where
  "lpReplaceInteger ra lp p lval = lpInsertInteger ra lp lval p LP_REPLACE"

definition lpDelete :: "realloc_fn \<Rightarrow> bytes \<Rightarrow> nat \<Rightarrow> (bytes \<times> nat option) option option" where
  "lpDelete ra lp p = lpInsert ra lp None None p LP_REPLACE"

section \<open>Batches and ranges\<close>

text \<open>What \<open>lpBatchInsert\<close> prepares for one entry: the type, the bytes of an integer, the length and the
  reverse length.\<close>

fun lpBatch_enc :: "elem \<Rightarrow> lp_enctype \<times> bytes \<times> nat \<times> bytes" where
  "lpBatch_enc (EStr s) =
     (let (enctype, intenc, enclen) = lpEncodeGetType s in (enctype, intenc, enclen, lpEncodeBacklen enclen))"
| "lpBatch_enc (EInt v) =
     (let (intenc, enclen) = lpEncodeIntegerGetType v
      in (LP_ENCODING_INT, intenc, enclen, lpEncodeBacklen enclen))"

fun lpBatch_write :: "bytes \<Rightarrow> nat \<Rightarrow> nat option \<Rightarrow> elem list \<Rightarrow> (bytes \<times> nat option) option" where
  "lpBatch_write lp dst newp [] = Some (lp, newp)"
| "lpBatch_write lp dst newp (ent # rest) =
     do { let (enctype, intenc, enclen, backlen) = lpBatch_enc ent;
          lp \<leftarrow> (if enctype = LP_ENCODING_INT then mem_write lp dst (take enclen intenc)
                else (case ent of EStr s \<Rightarrow> mem_write lp dst (lpEncodeString s) | EInt _ \<Rightarrow> None));
          lp \<leftarrow> mem_write lp (dst + enclen) backlen;
          lpBatch_write lp (dst + enclen + length backlen) (Some dst) rest }"

definition lpBatchInsert ::
  "realloc_fn \<Rightarrow> bytes \<Rightarrow> nat \<Rightarrow> lp_where \<Rightarrow> elem list \<Rightarrow> (bytes \<times> nat option) option option" where
  "lpBatchInsert ra lp p whr entries =
     do { c_assert (whr = LP_BEFORE \<or> whr = LP_AFTER);
          c_assert (length entries > 0);
          p \<leftarrow> (if whr = LP_AFTER then do { p \<leftarrow> lpSkip lp p; ASSERT_INTEGRITY lp p; Some p } else Some p);
          let addedlen = sum_list (map (\<lambda>e. let (_, _, enclen, backlen) = lpBatch_enc e in enclen + length backlen) entries);
          old_listpack_bytes \<leftarrow> lpGetTotalBytes lp;
          let new_listpack_bytes = old_listpack_bytes + addedlen;
          if new_listpack_bytes > UINT32_MAX then Some None
          else do {
            let poff = p;
            let dst = poff;
            let lp = (if new_listpack_bytes > old_listpack_bytes \<and> new_listpack_bytes > length lp
                      then ra lp new_listpack_bytes else lp);
            lp \<leftarrow> (if poff > old_listpack_bytes then None
                  else mem_move lp (dst + addedlen) dst (old_listpack_bytes - poff));
            (lp, newp) \<leftarrow> lpBatch_write lp dst None entries;
            num_elements \<leftarrow> lpGetNumElements lp;
            lp \<leftarrow>
              (if num_elements \<noteq> LP_HDR_NUMELE_UNKNOWN then
                 (if int (length entries) > int LP_HDR_NUMELE_UNKNOWN - int num_elements
                  then lpSetNumElements lp LP_HDR_NUMELE_UNKNOWN
                  else lpSetNumElements lp (num_elements + length entries))
               else Some lp);
            lp \<leftarrow> lpSetTotalBytes lp new_listpack_bytes;
            Some (Some (lp, newp)) } }"

text \<open>The number of entries is an \<^verbatim>\<open>unsigned long\<close> here and an \<^verbatim>\<open>unsigned int\<close> in \<open>lpBatchInsert\<close>, so it is narrowed.\<close>

definition lpBatchAppend :: "realloc_fn \<Rightarrow> bytes \<Rightarrow> elem list \<Rightarrow> bytes option option" where
  "lpBatchAppend ra lp entries =
     do { listpack_bytes \<leftarrow> lpGetTotalBytes lp;
          if listpack_bytes = 0 then None
          else no_newp (lpBatchInsert ra lp (listpack_bytes - 1) LP_BEFORE (take (length entries mod 2 ^ 32) entries)) }"

fun lpDeleteRange_loop :: "bytes \<Rightarrow> nat \<Rightarrow> nat \<Rightarrow> nat \<Rightarrow> nat \<Rightarrow> (nat \<times> nat) option" where
  "lpDeleteRange_loop lp bytes 0 deleted tail = Some (deleted, tail)"
| "lpDeleteRange_loop lp bytes (Suc num) deleted tail =
     do { tail \<leftarrow> lpSkip lp tail;
          e \<leftarrow> rd lp tail;
          if e = LP_EOF then Some (deleted + 1, tail)
          else do { lpAssertValidEntry lp bytes tail; lpDeleteRange_loop lp bytes num (deleted + 1) tail } }"

text \<open>The listpack and the new \<^verbatim>\<open>*p\<close>.\<close>

definition lpDeleteRangeWithEntry :: "realloc_fn \<Rightarrow> bytes \<Rightarrow> nat \<Rightarrow> nat \<Rightarrow> (bytes \<times> nat option) option" where
  "lpDeleteRangeWithEntry ra lp p num =
     do { bytes \<leftarrow> lpBytes lp;
          let first = p;
          if num = 0 then Some (lp, Some p)
          else do {
            (deleted, tail) \<leftarrow> lpDeleteRange_loop lp bytes num 0 first;
            lp \<leftarrow> (if tail > bytes then None else mem_move lp first tail (bytes - tail));
            lp \<leftarrow> lpSetTotalBytes lp (bytes - (tail - first));
            numele \<leftarrow> lpGetNumElements lp;
            lp \<leftarrow> (if numele \<noteq> LP_HDR_NUMELE_UNKNOWN
                  then lpSetNumElements lp (nat ((int numele - int deleted) mod 2 ^ 32)) else Some lp);
            lp \<leftarrow> lpShrinkToFit ra lp;
            e \<leftarrow> rd lp first;
            Some (lp, if e = LP_EOF then None else Some first) } }"

definition lpDeleteRange :: "realloc_fn \<Rightarrow> bytes \<Rightarrow> int \<Rightarrow> nat \<Rightarrow> bytes option" where
  "lpDeleteRange ra lp index num =
     do { numele \<leftarrow> lpGetNumElements lp;
          if num = 0 then Some lp
          else do {
            p \<leftarrow> lpSeek lp index;
            case p of
              None \<Rightarrow> Some lp
            | Some p \<Rightarrow>
                (let index = (if numele \<noteq> LP_HDR_NUMELE_UNKNOWN \<and> index < 0 then int numele + index else index) in
                 if numele \<noteq> LP_HDR_NUMELE_UNKNOWN \<and> nat ((int numele - index) mod 2 ^ 64) \<le> num then
                   do { lp \<leftarrow> mem_write lp p [LP_EOF];
                        lp \<leftarrow> lpSetTotalBytes lp (p + 1);
                        lp \<leftarrow> lpSetNumElements lp (nat (index mod 2 ^ 32));
                        lpShrinkToFit ra lp }
                 else map_option fst (lpDeleteRangeWithEntry ra lp p num)) } }"

fun lpBatchDelete_loop :: "bytes \<Rightarrow> nat \<Rightarrow> nat \<Rightarrow> nat list \<Rightarrow> (bytes \<times> nat) option" where
  "lpBatchDelete_loop lp lp_end dst [] = Some (lp, dst)"
| "lpBatchDelete_loop lp lp_end dst (skip # ps) =
     do { e \<leftarrow> rd lp skip;
          c_assert (e \<noteq> LP_EOF);
          keep_start \<leftarrow> lpSkip lp skip;
          if ps \<noteq> [] \<and> keep_start = hd ps then lpBatchDelete_loop lp lp_end dst ps
          else do {
            let keep_end = (if ps \<noteq> [] then hd ps else lp_end);
            c_assert (keep_end > keep_start);
            let bytes_to_keep = keep_end - keep_start;
            lp \<leftarrow> mem_move lp dst keep_start bytes_to_keep;
            lpBatchDelete_loop lp lp_end (dst + bytes_to_keep) ps } }"

definition lpBatchDelete :: "realloc_fn \<Rightarrow> bytes \<Rightarrow> nat list \<Rightarrow> bytes option" where
  "lpBatchDelete ra lp ps =
     (if length ps = 0 then Some lp
      else do {
        let dst = hd ps;
        total_bytes \<leftarrow> lpGetTotalBytes lp;
        let lp_end = total_bytes;
        e \<leftarrow> (if lp_end = 0 then None else rd lp (lp_end - 1));
        c_assert (e = LP_EOF);
        (lp, dst) \<leftarrow> lpBatchDelete_loop lp lp_end dst ps;
        let deleted_bytes = nat ((int lp_end - int dst) mod 2 ^ 64);
        let total_bytes = nat ((int total_bytes - int deleted_bytes) mod 2 ^ 64);
        e \<leftarrow> (if total_bytes = 0 then None else rd lp (total_bytes - 1));
        c_assert (e = LP_EOF);
        lp \<leftarrow> lpSetTotalBytes lp total_bytes;
        numele \<leftarrow> lpGetNumElements lp;
        lp \<leftarrow> (if numele \<noteq> LP_HDR_NUMELE_UNKNOWN
              then lpSetNumElements lp (nat ((int numele - int (length ps)) mod 2 ^ 32)) else Some lp);
        lpShrinkToFit ra lp })"

text \<open>
  \<open>same\<close> says that the two arguments are the same pointer. The result is NULL or the merged listpack with
  \<open>append\<close>, which says whether it is stored in \<^verbatim>\<open>*first\<close>.
\<close>

definition lpMerge :: "realloc_fn \<Rightarrow> bytes option \<Rightarrow> bytes option \<Rightarrow> bool \<Rightarrow> (bool \<times> bytes) option option" where
  "lpMerge ra first second same =
     (case (first, second) of
        (Some first, Some second) \<Rightarrow>
          if same then Some None
          else do {
            first_bytes \<leftarrow> lpBytes first;
            (first_len, first) \<leftarrow> lpLength first;
            second_bytes \<leftarrow> lpBytes second;
            (second_len, second) \<leftarrow> lpLength second;
            let append = (first_bytes \<ge> second_bytes);
            let (target, target_bytes, source, source_bytes) =
              (if append then (first, first_bytes, second, second_bytes)
               else (second, second_bytes, first, first_bytes));
            let lpbytes = nat ((int first_bytes + int second_bytes - int LP_HDR_SIZE - 1) mod 2 ^ 64);
            c_assert (lpbytes < UINT32_MAX);
            let lplength = first_len + second_len;
            let lplength = (if lplength < 65535 then lplength else 65535);
            let target = ra target lpbytes;
            target \<leftarrow>
              (if append then
                 (if source_bytes < LP_HDR_SIZE \<or> target_bytes = 0 then None
                  else do { bs \<leftarrow> mem_read source LP_HDR_SIZE (source_bytes - LP_HDR_SIZE);
                            mem_write target (target_bytes - 1) bs })
               else
                 (if target_bytes < LP_HDR_SIZE \<or> source_bytes = 0 then None
                  else do { target \<leftarrow> mem_move target (source_bytes - 1) LP_HDR_SIZE (target_bytes - LP_HDR_SIZE);
                            bs \<leftarrow> mem_read source 0 (source_bytes - 1);
                            mem_write target 0 bs }));
            target \<leftarrow> lpSetNumElements target lplength;
            target \<leftarrow> lpSetTotalBytes target lpbytes;
            Some (Some (append, target)) }
      | _ \<Rightarrow> Some None)"

section \<open>Validation of a whole listpack\<close>

text \<open>\<open>entry_cb\<close> gets the entry's offset and the number of elements in the header, and threads its user data.
  The result is the position where the loop stops and the count, or \<open>None\<close> inside when it rejects.\<close>

function lpValidate_loop ::
  "(nat \<Rightarrow> nat \<Rightarrow> 'u \<Rightarrow> bool \<times> 'u) option \<Rightarrow> bytes \<Rightarrow> nat \<Rightarrow> nat \<Rightarrow> nat option \<Rightarrow> nat \<Rightarrow> 'u \<Rightarrow>
   (nat option \<times> nat) option option" where
  "lpValidate_loop cb lp bytes numele p count user =
     (case p of
        None \<Rightarrow> Some (Some (None, count))
      | Some prev \<Rightarrow>
          (case rd lp prev of
             None \<Rightarrow> None
           | Some e \<Rightarrow>
               if e = LP_EOF then Some (Some (p, count))
               else
                 (case lpValidateNext lp p bytes of
                    None \<Rightarrow> None
                  | Some (ok, p) \<Rightarrow>
                      if \<not> ok then Some None
                      else
                        (let (ok, user) = (case cb of Some f \<Rightarrow> f prev numele user | None \<Rightarrow> (True, user)) in
                         if \<not> ok then Some None
                         else lpValidate_loop cb lp bytes numele p (count + 1) user))))"
  by pat_completeness auto
termination
proof (relation "measure (\<lambda>(cb, lp, bytes, numele, p, count, user). case p of None \<Rightarrow> 0 | Some q \<Rightarrow> Suc (bytes - q))", goal_cases)
  case 1
  then show ?case by simp
next
  case (2 cb lp bytes numele p count user prev e r ok q b c d)
  then show ?case by (cases q) (auto dest: lpValidateNext_measure)
qed

declare lpValidate_loop.simps [simp del]

definition lpValidateIntegrity ::
  "(nat \<Rightarrow> nat \<Rightarrow> 'u \<Rightarrow> bool \<times> 'u) option \<Rightarrow> bytes \<Rightarrow> nat \<Rightarrow> bool \<Rightarrow> 'u \<Rightarrow> bool option" where
  "lpValidateIntegrity cb lp sz deep user =
     (if sz < LP_HDR_SIZE + 1 then Some False
      else do {
        bytes \<leftarrow> lpGetTotalBytes lp;
        if bytes \<noteq> sz then Some False
        else do {
          e \<leftarrow> rd lp (sz - 1);
          if e \<noteq> LP_EOF then Some False
          else if \<not> deep then Some True
          else do {
            numele \<leftarrow> lpGetNumElements lp;
            r \<leftarrow> lpValidate_loop cb lp bytes numele (Some LP_HDR_SIZE) 0 user;
            case r of
              None \<Rightarrow> Some False
            | Some (p, count) \<Rightarrow>
                Some (p = Some (sz - 1) \<and> (numele = LP_HDR_NUMELE_UNKNOWN \<or> numele = count)) } } })"

end
