(* ===== verification/Listpack_Walk.thy ===== *)
theory Listpack_Walk
  imports Listpack
begin

text \<open>
  The representation predicate of the listpack and the operations that do not change it: \<open>lpFirst\<close>,
  \<open>lpNext\<close>, \<open>lpPrev\<close>, \<open>lpLast\<close>, \<open>lpSeek\<close>, \<open>lpLength\<close>, \<open>lpFind\<close>, \<open>lpCompare\<close> and the validation. On a
  represented listpack no assertion fails, no read leaves the buffer, and the pointers returned are
  the positions of the list's elements.
\<close>

section \<open>Representation\<close>

definition entry :: "bytes \<Rightarrow> bytes" where
  "entry c = c @ lpEncodeBacklen (length c)"

definition body :: "bytes list \<Rightarrow> bytes" where
  "body cs = concat (map entry cs)"

text \<open>The offset of the entry that follows the entries \<open>xs\<close>.\<close>

definition pos :: "bytes list \<Rightarrow> nat" where
  "pos xs = LP_HDR_SIZE + length (body xs)"

text \<open>The count in the header is exact unless it is the marker for an unknown count.\<close>

definition num_ok :: "nat \<Rightarrow> bytes list \<Rightarrow> bool" where
  "num_ok num cs \<longleftrightarrow> num \<le> LP_HDR_NUMELE_UNKNOWN \<and> (num \<noteq> LP_HDR_NUMELE_UNKNOWN \<longrightarrow> num = length cs)"

definition lp_bytes :: "nat \<Rightarrow> bytes list \<Rightarrow> bytes" where
  "lp_bytes num cs = le_bytes 4 (pos cs + 1) @ le_bytes 2 num @ body cs @ [LP_EOF]"

definition lp_repr :: "bytes \<Rightarrow> bytes list \<Rightarrow> bool" where
  "lp_repr lp cs \<longleftrightarrow>
     (\<exists>num slack. lp = lp_bytes num cs @ slack \<and> num_ok num cs) \<and>
     pos cs + 1 \<le> UINT32_MAX \<and> (\<forall>c \<in> set cs. chunk_ok c)"

lemma body_simps [simp]:
  "body [] = []" "body (c # cs) = entry c @ body cs" "body (xs @ ys) = body xs @ body ys"
  by (simp_all add: body_def)

lemma length_entry: "length (entry c) = length c + lpEncodeBacklenBytes (length c)"
  by (simp add: entry_def)

lemma pos_simps [simp]:
  "pos [] = 6" "pos (xs @ ys) = pos xs + length (body ys)"
  by (simp_all add: pos_def)

lemma pos_ge: "6 \<le> pos xs"
  by (simp add: pos_def)

lemma chunk_okD:
  assumes "chunk_ok c"
  shows "c \<noteq> []" "0 < length c" "hd c \<noteq> LP_EOF" "lpCurrentEncodedSizeUnsafe c 0 = Some (length c)"
    "rd c 0 = Some (hd c)"
  using assms by (auto simp: chunk_ok_def rd_def hd_conv_nth)

lemma length_entry_gt: "chunk_ok c \<Longrightarrow> length c < length (entry c)"
  using lpEncodeBacklenBytes_range(1) [of "length c"] by (simp add: length_entry)

lemma lp_reprE:
  assumes "lp_repr lp cs"
  obtains num slack where "lp = lp_bytes num cs @ slack" "num_ok num cs" "pos cs + 1 \<le> UINT32_MAX"
    "\<forall>c \<in> set cs. chunk_ok c"
  using assms by (auto simp: lp_repr_def)

lemma length_lp_bytes [simp]: "length (lp_bytes num cs) = pos cs + 1"
  by (simp add: lp_bytes_def pos_def)

section \<open>Header\<close>

lemma lpGetTotalBytes_eq:
  assumes "pos cs + 1 \<le> UINT32_MAX"
  shows "lpGetTotalBytes (lp_bytes num cs @ slack) = Some (pos cs + 1)"
  using assms by (simp add: lpGetTotalBytes_def lp_bytes_def mem_simps le_val_le_bytes)

lemma lpGetNumElements_eq:
  assumes "num_ok num cs"
  shows "lpGetNumElements (lp_bytes num cs @ slack) = Some num"
proof -
  have "mem_read (le_bytes 4 (pos cs + 1) @ le_bytes 2 num @ body cs @ [LP_EOF] @ slack) 4 2 = Some (le_bytes 2 num)"
    by (rule mem_read_append) simp_all
  then show ?thesis using assms by (simp add: lpGetNumElements_def lp_bytes_def le_val_le_bytes num_ok_def)
qed

lemma lp_repr_total: "lp_repr lp cs \<Longrightarrow> lpGetTotalBytes lp = Some (pos cs + 1)"
  by (elim lp_reprE) (simp add: lpGetTotalBytes_eq)

lemma lp_repr_lpBytes: "lp_repr lp cs \<Longrightarrow> lpBytes lp = Some (pos cs + 1)"
  by (simp add: lpBytes_def lp_repr_total)

lemma lp_repr_num: "lp_repr lp cs \<Longrightarrow> \<exists>num. lpGetNumElements lp = Some num \<and> num_ok num cs"
  by (elim lp_reprE) (auto simp: lpGetNumElements_eq)

section \<open>Positions\<close>

text \<open>The buffer split at a boundary and at an entry.\<close>

lemma lp_split:
  assumes "lp_repr lp (xs @ ys)"
  obtains A S where "lp = A @ body ys @ LP_EOF # S" "length A = pos xs"
proof -
  obtain num slack where "lp = lp_bytes num (xs @ ys) @ slack" using assms by (rule lp_reprE)
  then have "lp = (le_bytes 4 (pos (xs @ ys) + 1) @ le_bytes 2 num @ body xs) @ body ys @ LP_EOF # slack"
    by (simp add: lp_bytes_def)
  moreover have "length (le_bytes 4 (pos (xs @ ys) + 1) @ le_bytes 2 num @ body xs) = pos xs"
    by (simp add: pos_def)
  ultimately show thesis using that by blast
qed

lemma lp_repr_rd:
  assumes "lp_repr lp (xs @ ys)"
  shows "rd lp (pos xs) = Some (if ys = [] then LP_EOF else hd (hd ys))"
proof -
  obtain A S where lp: "lp = A @ body ys @ LP_EOF # S" "length A = pos xs" using lp_split [OF assms] .
  show ?thesis
  proof (cases ys)
    case Nil
    then show ?thesis using lp rd_append [of "pos xs" A] by simp
  next
    case (Cons c cs)
    then have "c \<noteq> []" using assms by (auto simp: lp_repr_def dest: chunk_okD)
    then show ?thesis using lp Cons rd_append [of "pos xs" A "hd c" "tl c @ lpEncodeBacklen (length c) @ body cs @ LP_EOF # S"]
      by (cases c) (auto simp: entry_def)
  qed
qed

lemma lp_repr_chunk: "lp_repr lp (xs @ c # ys) \<Longrightarrow> chunk_ok c"
  by (auto simp: lp_repr_def)

lemma lp_repr_rd_entry: "lp_repr lp (xs @ c # ys) \<Longrightarrow> rd lp (pos xs) = Some (hd c)"
  using lp_repr_rd [of lp xs "c # ys"] by simp

lemma lp_repr_rd_EOF: "lp_repr lp cs \<Longrightarrow> rd lp (pos cs) = Some LP_EOF"
  using lp_repr_rd [of lp cs "[]"] by simp

lemma lp_repr_size:
  assumes "lp_repr lp (xs @ c # ys)"
  shows "lpCurrentEncodedSizeUnsafe lp (pos xs) = Some (length c)"
proof -
  obtain A S where lp: "lp = A @ body (c # ys) @ LP_EOF # S" "length A = pos xs" using lp_split [OF assms] .
  show ?thesis
    using lpCurrentEncodedSizeUnsafe_mono [OF chunk_okD(4) [OF lp_repr_chunk [OF assms]], of A] lp
    by (simp add: entry_def)
qed

lemma lp_repr_lpSkip:
  assumes "lp_repr lp (xs @ c # ys)"
  shows "lpSkip lp (pos xs) = Some (pos (xs @ [c]))"
  using lp_repr_size [OF assms] by (simp add: lpSkip_def length_entry)

lemma lp_repr_length_c:
  assumes "lp_repr lp (xs @ c # ys)"
  shows "pos xs + length (entry c) + length (body ys) + 1 \<le> UINT32_MAX"
  using assms by (auto simp: lp_repr_def)

lemma lp_repr_backlen:
  assumes "lp_repr lp (xs @ c # ys)"
  shows "lpDecodeBacklen lp (pos xs + length (entry c) - 1) = Some (length c)"
proof -
  obtain A S where lp: "lp = A @ body (c # ys) @ LP_EOF # S" "length A = pos xs" using lp_split [OF assms] .
  have "length c < 2 ^ 35" using lp_repr_length_c [OF assms] by (simp add: length_entry)
  then show ?thesis
    using lpDecodeBacklen_eq [of "length c" "pos xs + length (entry c) - 1" "A @ c" "body ys @ LP_EOF # S"] lp
    by (simp add: entry_def add.assoc)
qed

lemma chunk_ok_lenbytes:
  assumes "chunk_ok c"
  shows "0 < lpCurrentEncodedSizeBytes (hd c)" "lpCurrentEncodedSizeBytes (hd c) \<le> length c"
proof -
  note c = chunk_okD [OF assms]
  have "0 < lpCurrentEncodedSizeBytes (hd c) \<and> lpCurrentEncodedSizeBytes (hd c) \<le> length c"
    using c(2,3,4) unfolding lpCurrentEncodedSizeUnsafe_def c(5) Option.bind.bind_lunit lpCurrentEncodedSizeBytes_def lp_enc
    by (auto simp: Suc_le_eq LP_ENCODING_12BIT_STR_LEN_def LP_ENCODING_32BIT_STR_LEN_def rd_def mem_read_def
        split: if_splits Option.bind_splits)
  then show "0 < lpCurrentEncodedSizeBytes (hd c)" "lpCurrentEncodedSizeBytes (hd c) \<le> length c" by auto
qed

section \<open>Validation of one entry\<close>

lemma lp_repr_validate:
  assumes "lp_repr lp (xs @ ys)"
  shows "lpValidateNext lp (Some (pos xs)) (pos (xs @ ys) + 1) =
    Some (True, if ys = [] then None else Some (pos (xs @ [hd ys])))"
proof (cases ys)
  case Nil
  then show ?thesis using lp_repr_rd [OF assms] pos_ge [of xs] by (simp add: lpValidateNext_def OUT_OF_RANGE_def)
next
  case (Cons c cs)
  note r = assms [unfolded Cons]
  have c: "chunk_ok c" using lp_repr_chunk [OF r] .
  have l: "lpCurrentEncodedSizeBytes (hd c) < length (entry c)"
    using chunk_ok_lenbytes(2) [OF c] length_entry_gt [OF c] by simp
  have m: "(length c + lpEncodeBacklenBytes (length c)) mod 2 ^ 64 = length (entry c)"
    using lp_repr_length_c [OF r] by (simp add: length_entry)
  have b: "lpDecodeBacklen lp (pos xs + (length c + lpEncodeBacklenBytes (length c)) - 1) = Some (length c)"
    using lp_repr_backlen [OF r] by (simp add: length_entry)
  have o: "\<not> OUT_OF_RANGE (pos (xs @ c # cs) + 1) (pos xs + k)" if "k \<le> length (entry c)" for k
    using that pos_ge [of xs] by (simp add: OUT_OF_RANGE_def)
  show ?thesis unfolding Cons lpValidateNext_def
    using lp_repr_rd_entry [OF r] lp_repr_size [OF r] chunk_okD(3) [OF c] chunk_ok_lenbytes(1) [OF c] l b m
      o [of 0] o [of "lpCurrentEncodedSizeBytes (hd c)"] o [of "length (entry c)"]
    by (simp add: length_entry)
qed

lemma lp_repr_assert_valid:
  assumes "lp_repr lp (xs @ ys)" "n = pos (xs @ ys) + 1"
  shows "lpAssertValidEntry lp n (pos xs) = Some ()"
  using lp_repr_validate [OF assms(1)] assms(2) by (simp add: lpAssertValidEntry_def)

section \<open>Traversal\<close>

lemma lp_repr_lpFirst:
  assumes "lp_repr lp cs"
  shows "lpFirst lp = Some (if cs = [] then None else Some (pos []))"
proof (cases cs)
  case Nil
  then show ?thesis using lp_repr_rd [of lp "[]" cs] assms by (simp add: lpFirst_def)
next
  case (Cons c ds)
  then have "hd c \<noteq> LP_EOF" using assms by (auto simp: lp_repr_def dest: chunk_okD)
  then show ?thesis
    using Cons lp_repr_rd [of lp "[]" cs] lp_repr_assert_valid [of lp "[]" cs] lp_repr_lpBytes [OF assms] assms
    by (simp add: lpFirst_def)
qed

lemma lp_repr_lpNext:
  assumes "lp_repr lp (xs @ c # ys)"
  shows "lpNext lp (pos xs) = Some (if ys = [] then None else Some (pos (xs @ [c])))"
proof -
  have r: "lp_repr lp ((xs @ [c]) @ ys)" using assms by simp
  have "ys \<noteq> [] \<Longrightarrow> hd (hd ys) \<noteq> LP_EOF" using assms by (cases ys) (auto simp: lp_repr_def dest: chunk_okD)
  then show ?thesis
    using lp_repr_lpSkip [OF assms] lp_repr_rd [OF r] lp_repr_assert_valid [OF r] lp_repr_lpBytes [OF r]
    by (simp add: lpNext_def)
qed

lemma lp_repr_lpPrev:
  assumes "lp_repr lp (xs @ c # ys)"
  shows "lpPrev lp (pos (xs @ [c])) = Some (Some (pos xs))"
proof -
  have c: "chunk_ok c" using lp_repr_chunk [OF assms] .
  let ?n = "length (entry c)"
  have n: "0 < ?n" using length_entry_gt [OF c] by (rule le_less_trans [OF le0])
  have lt: "?n < 2 ^ 64" using lp_repr_length_c [OF assms] by simp
  have p: "pos (xs @ [c]) = pos xs + ?n" by simp
  have d: "(length c + lpEncodeBacklenBytes (length c) + (2 ^ 64 - 1)) mod 2 ^ 64 = ?n - 1"
    using n lt by (simp add: length_entry [symmetric] mod_if)
  have m: "(length c + lpEncodeBacklenBytes (length c)) mod 2 ^ 64 = ?n" using lt by (simp add: length_entry)
  have b: "lpDecodeBacklen lp (pos xs + ?n - 1) = Some (length c)" by (rule lp_repr_backlen [OF assms])
  have a: "lpAssertValidEntry lp (pos (xs @ c # ys) + 1) (pos xs) = Some ()"
    by (rule lp_repr_assert_valid [OF assms refl])
  have ne: "pos xs + ?n \<noteq> 6" "pos xs + ?n \<noteq> 0" using n pos_ge [of xs] by linarith+
  have s: "\<not> ?n - 1 > pos xs + ?n - 1" "pos xs + ?n - 1 - (?n - 1) = pos xs" using n by auto
  show ?thesis
    unfolding lpPrev_def p if_not_P [OF ne(1)] if_not_P [OF ne(2)] Let_def b Option.bind.bind_lunit m
    using d s a lp_repr_lpBytes [OF assms] by (simp add: length_entry)
qed

lemma lp_repr_lpPrev_first: "lpPrev lp (pos []) = Some None"
  by (simp add: lpPrev_def)

lemma lp_repr_lpLast:
  assumes "lp_repr lp cs"
  shows "lpLast lp = Some (if cs = [] then None else Some (pos (butlast cs)))"
proof (cases cs rule: rev_cases)
  case Nil
  then show ?thesis using lp_repr_total [OF assms] lp_repr_lpPrev_first [of lp] by (simp add: lpLast_def)
next
  case (snoc xs c)
  have "lp_repr lp (xs @ c # [])" using assms snoc by simp
  from lp_repr_lpPrev [OF this] show ?thesis using lp_repr_total [OF assms] snoc by (simp add: lpLast_def)
qed

section \<open>Indices\<close>

text \<open>The pointer to the element with a given index, \<open>None\<close> (NULL) past the end.\<close>

definition ptr :: "bytes list \<Rightarrow> nat \<Rightarrow> nat option" where
  "ptr cs i = (if i < length cs then Some (pos (take i cs)) else None)"

lemma split_nth: "i < length cs \<Longrightarrow> cs = take i cs @ cs ! i # drop (Suc i) cs"
  by (rule id_take_nth_drop)

lemma lp_repr_next_ptr:
  assumes "lp_repr lp cs" "i < length cs"
  shows "lpNext lp (pos (take i cs)) = Some (ptr cs (Suc i))"
proof -
  have "lp_repr lp (take i cs @ cs ! i # drop (Suc i) cs)" using assms split_nth by metis
  from lp_repr_lpNext [OF this] show ?thesis
    using assms(2) by (auto simp: ptr_def take_Suc_conv_app_nth)
qed

lemma lp_repr_prev_ptr:
  assumes "lp_repr lp cs" "i \<le> length cs"
  shows "lpPrev lp (pos (take i cs)) = Some (if i = 0 then None else ptr cs (i - 1))"
proof (cases i)
  case 0
  then show ?thesis using lp_repr_lpPrev_first [of lp] by simp
next
  case (Suc j)
  then have "lp_repr lp (take j cs @ cs ! j # drop (Suc j) cs)" using assms split_nth [of j cs] by simp
  from lp_repr_lpPrev [OF this] show ?thesis
    using assms(2) Suc by (simp add: ptr_def take_Suc_conv_app_nth)
qed

lemma lp_repr_first_ptr: "lp_repr lp cs \<Longrightarrow> lpFirst lp = Some (ptr cs 0)"
  by (simp add: lp_repr_lpFirst ptr_def)

lemma lp_repr_last_ptr: "lp_repr lp cs \<Longrightarrow> lpLast lp = Some (if cs = [] then None else ptr cs (length cs - 1))"
  by (simp add: lp_repr_lpLast ptr_def butlast_conv_take)

section \<open>Length\<close>

lemma lpLength_loop_eq:
  assumes "lp_repr lp cs" "i \<le> length cs"
  shows "lpLength_loop lp n (ptr cs i) = Some (n + (length cs - i))"
  using assms(2)
proof (induction "length cs - i" arbitrary: i n)
  case 0
  then have "ptr cs i = None" by (simp add: ptr_def)
  then show ?case using 0 by (simp add: lpLength_loop.simps)
next
  case (Suc k)
  then have i: "i < length cs" by simp
  then have "lpLength_loop lp n (ptr cs i) = lpLength_loop lp (n + 1) (ptr cs (Suc i))"
    using lp_repr_next_ptr [OF assms(1) i] by (subst lpLength_loop.simps) (simp add: ptr_def)
  also have "\<dots> = Some (n + 1 + (length cs - Suc i))" using Suc i by (intro Suc.hyps) auto
  finally show ?case using i by simp
qed

lemma lpSetNumElements_eq:
  "lpSetNumElements (lp_bytes num cs @ slack) v = Some (lp_bytes v cs @ slack)"
proof -
  have "mem_write (le_bytes 4 (pos cs + 1) @ le_bytes 2 num @ body cs @ [LP_EOF] @ slack) 4 (le_bytes 2 v) =
      Some (le_bytes 4 (pos cs + 1) @ le_bytes 2 v @ body cs @ [LP_EOF] @ slack)"
    by (rule mem_write_append) simp_all
  then show ?thesis by (simp add: lpSetNumElements_def lp_bytes_def)
qed

text \<open>\<open>lpLength\<close> returns the number of elements also when the header does not know it, and then stores it if
  it fits.\<close>

lemma lp_repr_lpLength:
  assumes "lp_repr lp cs"
  obtains lp' where "lpLength lp = Some (length cs, lp')" "lp_repr lp' cs" "length lp' = length lp"
    "length cs < 65535 \<Longrightarrow> lpGetNumElements lp' = Some (length cs)"
proof -
  obtain num slack where lp: "lp = lp_bytes num cs @ slack" "num_ok num cs" "pos cs + 1 \<le> UINT32_MAX"
    "\<forall>c \<in> set cs. chunk_ok c" using assms by (rule lp_reprE)
  have n: "lpGetNumElements lp = Some num" using lp lpGetNumElements_eq by simp
  show thesis
  proof (cases "num = 65535")
    case False
    then have "num = length cs" using lp(2) by (simp add: num_ok_def)
    then show thesis using that [of lp] n False assms by (simp add: lpLength_def)
  next
    case True
    let ?lp' = "if length cs < 65535 then lp_bytes (length cs) cs @ slack else lp"
    have "lpLength lp = Some (length cs, ?lp')"
      using n True lp_repr_first_ptr [OF assms] lpLength_loop_eq [OF assms, of 0 0] lp(1) lpSetNumElements_eq
      by (simp add: lpLength_def)
    moreover have "lp_repr ?lp' cs" using assms lp by (auto simp: lp_repr_def num_ok_def)
    moreover have "length cs < 65535 \<Longrightarrow> lpGetNumElements ?lp' = Some (length cs)"
      using lpGetNumElements_eq [of "length cs" cs slack] by (simp add: num_ok_def)
    ultimately show thesis using that [of ?lp'] lp(1) by simp
  qed
qed

section \<open>Seeking\<close>

lemma lpSeek_forward_eq:
  assumes "lp_repr lp cs"
  shows "lpSeek_forward lp k (ptr cs i) = Some (ptr cs (i + k))"
proof (induction k arbitrary: i)
  case 0
  then show ?case by simp
next
  case (Suc k)
  show ?case
  proof (cases "i < length cs")
    case True
    then show ?thesis using lp_repr_next_ptr [OF assms True] Suc [of "Suc i"] by (simp add: ptr_def)
  next
    case False
    then show ?thesis by (simp add: ptr_def)
  qed
qed

lemma lpSeek_backward_eq:
  assumes "lp_repr lp cs" "i < length cs"
  shows "lpSeek_backward lp k (ptr cs i) = Some (if k \<le> i then ptr cs (i - k) else None)"
  using assms(2)
proof (induction k arbitrary: i)
  case 0
  then show ?case by simp
next
  case (Suc k)
  have p: "lpPrev lp (pos (take i cs)) = Some (if i = 0 then None else ptr cs (i - 1))"
    using lp_repr_prev_ptr [OF assms(1), of i] Suc.prems by simp
  show ?case
  proof (cases i)
    case 0
    then show ?thesis using p Suc.prems by (simp add: ptr_def)
  next
    case (Suc j)
    then have "j < length cs" using Suc.prems by simp
    from Suc.IH [OF this] show ?thesis using p Suc Suc.prems by (simp add: ptr_def)
  qed
qed

definition seek_index :: "bytes list \<Rightarrow> int \<Rightarrow> nat option" where
  "seek_index cs index =
     (let i = (if index < 0 then index + int (length cs) else index)
      in if 0 \<le> i \<and> i < int (length cs) then Some (nat i) else None)"

lemma lp_repr_lpSeek:
  assumes "lp_repr lp cs"
  shows "lpSeek lp index = Some (case seek_index cs index of None \<Rightarrow> None | Some i \<Rightarrow> ptr cs i)"
proof -
  obtain num where num: "lpGetNumElements lp = Some num" "num_ok num cs" using lp_repr_num [OF assms] by blast
  have f: "do { ele \<leftarrow> lpFirst lp; lpSeek_forward lp k ele } = Some (ptr cs k)" for k
    using lp_repr_first_ptr [OF assms] lpSeek_forward_eq [OF assms, of k 0] by simp
  have b: "do { ele \<leftarrow> lpLast lp; lpSeek_backward lp k ele } =
      Some (if k < length cs then ptr cs (length cs - 1 - k) else None)" for k
    using lp_repr_last_ptr [OF assms] lpSeek_backward_eq [OF assms, of "length cs - 1" k]
    by (cases cs) (auto simp: Suc_le_eq less_Suc_eq_le)
  have z: "ptr cs k = None" if "length cs \<le> k" for k using that by (simp add: ptr_def)
  show ?thesis
  proof (cases "num = 65535")
    case False
    then have n: "num = length cs" using num(2) by (simp add: num_ok_def)
    show ?thesis using num(1) False f b unfolding n lpSeek_def seek_index_def
      by (auto simp: Let_def nat_diff_distrib' nat_less_iff intro!: arg_cong [of _ _ "ptr cs"])
  next
    case True
    then show ?thesis using num(1) f b z unfolding lpSeek_def seek_index_def
      by (auto simp: Let_def nat_less_iff nat_le_iff le_nat_iff intro!: arg_cong [of _ _ "ptr cs"])
  qed
qed

section \<open>Elements\<close>

text \<open>Reading an entry yields an integer of 64 bits or the rest of the entry after its length field.\<close>

lemma lp_int_ret_None: "\<exists>v. lp_int_ret u s m None = Some (IsInt v)"
  by (simp add: lp_int_ret_def Let_def)

lemma lp_int_ret_int64:
  assumes "lp_int_ret u s m None = Some (IsInt v)" "u < s \<and> u < 2 ^ 63 \<or> s \<le> u \<and> m - u < 2 ^ 63"
  shows "int64 v"
  using assms by (auto simp: lp_int_ret_def int64_def Let_def split: if_splits)

lemma lp_int_ret_small:
  assumes "lp_int_ret u s m None = Some (IsInt v)" "u < 2 ^ 63" "m < 2 ^ 63"
  shows "int64 v"
  using assms(1) by (rule lp_int_ret_int64) (use assms(2,3) in linarith)

lemma chunk_get:
  assumes "chunk_ok c"
  obtains (int) v where "lpGet c 0 None = Some (IsInt v)" "chunk_val c = EInt v"
  | (str) q n where "lpGet c 0 None = Some (InLp q n)" "q + n = length c" "chunk_val c = EStr (drop q c)"
proof -
  note c = chunk_okD [OF assms]
  have "(\<exists>v. lpGet c 0 None = Some (IsInt v)) \<or> (\<exists>q n. lpGet c 0 None = Some (InLp q n) \<and> q + n = length c)"
  proof (cases "unat (hd c) = 240")
    case True
    obtain k where "LP_ENCODING_32BIT_STR_LEN c 0 = Some k"
      using c(4) True unfolding lpCurrentEncodedSizeUnsafe_def c(5) Option.bind.bind_lunit lp_enc by auto
    then show ?thesis using chunk_ok_32 [OF assms True] True
      unfolding lpGet_def lpGetWithBuf_def c(5) Option.bind.bind_lunit lp_enc by simp
  next
    case False
    have len: "unat (hd c) \<in> {192..<224} \<Longrightarrow> length c = 2" "unat (hd c) = 241 \<Longrightarrow> length c = 3"
      "unat (hd c) = 242 \<Longrightarrow> length c = 4" "unat (hd c) = 243 \<Longrightarrow> length c = 5" "unat (hd c) = 244 \<Longrightarrow> length c = 9"
      using c(4) unfolding lpCurrentEncodedSizeUnsafe_def c(5) Option.bind.bind_lunit lp_enc by auto
    have str: "unat (hd c) \<in> {128..<192} \<Longrightarrow> \<exists>n. LP_ENCODING_6BIT_STR_LEN c 0 = Some n \<and> 1 + n = length c"
      "unat (hd c) \<in> {224..<240} \<Longrightarrow> \<exists>n. LP_ENCODING_12BIT_STR_LEN c 0 = Some n \<and> 2 + n = length c"
      using c(4) unfolding lpCurrentEncodedSizeUnsafe_def c(5) Option.bind.bind_lunit lp_enc by auto
    show ?thesis
      using False len str lp_int_ret_None unfolding lpGet_def lpGetWithBuf_def c(5) Option.bind.bind_lunit lp_enc
      by (auto simp: rd_def mem_read_def)
  qed
  then show thesis using int str by (fastforce simp: chunk_val_def)
qed

lemma lp_repr_lpGet:
  assumes "lp_repr lp (xs @ c # ys)"
  obtains (int) v where "lpGet lp (pos xs) None = Some (IsInt v)" "chunk_val c = EInt v"
  | (str) q s where "lpGet lp (pos xs) None = Some (InLp q (length s))" "chunk_val c = EStr s"
      "mem_read lp q (length s) = Some s"
proof -
  obtain A S where lp: "lp = A @ body (c # ys) @ LP_EOF # S" "length A = pos xs" using lp_split [OF assms] .
  define B where "B = lpEncodeBacklen (length c) @ body ys @ LP_EOF # S"
  have l: "lp = A @ c @ B" using lp by (simp add: entry_def B_def)
  from lp_repr_chunk [OF assms] show thesis
  proof (cases rule: chunk_get)
    case (int v)
    then show thesis using that(1) lpGet_mono [OF int(1), of A B] l lp(2) by simp
  next
    case (str q n)
    have "lp = (A @ take q c) @ drop q c @ B" using l append_take_drop_id [of q c] by (metis append_assoc)
    then have "mem_read lp (pos xs + q) (length (drop q c)) = Some (drop q c)"
      using str(2) lp(2) by (simp only:) (rule mem_read_append; simp)
    then show thesis using that(2) [of "pos xs + q" "drop q c"] str lpGet_mono [OF str(1), of A B] l lp(2) by simp
  qed
qed

text \<open>The element an entry shows to the outside is a string; comparing and searching compare with it.\<close>

definition chunk_str :: "bytes \<Rightarrow> bytes" where
  "chunk_str c = elem_str (chunk_val c)"

lemma chunk_val_int64:
  assumes "chunk_ok c" "chunk_val c = EInt v"
  shows "int64 v"
proof -
  note c = chunk_okD [OF assms(1)]
  have g: "lpGet c 0 None = Some (IsInt v)"
    using assms(1) by (cases rule: chunk_get) (use assms(2) in auto)
  have sz: "unat (hd c) \<notin> {245..<255}"
    using c(2,4) unfolding lpCurrentEncodedSizeUnsafe_def c(5) Option.bind.bind_lunit lp_enc by (auto split: if_splits)
  have b13: "unat b1 OR push_bit 8 (unat (hd c AND 0x1F)) < 2 ^ 13" for b1 :: byte
  proof -
    have "unat b1 < 256" "unat (hd c) mod 32 < 32" by simp_all
    then have "unat b1 + 256 * (unat (hd c) mod 32) < 8192" by linarith
    then show ?thesis using shift_or_add [of "unat b1" 8] and_lo(3) [of "hd c"] by simp
  qed
  note g = g [unfolded lpGet_def lpGetWithBuf_def c(5) Option.bind.bind_lunit lp_enc]
  have tagged: "int64 v" if "mem_read c 1 n = Some bs" "n \<in> {2, 3, 4, 8}"
    "lp_int_ret (le_val bs) (2 ^ (8 * n - 1)) (2 ^ (8 * n) - 1) None = Some (IsInt v)" for n bs
  proof -
    have "le_val bs < 256 ^ n"
      using le_val_less [of bs] that(1) by (auto simp: mem_read_def split: if_splits)
    then show ?thesis by (intro lp_int_ret_int64 [OF that(3)]) (use that(2) in auto)
  qed
  consider (a) "unat (hd c) < 128" | (b) "192 \<le> unat (hd c)" "unat (hd c) < 224"
    | (t) "unat (hd c) \<in> {241, 242, 243, 244}" | (d) "unat (hd c) \<in> {128..<192} \<union> {224..<241}"
    using sz c(3) [unfolded lp_enc] unat_byte_less [of "hd c"] by (simp, linarith)
  then show ?thesis
  proof cases
    case a
    then show ?thesis using g and_lo(1) [of "hd c"] by (auto intro: lp_int_ret_small)
  next
    case b
    then obtain b1 :: byte where "lp_int_ret (unat b1 OR push_bit 8 (unat (hd c AND 0x1F))) 4096 8191 None = Some (IsInt v)"
      using g by (auto split: Option.bind_splits)
    then show ?thesis by (rule lp_int_ret_small) (use b13 [of b1] in \<open>simp_all add: less_trans\<close>)
  next
    case t
    then consider "unat (hd c) = 241" | "unat (hd c) = 242" | "unat (hd c) = 243" | "unat (hd c) = 244" by blast
    then show ?thesis
      by cases (use g in \<open>auto split: Option.bind_splits intro: tagged [of 2] tagged [of 3] tagged [of 4] tagged [of 8]\<close>)
  next
    case d
    then consider "128 \<le> unat (hd c)" "unat (hd c) < 192" | "224 \<le> unat (hd c)" "unat (hd c) < 240" | "unat (hd c) = 240"
      by (simp, linarith)
    then show ?thesis by cases (use g in \<open>simp_all split: Option.bind_splits\<close>)
  qed
qed

section \<open>Comparing and searching\<close>

lemma string2ll_chunk:
  assumes "chunk_ok c" "chunk_val c = EInt v"
  shows "string2ll s = Some v \<longleftrightarrow> chunk_str c = s"
  using chunk_val_int64 [OF assms] assms(2) string2ll_sound [of s v] string2ll_show_int [of v]
  by (auto simp: chunk_str_def)

lemma lp_repr_lpCompare:
  assumes "lp_repr lp (xs @ c # ys)"
  shows "lpCompare lp (pos xs) s = Some (chunk_str c = s)"
proof -
  have c: "chunk_ok c" using lp_repr_chunk [OF assms] .
  have e: "rd lp (pos xs) = Some (hd c)" "hd c \<noteq> LP_EOF"
    using lp_repr_rd_entry [OF assms] chunk_okD(3) [OF c] by auto
  show ?thesis using assms
  proof (cases rule: lp_repr_lpGet)
    case (int v)
    then show ?thesis using e string2ll_chunk [OF c int(2), of s]
      by (auto simp: lpCompare_def lpStringToInt64_eq split: option.split)
  next
    case (str q t)
    then show ?thesis using e by (auto simp: lpCompare_def chunk_str_def)
  qed
qed

lemma lp_repr_getWithSize:
  assumes "lp_repr lp (xs @ c # ys)" "lpGet lp (pos xs) None = Some r"
  shows "lpGetWithSize lp (pos xs) None = Some (r, Some (length (entry c)))"
proof -
  obtain A S where lp: "lp = A @ body (c # ys) @ LP_EOF # S" "length A = pos xs" using lp_split [OF assms(1)] .
  define B where "B = lpEncodeBacklen (length c) @ body ys @ LP_EOF # S"
  have l: "lp = A @ c @ B" using lp by (simp add: entry_def B_def)
  have "map_option fst (lpGetWithSize lp (pos xs) None) = Some r"
    using lpGetWithSize_fst [of lp "pos xs" None] assms(2) by (simp add: lpGet_def)
  then obtain sz where sz: "lpGetWithSize lp (pos xs) None = Some (r, sz)" by auto
  from lpGetWithSize_snd [OF this l lp(2) [symmetric] lp_repr_chunk [OF assms(1)]] sz show ?thesis
    by (simp add: length_entry)
qed

text \<open>The element a search finds: the entries compared are the one after \<open>k\<close> more and then every
  \<open>skip + 1\<close>-th.\<close>

fun lp_search :: "(bytes \<Rightarrow> bool) \<Rightarrow> nat \<Rightarrow> nat \<Rightarrow> bytes list \<Rightarrow> nat option" where
  "lp_search P skip k [] = None"
| "lp_search P skip 0 (c # cs) = (if P c then Some 0 else map_option Suc (lp_search P skip skip cs))"
| "lp_search P skip (Suc k) (c # cs) = map_option Suc (lp_search P skip k cs)"

lemma lp_search_less: "lp_search P skip k zs = Some j \<Longrightarrow> j < length zs"
  by (induction P skip k zs arbitrary: j rule: lp_search.induct) (auto split: if_splits)

lemma lp_search_sound:
  assumes "lp_search P skip k cs = Some j"
  shows "j < length cs \<and> P (cs ! j) \<and> k \<le> j \<and> (j - k) mod Suc skip = 0 \<and>
    (\<forall>i < j. k \<le> i \<longrightarrow> (i - k) mod Suc skip = 0 \<longrightarrow> \<not> P (cs ! i))"
  using assms
proof (induction P skip k cs arbitrary: j rule: lp_search.induct)
  case (2 P skip c cs)
  show ?case
  proof (cases "P c")
    case True
    then show ?thesis using 2 by auto
  next
    case False
    then obtain i where i: "lp_search P skip skip cs = Some i" "j = Suc i" using 2 by auto
    note IH = 2(1) [OF False i(1)]
    have m: "Suc l mod Suc skip = 0 \<Longrightarrow> skip \<le> l \<and> (l - skip) mod Suc skip = 0" for l
      by (metis Suc_leI diff_Suc_Suc le_mod_geq linorder_not_less mod_less nat.distinct(1) not_less_eq)
    have "Suc i mod Suc skip = 0" using IH i by (metis Suc_diff_le diff_Suc_Suc le_mod_geq Suc_le_mono)
    moreover have "\<not> P ((c # cs) ! l)" if "l < j" "l mod Suc skip = 0" for l
    proof (cases l)
      case 0
      then show ?thesis using False by simp
    next
      case (Suc l')
      then show ?thesis using IH that i m [of l'] by auto
    qed
    ultimately show ?thesis using IH i by auto
  qed
next
  case (3 P skip k c cs)
  then obtain i where i: "lp_search P skip k cs = Some i" "j = Suc i" by auto
  show ?case using 3(1) [OF i(1)] i by (auto simp: nth_Cons split: nat.split)
qed simp

lemma lp_search_None:
  assumes "lp_search P skip k cs = None" "i < length cs" "k \<le> i" "(i - k) mod Suc skip = 0"
  shows "\<not> P (cs ! i)"
  using assms
proof (induction P skip k cs arbitrary: i rule: lp_search.induct)
  case (2 P skip c cs)
  show ?case
  proof (cases i)
    case 0
    then show ?thesis using 2 by (auto split: if_splits)
  next
    case (Suc l)
    then have "skip \<le> l \<and> (l - skip) mod Suc skip = 0" using 2(5)
      by (metis Suc_leI diff_Suc_Suc diff_zero le_mod_geq linorder_not_less mod_less nat.distinct(1) not_less_eq)
    then show ?thesis using 2 Suc by (auto split: if_splits)
  qed
next
  case (3 P skip k c cs)
  then show ?case by (cases i) auto
qed simp

text \<open>
  What a comparison callback has to do for the search to be correct: for a user argument in a good state it
  decides a predicate on the entry and leaves the argument in a good state.
\<close>

locale lp_cmp =
  fixes cmp :: "bytes \<Rightarrow> 'u \<Rightarrow> lp_ret \<Rightarrow> (bool \<times> 'u) option"
    and good :: "'u \<Rightarrow> bool"
    and matches :: "bytes \<Rightarrow> bool"
  assumes cmp_decides: "lp_repr lp (xs @ c # ys) \<Longrightarrow> lpGet lp (pos xs) None = Some r \<Longrightarrow> good u \<Longrightarrow>
    \<exists>u'. cmp lp u r = Some (matches c, u') \<and> good u'"
begin

lemma round_eq:
  assumes "lp_repr lp (xs @ c # ys)" "good u" "n = pos (xs @ c # ys) + 1"
  shows "\<exists>u' es'. good u' \<and> lpFind_round cmp skip lp n (pos xs) k u es =
    Some (if k = 0 \<and> matches c then (True, pos xs, k, u', es')
          else (False, pos (xs @ [c]), if k = 0 then skip else k - 1, u', es'))"
proof (cases "k = 0")
  case False
  then show ?thesis using lp_repr_lpSkip [OF assms(1)] assms(2) by (auto simp: lpFind_round_def)
next
  case True
  have a: "pos xs + length (entry c) < n" using assms(3) by simp
  obtain r where r: "lpGet lp (pos xs) None = Some r" using assms(1) by (cases rule: lp_repr_lpGet) auto
  obtain u' where "cmp lp u r = Some (matches c, u')" "good u'" using cmp_decides [OF assms(1) r assms(2)] by blast
  then show ?thesis using True lp_repr_getWithSize [OF assms(1) r] a pos_ge [of xs]
    by (cases r) (auto simp: lpFind_round_def Let_def)
qed

lemma loop_eq:
  assumes "lp_repr lp (xs @ c # ys)" "good u" "n = pos (xs @ c # ys) + 1"
  shows "lpFind_loop cmp skip lp n (pos xs) k u es =
    Some (map_option (\<lambda>j. pos (xs @ take j (c # ys))) (lp_search matches skip k (c # ys)))"
  using assms
proof (induction ys arbitrary: xs c k u es)
  case Nil
  obtain u' es' where r: "lpFind_round cmp skip lp n (pos xs) k u es =
      Some (if k = 0 \<and> matches c then (True, pos xs, k, u', es')
            else (False, pos (xs @ [c]), if k = 0 then skip else k - 1, u', es'))"
    using round_eq [OF Nil.prems] by blast
  have "lp_repr lp ((xs @ [c]) @ [])" using Nil.prems by simp
  note s = lp_repr_rd [OF this] lp_repr_assert_valid [OF this, of n]
  show ?case using s r Nil.prems(3) by (subst lpFind_loop.simps) (cases k; simp)
next
  case (Cons d zs)
  obtain u' es' where r: "good u'" "lpFind_round cmp skip lp n (pos xs) k u es =
      Some (if k = 0 \<and> matches c then (True, pos xs, k, u', es')
            else (False, pos (xs @ [c]), if k = 0 then skip else k - 1, u', es'))"
    using round_eq [OF Cons.prems] by blast
  have rp: "lp_repr lp ((xs @ [c]) @ d # zs)" using Cons.prems by simp
  have d: "hd d \<noteq> LP_EOF" using chunk_okD(3) [OF lp_repr_chunk [OF rp]] .
  have v: "(if n \<le> pos (xs @ [c]) + 8 then lpAssertValidEntry lp n (pos (xs @ [c]))
      else c_assert (6 \<le> pos (xs @ [c]) \<and> pos (xs @ [c]) < n)) = Some ()"
    using lp_repr_assert_valid [OF rp, of n] Cons.prems(3) pos_ge [of "xs @ [c]"] by simp
  have IH: "lpFind_loop cmp skip lp n (pos (xs @ [c])) k' u' es' =
      Some (map_option (\<lambda>j. pos (xs @ [c] @ take j (d # zs))) (lp_search matches skip k' (d # zs)))" for k'
    using Cons.IH [OF rp r(1)] Cons.prems(3) by simp
  show ?case
    using lp_repr_rd_entry [OF rp] d v IH r(2)
    by (subst lpFind_loop.simps) (cases k; auto simp: option.map_comp comp_def)
qed

lemma find_eq:
  assumes "lp_repr lp cs" "good u" "p = None \<and> i = 0 \<or> p = ptr cs i \<and> i < length cs"
  shows "lpFindCbInternal cmp skip lp p u =
    Some (Option.bind (lp_search matches skip 0 (drop i cs)) (\<lambda>j. ptr cs (i + j)))"
proof (cases "i < length cs")
  case False
  then show ?thesis using assms lp_repr_first_ptr [OF assms(1)] lp_repr_lpBytes [OF assms(1)]
    by (auto simp: lpFindCbInternal_def ptr_def)
next
  case True
  have r: "lp_repr lp (take i cs @ cs ! i # drop (Suc i) cs)" using assms(1) split_nth [OF True] by simp
  have d: "drop i cs = cs ! i # drop (Suc i) cs" using True by (simp add: Cons_nth_drop_Suc)
  have "lpFindCbInternal cmp skip lp p u = lpFind_loop cmp skip lp (pos cs + 1) (pos (take i cs)) 0 u 123456789"
    using assms(3) True lp_repr_first_ptr [OF assms(1)] lp_repr_lpBytes [OF assms(1)]
    by (auto simp: lpFindCbInternal_def ptr_def)
  also have "\<dots> = Some (map_option (\<lambda>j. pos (take i cs @ take j (drop i cs))) (lp_search matches skip 0 (drop i cs)))"
    using loop_eq [OF r assms(2), of "pos cs + 1" skip 0] split_nth [OF True] d by simp
  finally show ?thesis
    using lp_search_less [of matches skip 0 "drop i cs"] by (cases "lp_search matches skip 0 (drop i cs)") (auto simp: ptr_def take_add)
qed

end

section \<open>The comparison of \<open>lpFind\<close>\<close>

definition find_good :: "bytes \<Rightarrow> lpFindArg \<Rightarrow> bool" where
  "find_good s arg \<longleftrightarrow> fa_s arg = s \<and>
     (fa_vencoding arg = 0 \<or> fa_vencoding arg = 255 \<and> string2ll s = None \<or>
      fa_vencoding arg = 1 \<and> string2ll s = Some (fa_vll arg))"

lemma string2ll_long: "32 \<le> length s \<or> length s = 0 \<Longrightarrow> string2ll s = None"
  by (auto simp: string2ll_def)

lemma lpFindCmp_int:
  assumes "find_good s arg"
  shows "\<exists>arg'. lpFindCmp lp arg (IsInt ll) = Some (string2ll s = Some ll, arg') \<and> find_good s arg'"
  using assms string2ll_long [of s]
  by (auto simp: lpFindCmp_def find_good_def lpStringToInt64_eq Let_def split: option.split)

interpretation lpf: lp_cmp lpFindCmp "find_good s" "\<lambda>c. chunk_str c = s" for s
proof
  fix lp xs c ys r u
  assume a: "lp_repr lp (xs @ c # ys)" "lpGet lp (pos xs) None = Some r" "find_good s u"
  from a(1) show "\<exists>u'. lpFindCmp lp u r = Some (chunk_str c = s, u') \<and> find_good s u'"
  proof (cases rule: lp_repr_lpGet)
    case (int v)
    then show ?thesis
      using a lpFindCmp_int [OF a(3), of lp v] string2ll_chunk [OF lp_repr_chunk [OF a(1)] int(2), of s] by simp
  next
    case (str q t)
    then show ?thesis using a by (auto simp: lpFindCmp_def find_good_def chunk_str_def)
  qed
qed

lemma find_good_init: "find_good s \<lparr>fa_s = s, fa_vencoding = 0, fa_vll = 0\<rparr>"
  by (simp add: find_good_def)

lemma lp_repr_lpFind:
  assumes "lp_repr lp cs" "p = None \<and> i = 0 \<or> p = ptr cs i \<and> i < length cs"
  shows "lpFind lp p s skip =
    Some (Option.bind (lp_search (\<lambda>c. chunk_str c = s) skip 0 (drop i cs)) (\<lambda>j. ptr cs (i + j)))"
  unfolding lpFind_def by (rule lpf.find_eq [OF assms(1) find_good_init assms(2)])

section \<open>Properties of the traversal\<close>

lemma lp_repr_small: "lp_repr [12, 0, 0, 0, 2, 0, 0x81, 65, 2, 5, 1, 0xFF] [[0x81, 65], [5]]"
proof -
  have b: "body [[0x81, 65], [5]] = [0x81, 65, 2, 5, 1]"
    by (simp add: entry_def lpEncodeBacklen_def)
  have "chunk_ok [0x81, 65]" "chunk_ok [5]" by (simp_all add: chunk_ok_def enc_eval)
  moreover have "[12, 0, 0, 0, 2, 0, 0x81, 65, 2, 5, 1, 0xFF] = lp_bytes 2 [[0x81, 65], [5]]"
    unfolding lp_bytes_def pos_def b by (simp add: le_bytes_numeral)
  moreover have "pos [[0x81, 65], [5]] = 11" unfolding pos_def b by simp
  ultimately show ?thesis unfolding lp_repr_def
    by (intro conjI exI [of _ 2] exI [of _ "[]"]) (simp_all add: num_ok_def)
qed

text \<open>(C33) Walking the listpack visits its elements in order: \<open>lpFirst\<close> and \<open>lpLast\<close> point to the ends, \<open>lpNext\<close> and
  \<open>lpPrev\<close> to the neighbours, with NULL at the ends, and no assertion fails on the way.\<close>

theorem lp_traversal:
  assumes "lp_repr lp cs" "i < length cs"
  shows "lpFirst lp = Some (ptr cs 0) \<and> lpLast lp = Some (ptr cs (length cs - 1)) \<and>
    lpNext lp (the (ptr cs i)) = Some (ptr cs (i + 1)) \<and>
    lpPrev lp (the (ptr cs i)) = Some (if i = 0 then None else ptr cs (i - 1))"
  using lp_repr_first_ptr [OF assms(1)] lp_repr_last_ptr [OF assms(1)] lp_repr_next_ptr [OF assms]
    lp_repr_prev_ptr [OF assms(1), of i] assms(2)
  by (auto simp: ptr_def)

theorem lp_traversal_witness:
  "lpNext [12, 0, 0, 0, 2, 0, 0x81, 65, 2, 5, 1, 0xFF] 6 = Some (Some 9)"
  using lp_traversal [OF lp_repr_small, of 0]
  by (simp add: ptr_def pos_def entry_def lpEncodeBacklenBytes_def)

text \<open>(C32) \<open>lpSeek\<close> with an index from either end, whether or not the header knows the number of elements, returns
  the element, or NULL when the index is out of range.\<close>

theorem lpSeek_correct:
  assumes "lp_repr lp cs"
  shows "lpSeek lp index =
    Some (if 0 \<le> index \<and> index < int (length cs) then ptr cs (nat index)
          else if - int (length cs) \<le> index \<and> index < 0 then ptr cs (nat (index + int (length cs)))
          else None)"
  unfolding lp_repr_lpSeek [OF assms] seek_index_def by (auto simp: Let_def)

theorem lpSeek_correct_witness:
  "lpSeek [12, 0, 0, 0, 2, 0, 0x81, 65, 2, 5, 1, 0xFF] (-1) = Some (Some 9)"
  using lpSeek_correct [OF lp_repr_small, of "-1"]
  by (simp add: ptr_def pos_def entry_def lpEncodeBacklenBytes_def)

text \<open>\<open>lpLength\<close> returns the number of elements, also when the header has the marker for an unknown count;
  then it scans, stores the count if it fits and leaves the elements alone.\<close>

lemma lpLength_correct:
  assumes "lp_repr lp cs"
  shows "\<exists>lp'. lpLength lp = Some (length cs, lp') \<and> lp_repr lp' cs \<and> length lp' = length lp \<and>
    (length cs < 65535 \<longrightarrow> lpGetNumElements lp' = Some (length cs))"
  using lp_repr_lpLength [OF assms] by metis

text \<open>(C31) \<open>lpFind\<close> from the start with \<open>skip\<close> entries skipped after each comparison returns the first compared
  element equal to the string, integers being compared in decimal notation, and NULL if there is none.\<close>

theorem lpFind_correct:
  assumes "lp_repr lp cs"
  shows "\<exists>r. lpFind lp None s skip = Some r \<and>
    (case r of
       None \<Rightarrow> \<forall>i < length cs. i mod Suc skip = 0 \<longrightarrow> chunk_str (cs ! i) \<noteq> s
     | Some p \<Rightarrow> \<exists>j < length cs. Some p = ptr cs j \<and> j mod Suc skip = 0 \<and> chunk_str (cs ! j) = s \<and>
         (\<forall>i < j. i mod Suc skip = 0 \<longrightarrow> chunk_str (cs ! i) \<noteq> s))"
proof -
  let ?P = "\<lambda>c. chunk_str c = s"
  have f: "lpFind lp None s skip = Some (Option.bind (lp_search ?P skip 0 cs) (ptr cs))"
    using lp_repr_lpFind [OF assms, of None 0 s skip] by simp
  show ?thesis
  proof (cases "lp_search ?P skip 0 cs")
    case None
    then show ?thesis using f lp_search_None [OF None] by auto
  next
    case (Some j)
    then show ?thesis using f lp_search_sound [OF Some] by (auto simp: ptr_def)
  qed
qed

theorem lpFind_correct_witness:
  "\<exists>p. lpFind [12, 0, 0, 0, 2, 0, 0x81, 65, 2, 5, 1, 0xFF] None [53] 0 = Some (Some p)"
proof -
  have "chunk_str [5] = [53]"
    using lpGet_7bit(1) [of 5] by (simp add: chunk_str_def chunk_val_def show_int_def show_nat_small)
  then have n: "\<not> (\<forall>i < length [[0x81, 65], [5]]. i mod Suc 0 = 0 \<longrightarrow> chunk_str ([[0x81, 65], [5]] ! i) \<noteq> [53])"
    by (auto intro!: exI [of _ 1])
  obtain r where r: "lpFind [12, 0, 0, 0, 2, 0, 0x81, 65, 2, 5, 1, 0xFF] None [53] 0 = Some r"
    "r = None \<Longrightarrow> \<forall>i < length [[0x81, 65], [5]]. i mod Suc 0 = 0 \<longrightarrow> chunk_str ([[0x81, 65], [5]] ! i) \<noteq> [53]"
    using lpFind_correct [OF lp_repr_small, of "[53]" 0] by (auto split: option.splits)
  with n show ?thesis by (cases r) auto
qed

end
