(* ===== verification/Listpack_Validate.thy ===== *)
theory Listpack_Validate
  imports Listpack_Walk
begin

text \<open>
  The integrity check a listpack from an untrusted source (an RDB file, a \<^verbatim>\<open>RESTORE\<close> payload) has to pass.
  It reads no byte outside the buffer whatever the bytes are, accepts every listpack the operations
  build, and what it accepts is a sequence of well-formed entries that fills the buffer.
\<close>

section \<open>Completeness\<close>

lemma lpValidate_loop_eq:
  assumes "lp_repr lp (xs @ ys)" "n = pos (xs @ ys) + 1"
  shows "lpValidate_loop None lp n num (Some (pos xs)) k u = Some (Some (Some (pos (xs @ ys)), k + length ys))"
  using assms
proof (induction ys arbitrary: xs k)
  case Nil
  then show ?case using lp_repr_rd [OF Nil(1)] by (subst lpValidate_loop.simps) simp
next
  case (Cons c ys)
  have r: "lp_repr lp ((xs @ [c]) @ ys)" using Cons.prems by simp
  have "lpValidate_loop None lp n num (Some (pos xs)) k u = lpValidate_loop None lp n num (Some (pos (xs @ [c]))) (k + 1) u"
    using lp_repr_rd_entry [OF Cons.prems(1)] chunk_okD(3) [OF lp_repr_chunk [OF Cons.prems(1)]]
      lp_repr_validate [OF Cons.prems(1)] Cons.prems(2)
    by (subst lpValidate_loop.simps) simp
  then show ?case using Cons.IH [OF r] Cons.prems(2) by simp
qed

lemma lpValidateIntegrity_complete:
  assumes "lp_repr lp cs"
  shows "lpValidateIntegrity None lp (pos cs + 1) deep u = Some True"
proof -
  obtain num where num: "lpGetNumElements lp = Some num" "num_ok num cs" using lp_repr_num [OF assms] by blast
  have "lpValidate_loop None lp (pos cs + 1) num (Some 6) 0 u = Some (Some (Some (pos cs), length cs))"
    using lpValidate_loop_eq [of lp "[]" cs "pos cs + 1" num 0 u] assms by simp
  then show ?thesis
    using num lp_repr_total [OF assms] lp_repr_rd_EOF [OF assms] pos_ge [of cs]
    by (auto simp: lpValidateIntegrity_def num_ok_def)
qed

section \<open>Safety\<close>

lemma lpCurrentEncodedSizeUnsafe_safe:
  assumes "p + lpCurrentEncodedSizeBytes e \<le> length lp" "rd lp p = Some e"
  shows "\<exists>n. lpCurrentEncodedSizeUnsafe lp p = Some n"
  using assms unfolding lpCurrentEncodedSizeUnsafe_def lpCurrentEncodedSizeBytes_def assms(2) Option.bind.bind_lunit lp_enc
  by (auto simp: LP_ENCODING_6BIT_STR_LEN_def LP_ENCODING_12BIT_STR_LEN_def LP_ENCODING_32BIT_STR_LEN_def
      rd_def mem_read_def split: if_splits)

lemma lpDecodeBacklen_loop_safe:
  assumes "p < length lp" "28 \<le> shift + 7 * p"
  shows "\<exists>v. lpDecodeBacklen_loop lp p val shift = Some v"
  using assms
proof (induction "28 - shift" arbitrary: p val shift rule: less_induct)
  case less
  show ?case
  proof (cases "lp ! p AND 128 = 0 \<or> shift + 7 > 28")
    case True
    then show ?thesis using less.prems by (subst lpDecodeBacklen_loop.simps) (auto simp: rd_def Let_def)
  next
    case False
    then have "p \<noteq> 0" using less.prems by auto
    then show ?thesis
      using False less.prems less.hyps [of "shift + 7" "p - 1"]
      by (subst lpDecodeBacklen_loop.simps) (auto simp: rd_def Let_def)
  qed
qed

lemma lpValidateNext_safe:
  assumes "n \<le> length lp"
  shows "lpValidateNext lp (Some p) n \<noteq> None"
proof (cases "OUT_OF_RANGE n p")
  case True
  then show ?thesis by (auto simp: lpValidateNext_def)
next
  case False
  then have p: "6 \<le> p" "p < length lp" using assms by (auto simp: OUT_OF_RANGE_def)
  then have e: "rd lp p = Some (lp ! p)" by (simp add: rd_def)
  show ?thesis
  proof (cases "lp ! p = LP_EOF \<or> lpCurrentEncodedSizeBytes (lp ! p) = 0 \<or> OUT_OF_RANGE n (p + lpCurrentEncodedSizeBytes (lp ! p))")
    case True
    then show ?thesis using False e by (auto simp: lpValidateNext_def Let_def)
  next
    case F: False
    then have "p + lpCurrentEncodedSizeBytes (lp ! p) \<le> length lp" using assms p by (auto simp: OUT_OF_RANGE_def)
    then obtain m where m: "lpCurrentEncodedSizeUnsafe lp p = Some m"
      using lpCurrentEncodedSizeUnsafe_safe [OF _ e] by blast
    define q where "q = p + (m + lpEncodeBacklenBytes m) - 1"
    have "6 \<le> q" using p lpEncodeBacklenBytes_range(1) [of m] by (simp add: q_def)
    then have "\<not> OUT_OF_RANGE n (Suc q) \<Longrightarrow> \<exists>v. lpDecodeBacklen lp q = Some v"
      using assms by (auto simp: lpDecodeBacklen_def OUT_OF_RANGE_def intro!: lpDecodeBacklen_loop_safe)
    moreover have "Suc q = p + (m + lpEncodeBacklenBytes m)"
      using lpEncodeBacklenBytes_range(1) [of m] by (simp add: q_def)
    moreover have "p + (m + lpEncodeBacklenBytes m) - Suc 0 = q" by (simp add: q_def)
    ultimately show ?thesis using False F e m by (auto simp: lpValidateNext_def Let_def) blast+
  qed
qed

lemma lpValidateNext_range:
  assumes "lpValidateNext lp (Some p) n = Some (True, Some q)"
  shows "6 \<le> p" "p < q" "q \<le> n - 1"
  using assms lpValidateNext_True [OF assms]
  by (auto simp: lpValidateNext_def OUT_OF_RANGE_def split: if_splits)

lemma lpValidate_loop_safe:
  assumes "n \<le> length lp" "p < n"
  shows "\<exists>r. lpValidate_loop cb lp n num (Some p) k u = Some r"
  using assms(2)
proof (induction "n - p" arbitrary: p k u rule: less_induct)
  case less
  obtain ok q where v: "lpValidateNext lp (Some p) n = Some (ok, q)" using lpValidateNext_safe [OF assms(1)] by fastforce
  have e: "rd lp p = Some (lp ! p)" using less.prems assms(1) by (simp add: rd_def)
  obtain ok2 u2 where cb: "(case cb of Some f \<Rightarrow> f p num u | None \<Rightarrow> (True, u)) = (ok2, u2)" by fastforce
  have "\<exists>r. lpValidate_loop cb lp n num q (k + 1) u2 = Some r" if "ok"
  proof (cases q)
    case None
    then show ?thesis by (subst lpValidate_loop.simps) simp
  next
    case (Some y)
    then show ?thesis using less.hyps [of y "k + 1" u2] lpValidateNext_range [of lp p n y] v that by auto
  qed
  then show ?case using e v cb by (subst lpValidate_loop.simps) (auto simp: Let_def)
qed

lemma lpValidateIntegrity_total:
  assumes "sz \<le> length lp"
  shows "\<exists>b. lpValidateIntegrity cb lp sz deep u = Some b"
proof (cases "sz < 7")
  case True
  then show ?thesis by (auto simp: lpValidateIntegrity_def)
next
  case False
  have l: "sz - Suc 0 < length lp" using False assms by linarith
  obtain n num e where v: "lpGetTotalBytes lp = Some n" "lpGetNumElements lp = Some num" "rd lp (sz - 1) = Some e"
    using False assms l by (auto simp: lpGetTotalBytes_def lpGetNumElements_def mem_read_def rd_def)
  obtain r where r: "lpValidate_loop cb lp sz num (Some 6) 0 u = Some r"
    using lpValidate_loop_safe [OF assms, of 6 cb num 0 u] False by auto
  show ?thesis
  proof (cases "n = sz \<and> e = LP_EOF \<and> deep")
    case True
    then show ?thesis using v r by (cases r) (auto simp: lpValidateIntegrity_def)
  next
    case False
    then show ?thesis using v by (cases "n = sz"; cases "e = LP_EOF") (auto simp: lpValidateIntegrity_def)
  qed
qed

section \<open>Soundness\<close>

lemma lpDecodeBacklen_loop_low:
  assumes "lpDecodeBacklen_loop lp p val shift = Some v" "0 < shift" "7 dvd shift"
  shows "v = UINT64_MAX \<or> v mod 128 = val mod 128"
  using assms
proof (induction lp p val shift rule: lpDecodeBacklen_loop.induct)
  case (1 lp p val shift)
  obtain b where b: "rd lp p = Some b" using 1(2) by (subst (asm) lpDecodeBacklen_loop.simps) (auto split: Option.bind_splits)
  have "7 \<le> shift" using 1(3,4) by (auto dest: dvd_imp_le)
  then have "take_bit 7 (val OR push_bit shift x) = take_bit 7 val" for x by (simp add: take_bit_push_bit)
  then have low: "(val OR push_bit shift x) mod 128 = val mod 128" for x by (simp add: take_bit_eq_mod)
  show ?case
    using 1(2) b low 1(1) [OF b refl]
    by (subst (asm) lpDecodeBacklen_loop.simps) (auto simp: Let_def 1 split: if_splits)
qed

lemma lpDecodeBacklen_low:
  assumes "lpDecodeBacklen lp p = Some v" "rd lp p = Some b"
  shows "v = UINT64_MAX \<or> v mod 128 = unat b mod 128"
proof (cases "b AND 128 = 0")
  case True
  then show ?thesis using assms and_lo(1) [of b]
    by (subst (asm) lpDecodeBacklen_def, subst (asm) lpDecodeBacklen_loop.simps) (auto simp: Let_def)
next
  case False
  then have "lpDecodeBacklen_loop lp (p - 1) (unat (b AND 127)) 7 = Some v"
    using assms by (subst (asm) lpDecodeBacklen_def, subst (asm) lpDecodeBacklen_loop.simps) (auto simp: Let_def split: if_splits)
  from lpDecodeBacklen_loop_low [OF this] show ?thesis using and_lo(1) [of b] by simp
qed

text \<open>A 32-bit length close to \<open>2\<^sup>3\<^sup>2\<close> makes the entry size wrap to a small number. The check of the reverse length
  rejects it: the byte it would be read from is part of the length field or the encoding byte.\<close>

lemma wrapped_length_rejected:
  assumes "mem_read lp (p + 1) 4 = Some bs" "le_val bs \<ge> 2 ^ 32 - 5" "rd lp p = Some e" "unat e = 240"
    and "m = (5 + le_val bs) mod 2 ^ 32" "lpDecodeBacklen lp (p + m) = Some v" "(v + 1) mod 2 ^ 64 = m + 1"
  shows False
proof -
  have bs: "length bs = 4" "bs = le_bytes 4 (le_val bs)" "\<And>i. 0 < i \<Longrightarrow> i \<le> 4 \<Longrightarrow> rd lp (p + i) = Some (bs ! (i - 1))"
    using assms(1) by (auto simp: mem_read_def rd_def split: if_splits)
  have lt: "le_val bs < 2 ^ 32" using le_val_less [of bs] bs(1) by simp
  then consider "le_val bs = 4294967291" | "le_val bs = 4294967292" | "le_val bs = 4294967293"
    | "le_val bs = 4294967294" | "le_val bs = 4294967295" using assms(2) by (simp, linarith)
  then have b: "m \<le> 4 \<and> (\<exists>b. rd lp (p + m) = Some b \<and> unat b mod 128 \<noteq> m)"
  proof cases
    case 1
    then show ?thesis using assms(3,4,5) by simp
  next
    case 2
    then show ?thesis using assms(5) bs(3) [of 1] bs(2) by (simp add: le_bytes_numeral)
  next
    case 3
    then show ?thesis using assms(5) bs(3) [of 2] bs(2) by (simp add: le_bytes_numeral)
  next
    case 4
    then show ?thesis using assms(5) bs(3) [of 3] bs(2) by (simp add: le_bytes_numeral)
  next
    case 5
    then show ?thesis using assms(5) bs(3) [of 4] bs(2) by (simp add: le_bytes_numeral)
  qed
  then obtain b where b: "m \<le> 4" "rd lp (p + m) = Some b" "unat b mod 128 \<noteq> m" by blast
  have "v \<noteq> UINT64_MAX" using assms(7) by auto
  then have "v mod 128 = unat b mod 128" using lpDecodeBacklen_low [OF assms(6) b(2)] by simp
  moreover have "(v + 1) mod 128 = (m + 1) mod 128"
    using mod_mod_cancel [of 128 "2 ^ 64" "v + 1"] assms(7) by simp
  ultimately have "(unat b mod 128 + 1) mod 128 = (m + 1) mod 128" by (metis mod_add_left_eq)
  then show False using b by (cases "unat b mod 128 = 127") auto
qed

lemma lpCurrentEncodedSizeUnsafe_ge:
  assumes "lpCurrentEncodedSizeUnsafe lp p = Some m" "rd lp p = Some e" "lpCurrentEncodedSizeBytes e \<noteq> 0" "e \<noteq> LP_EOF"
    and "\<And>bs. unat e = 240 \<Longrightarrow> mem_read lp (p + 1) 4 = Some bs \<Longrightarrow> le_val bs < 2 ^ 32 - 5"
  shows "lpCurrentEncodedSizeBytes e \<le> m"
proof (cases "unat e = 240")
  case True
  then obtain bs where bs: "mem_read lp (p + 1) 4 = Some bs" "m = (5 + le_val bs) mod 2 ^ 32"
    using assms(1) unfolding lpCurrentEncodedSizeUnsafe_def assms(2) Option.bind.bind_lunit lp_enc
    by (auto simp: LP_ENCODING_32BIT_STR_LEN_def split: Option.bind_splits)
  then have "m = 5 + le_val bs" using assms(5) [OF True bs(1)] by simp
  then show ?thesis using True by (simp add: lpCurrentEncodedSizeBytes_def lp_enc)
next
  case False
  then show ?thesis using assms(1,3,4)
    unfolding lpCurrentEncodedSizeUnsafe_def lpCurrentEncodedSizeBytes_def assms(2) Option.bind.bind_lunit lp_enc
    by (auto simp: LP_ENCODING_12BIT_STR_LEN_def LP_ENCODING_6BIT_STR_LEN_def split: if_splits Option.bind_splits)
qed

lemma wrap_small:
  assumes "x < (2 :: nat) ^ 32" "\<not> x < 2 ^ 32 - 5"
  shows "\<exists>d. 5 + x = 2 ^ 32 + d \<and> d \<le> 4"
proof (intro exI conjI)
  show "5 + x = 2 ^ 32 + (x - (2 ^ 32 - 5))" "x - (2 ^ 32 - 5) \<le> 4" using assms by simp_all
qed

text \<open>What one successful step of the validation guarantees: the bytes between the two positions are an entry and
  as many bytes as its reverse length takes.\<close>

lemma lpValidateNext_sound:
  assumes "lpValidateNext lp (Some p) n = Some (True, Some q)" "n \<le> length lp"
  obtains c bl where "chunk_ok c" "length bl = lpEncodeBacklenBytes (length c)" "q = p + length (c @ bl)"
    "take (q - p) (drop p lp) = c @ bl"
proof -
  obtain e m v where o: "rd lp p = Some e" "e \<noteq> LP_EOF" "lpCurrentEncodedSizeBytes e \<noteq> 0"
    "p + lpCurrentEncodedSizeBytes e < n" "lpCurrentEncodedSizeUnsafe lp p = Some m"
    "q = p + (m + lpEncodeBacklenBytes m)" "lpDecodeBacklen lp (p + (m + lpEncodeBacklenBytes m) - 1) = Some v"
    "(v + lpEncodeBacklenBytes m) mod 2 ^ 64 = m + lpEncodeBacklenBytes m" "q < n"
    using assms(1) by (auto simp: lpValidateNext_def Let_def OUT_OF_RANGE_def split: if_splits Option.bind_splits)
  have nowrap: "le_val bs < 2 ^ 32 - 5" if u: "unat e = 240" "mem_read lp (p + 1) 4 = Some bs" for bs
  proof (rule ccontr)
    assume h: "\<not> le_val bs < 2 ^ 32 - 5"
    have m: "m = (5 + le_val bs) mod 2 ^ 32"
      using o(5) u unfolding lpCurrentEncodedSizeUnsafe_def o(1) Option.bind.bind_lunit lp_enc
      by (simp add: LP_ENCODING_32BIT_STR_LEN_def)
    have "le_val bs < 2 ^ 32" using le_val_less [of bs] u(2) by (auto simp: mem_read_def split: if_splits)
    then obtain d where d: "5 + le_val bs = 2 ^ 32 + d" "d \<le> 4" using wrap_small [OF _ h] by blast
    then have "m \<le> 4" unfolding m d(1) by simp
    then have "lpEncodeBacklenBytes m = 1" by (simp add: lpEncodeBacklenBytes_def)
    then show False using wrapped_length_rejected [OF u(2) _ o(1) u(1) m, of v] h o(7,8) by simp
  qed
  have ge: "lpCurrentEncodedSizeBytes e \<le> m" by (rule lpCurrentEncodedSizeUnsafe_ge [OF o(5,1,3,2) nowrap])
  have "p + m \<le> length lp" using o(6,9) assms(2) by simp
  then obtain A c R where lp: "lp = A @ c @ R" "length A = p" "length c = m" by (rule split_at)
  have c0: "c \<noteq> []" using ge o(3) lp(3) by auto
  have hd: "rd c 0 = Some e" using o(1) lp c0 by (auto simp: rd_def nth_append)
  obtain m' where m': "lpCurrentEncodedSizeUnsafe c 0 = Some m'"
    using lpCurrentEncodedSizeUnsafe_safe [OF _ hd] ge lp(3) by auto
  then have "m' = m" using lpCurrentEncodedSizeUnsafe_mono [OF m', of A R] lp o(5) by simp
  then have "chunk_ok c" using m' hd o(2) c0 lp(3) by (auto simp: chunk_ok_def rd_def hd_conv_nth split: if_splits)
  moreover have "take (q - p) (drop p lp) = c @ take (lpEncodeBacklenBytes m) R" using lp o(6) by simp
  moreover have "length (take (lpEncodeBacklenBytes m) R) = lpEncodeBacklenBytes (length c)"
    using lp o(6,9) assms(2) by simp
  moreover have "q = p + length (c @ take (lpEncodeBacklenBytes m) R)" using calculation(3) lp(3) o(6) by simp
  ultimately show thesis using that by blast
qed

text \<open>The entries with the bytes found in the place of their reverse lengths.\<close>

definition raw_body :: "(bytes \<times> bytes) list \<Rightarrow> bytes" where
  "raw_body es = concat (map (\<lambda>(c, bl). c @ bl) es)"

definition raw_ok :: "bytes \<times> bytes \<Rightarrow> bool" where
  "raw_ok e \<longleftrightarrow> chunk_ok (fst e) \<and> length (snd e) = lpEncodeBacklenBytes (length (fst e))"

lemma lpValidate_loop_sound:
  assumes "n \<le> length lp" "lpValidate_loop None lp n num (Some p) k u = Some (Some (Some q, k'))"
  shows "\<exists>es. p \<le> q \<and> take (q - p) (drop p lp) = raw_body es \<and> (\<forall>e \<in> set es. raw_ok e) \<and> k' = k + length es"
  using assms(2)
proof (induction "n - p" arbitrary: p k u rule: less_induct)
  case less
  obtain e where e: "rd lp p = Some e"
    using less.prems by (subst (asm) lpValidate_loop.simps) (auto split: option.splits)
  show ?case
  proof (cases "e = LP_EOF")
    case True
    then have "p = q" "k' = k" using less.prems e by (subst (asm) lpValidate_loop.simps; simp)+
    then show ?thesis by (intro exI [of _ "[]"]) (simp add: raw_body_def)
  next
    case False
    obtain r where r: "lpValidateNext lp (Some p) n = Some (True, r)"
      "lpValidate_loop None lp n num r (k + 1) u = Some (Some (Some q, k'))"
      using less.prems e False by (subst (asm) lpValidate_loop.simps) (auto split: option.splits if_splits)
    then obtain y where y: "r = Some y" by (cases r) (auto simp: lpValidate_loop.simps)
    from lpValidateNext_sound [OF r(1) [unfolded y] assms(1)]
    obtain c bl where c: "chunk_ok c" "length bl = lpEncodeBacklenBytes (length c)" "y = p + length (c @ bl)"
      "take (y - p) (drop p lp) = c @ bl" .
    obtain es where es: "y \<le> q" "take (q - y) (drop y lp) = raw_body es" "\<forall>e \<in> set es. raw_ok e" "k' = k + 1 + length es"
      using less.hyps [of y "k + 1" u] r(2) y lpValidateNext_measure [OF r(1) [unfolded y]] by blast
    have "take (q - p) (drop p lp) = take (y - p) (drop p lp) @ take (q - y) (drop y lp)"
    proof -
      have "q - p = (y - p) + (q - y)" "drop y lp = drop (y - p) (drop p lp)" using es(1) c(3) by (simp_all add: add.commute)
      then show ?thesis by (simp only: take_add)
    qed
    then have "take (q - p) (drop p lp) = raw_body ((c, bl) # es)" using c(4) es(2) by (simp add: raw_body_def)
    then show ?thesis using es c by (intro exI [of _ "(c, bl) # es"]) (auto simp: raw_ok_def)
  qed
qed

lemma lpValidateIntegrity_sound:
  assumes "lpValidateIntegrity None lp (length lp) True u = Some True"
  shows "\<exists>num es. lp = le_bytes 4 (length lp) @ le_bytes 2 num @ raw_body es @ [LP_EOF] \<and>
    (\<forall>e \<in> set es. raw_ok e) \<and> num_ok num (map fst es)"
proof -
  have l: "7 \<le> length lp" using assms by (auto simp: lpValidateIntegrity_def split: if_splits)
  define num where "num = le_val (take 2 (drop 4 lp))"
  have n: "lpGetNumElements lp = Some num" using l by (simp add: lpGetNumElements_def mem_read_def num_def)
  have t: "lpGetTotalBytes lp = Some (length lp)" and e: "rd lp (length lp - 1) = Some LP_EOF"
    using assms by (auto simp: lpValidateIntegrity_def split: if_splits Option.bind_splits)
  obtain k where v: "lpValidate_loop None lp (length lp) num (Some 6) 0 u = Some (Some (Some (length lp - 1), k))"
    "num = 65535 \<or> num = k"
    using assms l n t e by (auto simp: lpValidateIntegrity_def split: option.splits Option.bind_splits)
  from lpValidate_loop_sound [OF order_refl v(1)]
  obtain es where es: "take (length lp - 1 - 6) (drop 6 lp) = raw_body es" "\<forall>e \<in> set es. raw_ok e" "k = length es"
    by auto
  have h: "take 4 lp = le_bytes 4 (length lp)" "take 2 (drop 4 lp) = le_bytes 2 num"
    using t l le_bytes_le_val [of 4 "take 4 lp"] le_bytes_le_val [of 2 "take 2 (drop 4 lp)"]
    by (simp_all add: lpGetTotalBytes_def mem_read_def num_def min_def)
  have "lp = take 4 lp @ take 2 (drop 4 lp) @ take (length lp - 1 - 6) (drop 6 lp) @ drop (length lp - 1) lp"
  proof -
    have "drop 6 lp = take (length lp - 1 - 6) (drop 6 lp) @ drop (length lp - 1 - 6) (drop 6 lp)"
      by (rule append_take_drop_id [symmetric])
    also have "drop (length lp - 1 - 6) (drop 6 lp) = drop (length lp - 1) lp" using l by simp
    finally have d6: "drop 6 lp = take (length lp - 1 - 6) (drop 6 lp) @ drop (length lp - 1) lp" .
    have "drop 4 lp = take 2 (drop 4 lp) @ drop 2 (drop 4 lp)" by (rule append_take_drop_id [symmetric])
    also have "drop 2 (drop 4 lp) = drop 6 lp" by simp
    finally have d4: "drop 4 lp = take 2 (drop 4 lp) @ drop 6 lp" .
    have "lp = take 4 lp @ drop 4 lp" by (rule append_take_drop_id [symmetric])
    then have "lp = take 4 lp @ take 2 (drop 4 lp) @ drop 6 lp" by (simp only: d4 [symmetric])
    then show ?thesis by (simp only: d6 [symmetric])
  qed
  also have "drop (length lp - 1) lp = [LP_EOF]"
  proof -
    have "drop (length lp - 1) lp = lp ! (length lp - 1) # drop (length lp) lp"
      using l Cons_nth_drop_Suc [of "length lp - 1" lp] by simp
    then show ?thesis using e by (auto simp: rd_def split: if_splits)
  qed
  finally have "lp = le_bytes 4 (length lp) @ le_bytes 2 num @ raw_body es @ [LP_EOF]" unfolding h es(1) .
  moreover have "num_ok num (map fst es)"
  proof -
    have "length (take 2 (drop 4 lp)) = 2" using l by simp
    then have "num < 65536" using le_val_less [of "take 2 (drop 4 lp)"] by (simp add: num_def)
    then show ?thesis using v(2) es(3) by (auto simp: num_ok_def)
  qed
  ultimately show ?thesis using es(2) by blast
qed

section \<open>Properties of the validation\<close>

text \<open>(C4) The integrity check never reads outside the buffer and never fails an assertion: on arbitrary bytes it
  returns a verdict, with or without deep validation and for every entry callback.\<close>

theorem lpValidateIntegrity_safe:
  assumes "sz \<le> length lp"
  shows "\<exists>b. lpValidateIntegrity cb lp sz deep u = Some b"
  by (rule lpValidateIntegrity_total [OF assms])

theorem lpValidateIntegrity_safe_witness:
  "\<exists>b. lpValidateIntegrity None [10, 0, 0, 0, 1, 0, 0xF0, 0xFF, 0xFF, 0xFF] 10 True () = Some b"
  using lpValidateIntegrity_safe [of 10 "[10, 0, 0, 0, 1, 0, 0xF0, 0xFF, 0xFF, 0xFF]"] by simp

text \<open>(C10) What deep validation accepts is a header with the true size, a sequence of complete entries with room
  for their reverse lengths, the end marker as the last byte and an element count that is exact or unknown.
  No 32-bit length field gets through by overflow.\<close>

theorem lpValidateIntegrity_accepted:
  assumes "lpValidateIntegrity None lp (length lp) True u = Some True"
  shows "\<exists>num es. lp = le_bytes 4 (length lp) @ le_bytes 2 num @ raw_body es @ [LP_EOF] \<and>
    (\<forall>e \<in> set es. chunk_ok (fst e) \<and> length (snd e) = lpEncodeBacklenBytes (length (fst e))) \<and>
    num_ok num (map fst es)"
  using lpValidateIntegrity_sound [OF assms] by (simp add: raw_ok_def)

theorem lpValidateIntegrity_accepted_witness:
  "\<exists>num es. [12, 0, 0, 0, 2, 0, 0x81, 65, 2, 5, 1, 0xFF] = le_bytes 4 12 @ le_bytes 2 num @ raw_body es @ [LP_EOF] \<and>
    num_ok num (map fst es)"
proof -
  have p: "pos [[0x81, 65], [5]] + 1 = length [12, 0, 0, 0, 2, 0, 0x81, 65, 2, 5, 1, 0xFF :: byte]"
    by (simp add: pos_def entry_def lpEncodeBacklen_def lpEncodeBacklenBytes_def)
  have "lpValidateIntegrity None [12, 0, 0, 0, 2, 0, 0x81, 65, 2, 5, 1, 0xFF] (length [12, 0, 0, 0, 2, 0, 0x81, 65, 2, 5, 1, 0xFF :: byte]) True () = Some True"
    using lpValidateIntegrity_complete [OF lp_repr_small, of True "()"] unfolding p .
  from lpValidateIntegrity_accepted [OF this]
  obtain num es where "[12, 0, 0, 0, 2, 0, 0x81, 65, 2, 5, 1, 0xFF] =
      le_bytes 4 (length [12, 0, 0, 0, 2, 0, 0x81, 65, 2, 5, 1, 0xFF :: byte]) @ le_bytes 2 num @ raw_body es @ [LP_EOF]"
    "num_ok num (map fst es)" by blast
  moreover have "length [12, 0, 0, 0, 2, 0, 0x81, 65, 2, 5, 1, 0xFF :: byte] = 12" by simp
  ultimately show ?thesis by (intro exI [of _ num] exI [of _ es]) (simp only: simp_thms)
qed

text \<open>(C11) Every listpack the operations build passes the check.\<close>

theorem lpValidateIntegrity_accepts:
  assumes "lp_repr lp cs"
  shows "\<exists>n. lpBytes lp = Some n \<and> lpValidateIntegrity None lp n deep u = Some True"
proof (intro exI conjI)
  show "lpBytes lp = Some (pos cs + 1)" by (rule lp_repr_lpBytes [OF assms])
  show "lpValidateIntegrity None lp (pos cs + 1) deep u = Some True" by (rule lpValidateIntegrity_complete [OF assms])
qed

theorem lpValidateIntegrity_accepts_witness:
  "lp_repr [12, 0, 0, 0, 2, 0, 0x81, 65, 2, 5, 1, 0xFF] [[0x81, 65], [5]] \<and>
   (\<exists>n. lpBytes [12, 0, 0, 0, 2, 0, 0x81, 65, 2, 5, 1, 0xFF] = Some n \<and>
        lpValidateIntegrity None [12, 0, 0, 0, 2, 0, 0x81, 65, 2, 5, 1, 0xFF] n True () = Some True)"
  by (rule conjI [OF lp_repr_small lpValidateIntegrity_accepts [OF lp_repr_small]])

end
