(* ===== verification/Sequence_Store.thy ===== *)
theory Sequence_Store
  imports Redis_Prelude
begin

text \<open>
  The interface of a container that holds a sequence and grows at both ends. \<open>repr s xs\<close> says that the concrete
  state \<open>s\<close> holds the sequence \<open>xs\<close>, \<open>fits xs\<close> that a sequence is small enough to be stored. The outer option
  of a result is a failed assertion or memory access, the inner one a refusal. The linked list provides \<open>seq_grow\<close>, the
  listpack, whose size is bounded, \<open>seq_store\<close>.
\<close>

locale seq_grow =
  fixes repr :: "'s \<Rightarrow> 'a list \<Rightarrow> bool"
    and fits :: "'a list \<Rightarrow> bool"
    and push_back :: "'s \<Rightarrow> 'a \<Rightarrow> 's option option"
    and push_front :: "'s \<Rightarrow> 'a \<Rightarrow> 's option option"
  assumes back_ok: "repr s xs \<Longrightarrow> fits (xs @ [x]) \<Longrightarrow> \<exists>s'. push_back s x = Some (Some s') \<and> repr s' (xs @ [x])"
    and front_ok: "repr s xs \<Longrightarrow> fits (x # xs) \<Longrightarrow> \<exists>s'. push_front s x = Some (Some s') \<and> repr s' (x # xs)"
    and fits_appendD: "fits (xs @ ys) \<Longrightarrow> fits xs \<and> fits ys"

text \<open>A container that also refuses an element for which it has no room.\<close>

locale seq_store = seq_grow +
  assumes back_full: "repr s xs \<Longrightarrow> \<not> fits (xs @ [x]) \<Longrightarrow> push_back s x = Some None"
    and front_full: "repr s xs \<Longrightarrow> \<not> fits (x # xs) \<Longrightarrow> push_front s x = Some None"

text \<open>Pushing the elements of a list one after the other, stopping at the first refusal.\<close>

fun push_all :: "('s \<Rightarrow> 'a \<Rightarrow> 's option option) \<Rightarrow> 's \<Rightarrow> 'a list \<Rightarrow> 's option option" where
  "push_all push s [] = Some (Some s)"
| "push_all push s (x # xs) =
     (case push s x of
        None \<Rightarrow> None
      | Some None \<Rightarrow> Some None
      | Some (Some s') \<Rightarrow> push_all push s' xs)"

lemma push_all_append:
  "push_all push s (xs @ ys) =
     (case push_all push s xs of None \<Rightarrow> None | Some None \<Rightarrow> Some None | Some (Some s') \<Rightarrow> push_all push s' ys)"
  by (induction xs arbitrary: s) (auto split: option.split)

context seq_grow
begin

lemma push_all_back:
  "repr s xs \<Longrightarrow> fits (xs @ ys) \<Longrightarrow> \<exists>s'. push_all push_back s ys = Some (Some s') \<and> repr s' (xs @ ys)"
proof (induction ys arbitrary: s xs)
  case Nil
  then show ?case by simp
next
  case (Cons y ys)
  have "fits (xs @ [y])" using Cons.prems(2) fits_appendD [of "xs @ [y]" ys] by simp
  then obtain s' where "push_back s y = Some (Some s')" "repr s' (xs @ [y])" using back_ok Cons.prems(1) by blast
  then show ?case using Cons.IH [of s' "xs @ [y]"] Cons.prems(2) by simp
qed

lemma push_all_front:
  "repr s xs \<Longrightarrow> fits (rev ys @ xs) \<Longrightarrow> \<exists>s'. push_all push_front s ys = Some (Some s') \<and> repr s' (rev ys @ xs)"
proof (induction ys arbitrary: s xs)
  case Nil
  then show ?case by simp
next
  case (Cons y ys)
  have "fits (y # xs)" using Cons.prems(2) fits_appendD [of "rev ys" "y # xs"] by simp
  then obtain s' where "push_front s y = Some (Some s')" "repr s' (y # xs)" using front_ok Cons.prems(1) by blast
  then show ?case using Cons.IH [of s' "y # xs"] Cons.prems(2) by simp
qed

end

context seq_store
begin

text \<open>Either the whole list is stored or the pushing stops with a refusal; it never fails otherwise.\<close>

lemma push_all_total: "repr s xs \<Longrightarrow> push_all push_back s ys \<noteq> None"
proof (induction ys arbitrary: s xs)
  case (Cons y ys)
  show ?case
  proof (cases "fits (xs @ [y])")
    case True
    then obtain s' where "push_back s y = Some (Some s')" "repr s' (xs @ [y])" using back_ok Cons.prems by blast
    then show ?thesis using Cons.IH [of s' "xs @ [y]"] by simp
  qed (use back_full Cons.prems in simp)
qed simp

end

end
