(* ===== verification/Listpack_Update.thy ===== *)
theory Listpack_Update
  imports Listpack_Walk Sequence_Store
begin

text \<open>
  The operations that change a listpack refine the operations on the list of its entries: insertion before
  and after an element, replacement and deletion (\<open>lpInsert\<close> and its wrappers), batches, ranges and merging.
  On a represented listpack they succeed (no assertion fails, no access leaves the buffer) unless the result
  would not fit 32-bit sizes, in which case they return NULL and change nothing.
\<close>

section \<open>Moving the tail\<close>

lemma mem_move_tail:
  assumes "src = length A + length old" "dst = length A + k" "n = length T" "k \<le> length old + length S"
  obtains gap S' where "length gap = k" "length S' = length old + length S - k"
    "mem_move (A @ old @ T @ S) dst src n = Some (A @ gap @ T @ S')"
proof -
  let ?X = "A @ old @ T @ S"
  have r: "mem_read ?X src n = Some T"
    using assms mem_read_append [of src "A @ old" n T S] by simp
  have "mem_write ?X dst T = Some (A @ take k (old @ T @ S) @ T @ drop (dst + length T) ?X)"
    using assms by (simp add: mem_write_def)
  then have "mem_move ?X dst src n = Some (A @ take k (old @ T @ S) @ T @ drop (dst + length T) ?X)"
    by (simp add: mem_move_def r)
  moreover have "length (take k (old @ T @ S)) = k" "length (drop (dst + length T) ?X) = length old + length S - k"
    using assms by simp_all
  ultimately show thesis using that by blast
qed

section \<open>Header writes\<close>

lemma hdr_total: "lpSetTotalBytes (le_bytes 4 t @ R) v = Some (le_bytes 4 v @ R)"
  by (simp add: lpSetTotalBytes_def mem_simps)

lemma hdr_num_get: "n \<le> 65535 \<Longrightarrow> lpGetNumElements (le_bytes 4 t @ le_bytes 2 n @ R) = Some n"
  using mem_read_append [of 4 "le_bytes 4 t" 2 "le_bytes 2 n" R] by (simp add: lpGetNumElements_def le_val_le_bytes)

lemma hdr_num_set: "lpSetNumElements (le_bytes 4 t @ le_bytes 2 n @ R) v = Some (le_bytes 4 t @ le_bytes 2 v @ R)"
  using mem_write_append [of 4 "le_bytes 4 t" "le_bytes 2 v" "le_bytes 2 n" R] by (simp add: lpSetNumElements_def)

section \<open>The second half of \<open>lpInsert\<close>\<close>

definition new_num :: "bool \<Rightarrow> bool \<Rightarrow> nat \<Rightarrow> nat" where
  "new_num changes delete num =
     (if changes \<and> num \<noteq> LP_HDR_NUMELE_UNKNOWN
      then (if delete then (num + (2 ^ 32 - 1)) mod 2 ^ 32 else num + 1) else num)"

lemma lpInsert_place_eq:
  assumes ra: "realloc_ok ra"
    and lp: "lp = le_bytes 4 t @ le_bytes 2 num @ B @ old @ T @ S"
    and poff: "poff = 6 + length B"
    and tot: "tot = poff + length old + length T" "new = poff + length N + length T" "repl = length old"
    and N: "N = enc @ backlen"
    and num: "num \<le> 65535"
    and whr: "whr = LP_BEFORE \<and> old = [] \<and> \<not> delete \<or> whr = LP_REPLACE \<and> (delete \<longrightarrow> N = [])"
    and T: "T \<noteq> []"
  shows "\<exists>S'. lpInsert_place ra lp poff whr delete enc backlen tot repl new =
    Some (le_bytes 4 new @ le_bytes 2 (new_num (whr \<noteq> LP_REPLACE \<or> delete) delete num) @ B @ N @ T @ S',
          if delete \<and> hd T = LP_EOF then None else Some poff)"
proof -
  let ?H = "le_bytes 4 t @ le_bytes 2 num @ B"
  have H: "length ?H = poff" by (simp add: poff)
  define lp1 where "lp1 = (if new > tot \<and> new > length lp then ra lp new else lp)"
  have "\<exists>S1. lp1 = ?H @ old @ T @ S1 \<and> length N \<le> length old + length S1"
  proof (cases "new > tot \<and> new > length lp")
    case True
    then obtain S1 where "ra lp new = lp @ S1" "new \<le> length lp + length S1"
      using realloc_grow [OF ra, of lp new] by auto
    then show ?thesis using True lp tot poff by (intro exI [of _ "S @ S1"]) (simp add: lp1_def)
  next
    case False
    then show ?thesis using lp tot poff by (intro exI [of _ S]) (auto simp: lp1_def)
  qed
  then obtain S1 where l1: "lp1 = ?H @ old @ T @ S1" "length N \<le> length old + length S1" by blast
  obtain gap S2 where "length gap = length N" "length S2 = length old + length S1 - length N"
    "mem_move (?H @ old @ T @ S1) (poff + length N) (poff + length old) (length T) = Some (?H @ gap @ T @ S2)"
    by (rule mem_move_tail [of "poff + length old" ?H old "poff + length N" "length N" "length T" T S1])
      (use H l1(2) in simp_all)
  note g = this(1,3)
  have mv: "(if whr = LP_BEFORE then
        (if poff > tot then None else mem_move lp1 (poff + length enc + length backlen) poff (tot - poff))
      else mem_move lp1 (poff + length enc + length backlen) (poff + repl) (tot - poff - repl)) =
      Some (?H @ gap @ T @ S2)"
    using g(2) whr by (auto simp: l1(1) tot N add.assoc)
  define lp3 where "lp3 = (if new < tot then ra (?H @ gap @ T @ S2) new else ?H @ gap @ T @ S2)"
  have "\<exists>S3. lp3 = ?H @ gap @ T @ S3"
  proof (cases "new < tot")
    case True
    have n: "new = length (?H @ gap @ T)" using g(1) tot H by simp
    obtain S3 where "ra ((?H @ gap @ T) @ S2) new = (?H @ gap @ T) @ S3"
      using realloc_shrink [OF ra n] by metis
    then show ?thesis using True by (auto simp: lp3_def)
  qed (auto simp: lp3_def)
  then obtain S3 where l3: "lp3 = ?H @ gap @ T @ S3" by blast
  have np: "(if delete then do { e \<leftarrow> rd lp3 poff; Some (if e = LP_EOF then None else Some poff) } else Some (Some poff)) =
      Some (if delete \<and> hd T = LP_EOF then None else Some poff)"
  proof (cases delete)
    case True
    then have "gap = []" using whr g(1) by auto
    then have "rd lp3 poff = Some (hd T)" using T H rd_append [of poff ?H "hd T" "tl T @ S3"] l3 by (cases T) simp_all
    then show ?thesis using True by simp
  qed simp
  obtain g1 g2 where gg: "gap = g1 @ g2" "length g1 = length enc" "length g2 = length backlen"
    using g(1) N that [of "take (length enc) gap" "drop (length enc) gap"] by simp
  have w: "(if \<not> delete then do { lp \<leftarrow> mem_write lp3 poff enc; mem_write lp (poff + length enc) backlen } else Some lp3) =
      Some (?H @ N @ T @ S3)"
  proof (cases delete)
    case True
    then show ?thesis using whr l3 g(1) by auto
  next
    case False
    have 1: "mem_write lp3 poff enc = Some (?H @ enc @ g2 @ T @ S3)"
      using mem_write_append [of poff ?H enc g1 "g2 @ T @ S3"] gg l3 H by simp
    have 2: "mem_write (?H @ enc @ g2 @ T @ S3) (poff + length enc) backlen = Some (?H @ enc @ backlen @ T @ S3)"
      using mem_write_append [of "poff + length enc" "?H @ enc" backlen g2 "T @ S3"] gg H by simp
    show ?thesis using False 1 2 N by simp
  qed
  have u: "(if whr \<noteq> LP_REPLACE \<or> delete then
        do { num_elements \<leftarrow> lpGetNumElements (?H @ N @ T @ S3);
             if num_elements \<noteq> LP_HDR_NUMELE_UNKNOWN then
               (if \<not> delete then lpSetNumElements (?H @ N @ T @ S3) (num_elements + 1)
                else lpSetNumElements (?H @ N @ T @ S3) ((num_elements + (2 ^ 32 - 1)) mod 2 ^ 32))
             else Some (?H @ N @ T @ S3) }
      else Some (?H @ N @ T @ S3)) =
      Some (le_bytes 4 t @ le_bytes 2 (new_num (whr \<noteq> LP_REPLACE \<or> delete) delete num) @ B @ N @ T @ S3)"
    using hdr_num_get [OF num, of t "B @ N @ T @ S3"] hdr_num_set [of t num "B @ N @ T @ S3"] by (simp add: new_num_def)
  show ?thesis
    unfolding lpInsert_place_def Let_def lp1_def [symmetric] mv Option.bind.bind_lunit lp3_def [symmetric] np w u hdr_total
    by blast
qed

section \<open>Insertion, replacement and deletion\<close>

lemma num_ok_new:
  "num_ok num cs \<Longrightarrow> length cs' = length cs + 1 \<Longrightarrow> num_ok (new_num True False num) cs'"
  "num_ok num cs \<Longrightarrow> length cs = length cs' + 1 \<Longrightarrow> num_ok (new_num True True num) cs'"
  "num_ok num cs \<Longrightarrow> length cs' = length cs \<Longrightarrow> num_ok (new_num False d num) cs'"
  by (auto simp: num_ok_def new_num_def)

text \<open>The arguments of \<open>lpInsert\<close> that stand for an element, with the entry they are encoded to.\<close>

definition ins_args :: "bytes option \<Rightarrow> bytes option \<Rightarrow> bytes \<Rightarrow> bool" where
  "ins_args elestr eleint e \<longleftrightarrow> chunk_ok e \<and>
     (case elestr of
        Some s \<Rightarrow> length s < 2 ^ 32 - 5 \<and> e = enc_elem (elem_of s)
      | None \<Rightarrow> eleint = Some e)"

lemma ins_args_str: "length s < 2 ^ 32 - 5 \<Longrightarrow> ins_args (Some s) None (enc_elem (elem_of s))"
  using enc_elem_ok(1) [OF elem_of_ok] by (simp add: ins_args_def)

lemma ins_args_int: "chunk_ok e \<Longrightarrow> ins_args None (Some e) e"
  by (simp add: ins_args_def)

lemma ins_args_enc:
  assumes "ins_args elestr eleint e"
  shows "(case elestr of
      Some s \<Rightarrow>
        (let (enctype, intenc, enclen) = lpEncodeGetType s
         in (if enctype = LP_ENCODING_INT then take enclen intenc else lpEncodeString s, enclen))
    | None \<Rightarrow> (case eleint of Some e \<Rightarrow> (e, length e) | None \<Rightarrow> ([], 0))) = (e, length e)"
    and "(elestr = None \<and> eleint = None) = False"
proof -
  show "(elestr = None \<and> eleint = None) = False" using assms by (auto simp: ins_args_def split: option.splits)
  show "(case elestr of
      Some s \<Rightarrow>
        (let (enctype, intenc, enclen) = lpEncodeGetType s
         in (if enctype = LP_ENCODING_INT then take enclen intenc else lpEncodeString s, enclen))
    | None \<Rightarrow> (case eleint of Some e \<Rightarrow> (e, length e) | None \<Rightarrow> ([], 0))) = (e, length e)"
  proof (cases elestr)
    case (Some s)
    then have s: "length s < 2 ^ 32 - 5" "e = enc_elem (elem_of s)" using assms by (auto simp: ins_args_def)
    show ?thesis unfolding Some s(2) option.case lpEncodeGetType_eq [OF s(1)]
      by (cases "elem_of s") (auto dest: elem_of_EStr)
  qed (use assms in \<open>auto simp: ins_args_def\<close>)
qed

text \<open>The buffer at a boundary, with the header fields.\<close>

lemma lp_repr_parts:
  assumes "lp_repr lp (xs @ ys)"
  obtains t num S where "lp = le_bytes 4 t @ le_bytes 2 num @ body xs @ body ys @ [LP_EOF] @ S" "num_ok num (xs @ ys)"
  using assms by (elim lp_reprE) (auto simp: lp_bytes_def)

lemma lp_repr_intro:
  assumes "num_ok num (xs @ ys)" "pos xs + length (body ys) + 1 \<le> UINT32_MAX" "\<forall>c \<in> set xs \<union> set ys. chunk_ok c"
    "t = pos xs + length (body ys) + 1"
  shows "lp_repr (le_bytes 4 t @ le_bytes 2 num @ body xs @ body ys @ [LP_EOF] @ S) (xs @ ys)"
  using assms unfolding lp_repr_def lp_bytes_def by (intro conjI exI [of _ num] exI [of _ S]) auto

lemma lpInsert_before:
  assumes "realloc_ok ra" "lp_repr lp (xs @ ys)" "ins_args elestr eleint e"
  shows "if pos (xs @ e # ys) + 1 \<le> UINT32_MAX
    then \<exists>lp'. lpInsert ra lp elestr eleint (pos xs) LP_BEFORE = Some (Some (lp', Some (pos xs))) \<and> lp_repr lp' (xs @ e # ys)
    else lpInsert ra lp elestr eleint (pos xs) LP_BEFORE = Some None"
proof -
  obtain t num S where lp: "lp = le_bytes 4 t @ le_bytes 2 num @ body xs @ body ys @ [LP_EOF] @ S" "num_ok num (xs @ ys)"
    using lp_repr_parts [OF assms(2)] .
  have e: "chunk_ok e" using assms(3) by (simp add: ins_args_def)
  let ?tot = "pos (xs @ ys) + 1"
  let ?new = "?tot + length e + length (lpEncodeBacklen (length e)) - 0"
  have new: "?new = pos xs + length (entry e) + length (body ys @ [LP_EOF])" "?new = pos (xs @ e # ys) + 1"
    by (simp_all add: length_entry)
  have eq: "lpInsert ra lp elestr eleint (pos xs) LP_BEFORE =
      (if ?new > UINT32_MAX then Some None
       else map_option Some (lpInsert_place ra lp (pos xs) LP_BEFORE False e (lpEncodeBacklen (length e)) ?tot 0 ?new))"
    unfolding lpInsert_def Let_def ins_args_enc(2) [OF assms(3)] if_False
    by (simp add: ins_args_enc(1) [OF assms(3), unfolded Let_def] lp_repr_total [OF assms(2)])
  show ?thesis
  proof (cases "pos (xs @ e # ys) + 1 \<le> UINT32_MAX")
    case False
    then show ?thesis unfolding eq new(2) by simp
  next
    case True
    obtain S' where S': "lpInsert_place ra lp (pos xs) LP_BEFORE False e (lpEncodeBacklen (length e)) ?tot 0 ?new =
        Some (le_bytes 4 ?new @ le_bytes 2 (new_num True False num) @ body xs @ entry e @ (body ys @ [LP_EOF]) @ S', Some (pos xs))"
      using lpInsert_place_eq [OF assms(1), of lp t num "body xs" "[]" "body ys @ [LP_EOF]" S "pos xs" ?tot ?new "entry e" 0 e
          "lpEncodeBacklen (length e)" LP_BEFORE False] lp new(1)
      by (auto simp: pos_def entry_def num_ok_def)
    have "lp_repr (le_bytes 4 ?new @ le_bytes 2 (new_num True False num) @ body xs @ body (e # ys) @ [LP_EOF] @ S') (xs @ e # ys)"
      by (rule lp_repr_intro) (use True new(2) num_ok_new(1) [OF lp(2)] assms(2) e in \<open>auto simp: lp_repr_def\<close>)
    then show ?thesis using True S' new(2) unfolding eq by auto
  qed
qed

lemma lpInsert_after:
  assumes "realloc_ok ra" "lp_repr lp (xs @ c # ys)" "ins_args elestr eleint e"
  shows "if pos (xs @ c # e # ys) + 1 \<le> UINT32_MAX
    then \<exists>lp'. lpInsert ra lp elestr eleint (pos xs) LP_AFTER = Some (Some (lp', Some (pos (xs @ [c])))) \<and>
           lp_repr lp' (xs @ c # e # ys)
    else lpInsert ra lp elestr eleint (pos xs) LP_AFTER = Some None"
proof -
  have r: "lp_repr lp ((xs @ [c]) @ ys)" using assms(2) by simp
  have a: "ASSERT_INTEGRITY lp (pos (xs @ [c])) = Some ()"
    using lp_repr_total [OF r] pos_ge [of "xs @ [c]"] by (simp add: ASSERT_INTEGRITY_def)
  have d: "(elestr = None \<and> eleint = None) = False" by (rule ins_args_enc(2) [OF assms(3)])
  have "lpInsert ra lp elestr eleint (pos xs) LP_AFTER = lpInsert ra lp elestr eleint (pos (xs @ [c])) LP_BEFORE"
    unfolding lpInsert_def Let_def d if_False using lp_repr_lpSkip [OF assms(2)] a by simp
  then show ?thesis using lpInsert_before [OF assms(1) r assms(3)] by (simp split: if_splits)
qed

text \<open>The length of the replaced entry, as computed from its first bytes.\<close>

lemma replaced_len_eq:
  assumes "lp_repr lp (xs @ c # ys)"
  shows "do { n \<leftarrow> lpCurrentEncodedSizeUnsafe lp (pos xs);
              let n = (n + lpEncodeBacklenBytes n) mod 2 ^ 32;
              ASSERT_INTEGRITY_LEN lp (pos xs) n;
              Some n } = Some (length (entry c))"
proof -
  have "(length c + lpEncodeBacklenBytes (length c)) mod 2 ^ 32 = length (entry c)"
    using lp_repr_length_c [OF assms] by (simp add: length_entry)
  then show ?thesis
    using lp_repr_size [OF assms] lp_repr_total [OF assms] pos_ge [of xs] by (simp add: ASSERT_INTEGRITY_LEN_def)
qed

lemma lpInsert_replace:
  assumes "realloc_ok ra" "lp_repr lp (xs @ c # ys)" "ins_args elestr eleint e"
  shows "if pos (xs @ e # ys) + 1 \<le> UINT32_MAX
    then \<exists>lp'. lpInsert ra lp elestr eleint (pos xs) LP_REPLACE = Some (Some (lp', Some (pos xs))) \<and> lp_repr lp' (xs @ e # ys)
    else lpInsert ra lp elestr eleint (pos xs) LP_REPLACE = Some None"
proof -
  obtain t num S where "lp = le_bytes 4 t @ le_bytes 2 num @ body xs @ body (c # ys) @ [LP_EOF] @ S" "num_ok num (xs @ c # ys)"
    using lp_repr_parts [OF assms(2)] .
  then have lp: "lp = le_bytes 4 t @ le_bytes 2 num @ body xs @ entry c @ (body ys @ [LP_EOF]) @ S" "num_ok num (xs @ c # ys)"
    by simp_all
  have e: "chunk_ok e" using assms(3) by (simp add: ins_args_def)
  let ?tot = "pos (xs @ c # ys) + 1"
  let ?new = "?tot + length e + length (lpEncodeBacklen (length e)) - length (entry c)"
  have new: "?new = pos xs + length (entry e) + length (body ys @ [LP_EOF])" "?new = pos (xs @ e # ys) + 1"
    by (simp_all add: length_entry [of e])
  have eq: "lpInsert ra lp elestr eleint (pos xs) LP_REPLACE =
      (if ?new > UINT32_MAX then Some None
       else map_option Some (lpInsert_place ra lp (pos xs) LP_REPLACE False e (lpEncodeBacklen (length e)) ?tot (length (entry c)) ?new))"
    using replaced_len_eq [OF assms(2), unfolded Let_def]
    unfolding lpInsert_def Let_def ins_args_enc(2) [OF assms(3)] if_False
    by (simp add: ins_args_enc(1) [OF assms(3), unfolded Let_def] lp_repr_total [OF assms(2)])
  show ?thesis
  proof (cases "pos (xs @ e # ys) + 1 \<le> UINT32_MAX")
    case False
    then show ?thesis unfolding eq new(2) by simp
  next
    case True
    obtain S' where S': "lpInsert_place ra lp (pos xs) LP_REPLACE False e (lpEncodeBacklen (length e)) ?tot (length (entry c)) ?new =
        Some (le_bytes 4 ?new @ le_bytes 2 (new_num False False num) @ body xs @ entry e @ (body ys @ [LP_EOF]) @ S', Some (pos xs))"
      using lpInsert_place_eq [OF assms(1), of lp t num "body xs" "entry c" "body ys @ [LP_EOF]" S "pos xs" ?tot ?new "entry e"
          "length (entry c)" e "lpEncodeBacklen (length e)" LP_REPLACE False] lp new(1)
      by (auto simp: pos_def entry_def num_ok_def)
    have "lp_repr (le_bytes 4 ?new @ le_bytes 2 (new_num False False num) @ body xs @ body (e # ys) @ [LP_EOF] @ S') (xs @ e # ys)"
      by (rule lp_repr_intro) (use True new(2) num_ok_new(3) [OF lp(2)] assms(2) e in \<open>auto simp: lp_repr_def\<close>)
    then show ?thesis using True S' new(2) unfolding eq by auto
  qed
qed

lemma lpInsert_delete:
  assumes "realloc_ok ra" "lp_repr lp (xs @ c # ys)"
  shows "\<exists>lp'. lpInsert ra lp None None (pos xs) whr = Some (Some (lp', if ys = [] then None else Some (pos xs))) \<and>
    lp_repr lp' (xs @ ys)"
proof -
  obtain t num S where "lp = le_bytes 4 t @ le_bytes 2 num @ body xs @ body (c # ys) @ [LP_EOF] @ S" "num_ok num (xs @ c # ys)"
    using lp_repr_parts [OF assms(2)] .
  then have lp: "lp = le_bytes 4 t @ le_bytes 2 num @ body xs @ entry c @ (body ys @ [LP_EOF]) @ S" "num_ok num (xs @ c # ys)"
    by simp_all
  let ?tot = "pos (xs @ c # ys) + 1"
  let ?new = "?tot + 0 + length ([] :: bytes) - length (entry c)"
  have new: "?new = pos xs + length ([] :: bytes) + length (body ys @ [LP_EOF])" "?new = pos (xs @ ys) + 1" by simp_all
  have le: "?new \<le> UINT32_MAX" using lp_repr_length_c [OF assms(2)] by simp
  have eq: "lpInsert ra lp None None (pos xs) whr =
      map_option Some (lpInsert_place ra lp (pos xs) LP_REPLACE True [] [] ?tot (length (entry c)) ?new)"
    using replaced_len_eq [OF assms(2), unfolded Let_def] le
    unfolding lpInsert_def Let_def by (simp add: lp_repr_total [OF assms(2)])
  have hd: "hd (body ys @ [LP_EOF]) = LP_EOF \<longleftrightarrow> ys = []"
  proof (cases ys)
    case (Cons d zs)
    then have "chunk_ok d" using assms(2) by (auto simp: lp_repr_def)
    then show ?thesis using Cons chunk_okD(1,3) [of d] by (simp add: entry_def)
  qed simp
  obtain S' where S': "lpInsert_place ra lp (pos xs) LP_REPLACE True [] [] ?tot (length (entry c)) ?new =
      Some (le_bytes 4 ?new @ le_bytes 2 (new_num True True num) @ body xs @ (body ys @ [LP_EOF]) @ S',
            if ys = [] then None else Some (pos xs))"
    using lpInsert_place_eq [OF assms(1), of lp t num "body xs" "entry c" "body ys @ [LP_EOF]" S "pos xs" ?tot ?new "[]"
        "length (entry c)" "[]" "[]" LP_REPLACE True] lp new(1)
    by (auto simp: pos_def hd num_ok_def)
  have "lp_repr (le_bytes 4 ?new @ le_bytes 2 (new_num True True num) @ body xs @ body ys @ [LP_EOF] @ S') (xs @ ys)"
    by (rule lp_repr_intro) (use le new(2) num_ok_new(2) [OF lp(2)] assms(2) in \<open>auto simp: lp_repr_def\<close>)
  then show ?thesis using S' unfolding eq by auto
qed

section \<open>The wrappers\<close>

lemma no_newp_simps [simp]:
  "no_newp (Some None) = Some None" "no_newp (Some (Some (lp, q))) = Some (Some lp)"
  by (simp_all add: no_newp_def)

abbreviation (input) chunk_of :: "bytes \<Rightarrow> bytes" where
  "chunk_of s \<equiv> enc_elem (elem_of s)"

lemma chunk_str_of: "length s < 2 ^ 32 - 5 \<Longrightarrow> chunk_str (chunk_of s) = s"
  using enc_elem_ok(2) [OF elem_of_ok] by (simp add: chunk_str_def)

lemma lpAppend_repr:
  assumes "realloc_ok ra" "lp_repr lp cs" "length s < 2 ^ 32 - 5"
  shows "if pos (cs @ [chunk_of s]) + 1 \<le> UINT32_MAX
    then \<exists>lp'. lpAppend ra lp s = Some (Some lp') \<and> lp_repr lp' (cs @ [chunk_of s])
    else lpAppend ra lp s = Some None"
  using lpInsert_before [of ra lp cs "[]", OF assms(1) _ ins_args_str [OF assms(3)]] assms(2) lp_repr_total [OF assms(2)]
  by (auto simp: lpAppend_def split: if_splits)

lemma lpPrepend_repr:
  assumes "realloc_ok ra" "lp_repr lp cs" "length s < 2 ^ 32 - 5"
  shows "if pos (chunk_of s # cs) + 1 \<le> UINT32_MAX
    then \<exists>lp'. lpPrepend ra lp s = Some (Some lp') \<and> lp_repr lp' (chunk_of s # cs)
    else lpPrepend ra lp s = Some None"
proof (cases "cs = []")
  case True
  then show ?thesis using lpAppend_repr [OF assms] lp_repr_lpFirst [OF assms(2)] by (simp add: lpPrepend_def split: if_splits)
next
  case False
  then show ?thesis
    using lpInsert_before [of ra lp "[]" cs, OF assms(1) _ ins_args_str [OF assms(3)]] assms(2) lp_repr_lpFirst [OF assms(2)]
    by (auto simp: lpPrepend_def split: if_splits)
qed

text \<open>Strings so long that the size of the entry does not fit are refused.\<close>

lemma lpAppend_too_long:
  assumes "lp_repr lp cs" "2 ^ 32 - 5 \<le> length s"
  shows "lpAppend ra lp s = Some None"
proof -
  have "string2ll s = None" using assms(2) by (simp add: string2ll_def)
  then have "lpEncodeGetType s = (LP_ENCODING_STRING, [], 5 + length s)"
    using assms(2) by (simp add: lpEncodeGetType_def lpStringToInt64_eq)
  then show ?thesis
    using lp_repr_total [OF assms(1)] assms(2) by (simp add: lpAppend_def lpInsert_def Let_def)
qed

lemma lpPrepend_too_long:
  assumes "lp_repr lp cs" "2 ^ 32 - 5 \<le> length s"
  shows "lpPrepend ra lp s = Some None"
proof -
  have "string2ll s = None" using assms(2) by (simp add: string2ll_def)
  then have "lpEncodeGetType s = (LP_ENCODING_STRING, [], 5 + length s)"
    using assms(2) by (simp add: lpEncodeGetType_def lpStringToInt64_eq)
  then show ?thesis
    using lp_repr_total [OF assms(1)] lp_repr_lpFirst [OF assms(1)] assms(2) lpAppend_too_long [OF assms]
    by (auto simp: lpPrepend_def lpInsert_def Let_def)
qed

lemma lpNew_repr:
  assumes "realloc_ok ra"
  shows "\<exists>lp. lpNew ra capacity = Some lp \<and> lp_repr lp []"
proof -
  define n where "n = (if capacity > LP_HDR_SIZE + 1 then capacity else LP_HDR_SIZE + 1)"
  have "7 \<le> n" by (simp add: n_def)
  then have l: "4 + (2 + 1) \<le> length (ra [] n)" using realloc_okD(1) [OF assms, of n "[]"] by simp
  obtain a m where 1: "ra [] n = a @ m" "length a = 4"
    using that [of "take 4 (ra [] n)" "drop 4 (ra [] n)"] l by simp
  obtain b r where 2: "m = b @ r" "length b = 2" using that [of "take 2 m" "drop 2 m"] 1 l by simp
  obtain x S where 3: "r = x # S" using 1 2 l by (cases r) auto
  have "lpSetTotalBytes (ra [] n) 7 = Some (le_bytes 4 7 @ b @ x # S)"
    using 1 2 3 mem_write_append0 [of "le_bytes 4 7" a "b @ x # S"] by (simp add: lpSetTotalBytes_def)
  moreover have "lpSetNumElements (le_bytes 4 7 @ b @ x # S) 0 = Some (le_bytes 4 7 @ le_bytes 2 0 @ x # S)"
    using 2 mem_write_append [of 4 "le_bytes 4 7" "le_bytes 2 0" b "x # S"] by (simp add: lpSetNumElements_def)
  moreover have "mem_write (le_bytes 4 7 @ le_bytes 2 0 @ x # S) 6 [LP_EOF] = Some (le_bytes 4 7 @ le_bytes 2 0 @ LP_EOF # S)"
    using mem_write_append [of 6 "le_bytes 4 7 @ le_bytes 2 0" "[LP_EOF]" "[x]" S] by simp
  ultimately have "lpNew ra capacity = Some (le_bytes 4 7 @ le_bytes 2 0 @ LP_EOF # S)"
    by (simp add: lpNew_def n_def)
  moreover have "lp_repr (le_bytes 4 7 @ le_bytes 2 0 @ body [] @ body [] @ [LP_EOF] @ S) ([] @ [])"
    by (rule lp_repr_intro) (simp_all add: num_ok_def)
  ultimately show ?thesis by simp
qed

section \<open>A listpack is a sequence of strings\<close>

definition lp_holds :: "realloc_fn \<Rightarrow> bytes \<Rightarrow> bytes list \<Rightarrow> bool" where
  "lp_holds ra lp ss \<longleftrightarrow> realloc_ok ra \<and> (\<forall>s \<in> set ss. length s < 2 ^ 32 - 5) \<and> lp_repr lp (map chunk_of ss)"

definition lp_fits :: "bytes list \<Rightarrow> bool" where
  "lp_fits ss \<longleftrightarrow> (\<forall>s \<in> set ss. length s < 2 ^ 32 - 5) \<and> pos (map chunk_of ss) + 1 \<le> UINT32_MAX"

interpretation lps: seq_store "lp_holds ra" lp_fits "lpAppend ra" "lpPrepend ra" for ra
proof
  fix lp ss s
  assume h: "lp_holds ra lp ss"
  then have ra: "realloc_ok ra" and r: "lp_repr lp (map chunk_of ss)" and l: "\<forall>s \<in> set ss. length s < 2 ^ 32 - 5"
    by (auto simp: lp_holds_def)
  show "lp_fits (ss @ [s]) \<Longrightarrow> \<exists>lp'. lpAppend ra lp s = Some (Some lp') \<and> lp_holds ra lp' (ss @ [s])"
    using lpAppend_repr [OF ra r, of s] l ra by (auto simp: lp_fits_def lp_holds_def)
  show "lp_fits (s # ss) \<Longrightarrow> \<exists>lp'. lpPrepend ra lp s = Some (Some lp') \<and> lp_holds ra lp' (s # ss)"
    using lpPrepend_repr [OF ra r, of s] l ra by (auto simp: lp_fits_def lp_holds_def)
  show "\<not> lp_fits (ss @ [s]) \<Longrightarrow> lpAppend ra lp s = Some None"
    using lpAppend_repr [OF ra r, of s] lpAppend_too_long [OF r, of s ra] l
    by (cases "length s < 2 ^ 32 - 5") (auto simp: lp_fits_def)
  show "\<not> lp_fits (s # ss) \<Longrightarrow> lpPrepend ra lp s = Some None"
    using lpPrepend_repr [OF ra r, of s] lpPrepend_too_long [OF r, of s ra] l
    by (cases "length s < 2 ^ 32 - 5") (auto simp: lp_fits_def)
next
  show "lp_fits (ss @ ts) \<Longrightarrow> lp_fits ss \<and> lp_fits ts" for ss ts
    by (auto simp: lp_fits_def pos_def)
qed

section \<open>Ranges\<close>

text \<open>The scan of \<open>lpDeleteRangeWithEntry\<close> stops after \<open>num\<close> elements or at the end.\<close>

lemma lpDeleteRange_loop_eq:
  assumes "lp_repr lp (xs @ ys)" "ys \<noteq> []" "n = pos (xs @ ys) + 1" "0 < num"
  shows "lpDeleteRange_loop lp n num d (pos xs) =
    Some (d + min num (length ys), pos (xs @ take num ys))"
  using assms
proof (induction num arbitrary: xs ys d)
  case (Suc num)
  obtain c zs where y: "ys = c # zs" using Suc.prems(2) by (cases ys) auto
  have r: "lp_repr lp ((xs @ [c]) @ zs)" using Suc.prems(1) y by simp
  have s: "lpSkip lp (pos xs) = Some (pos (xs @ [c]))" using lp_repr_lpSkip Suc.prems(1) y by blast
  show ?case
  proof (cases "zs = []")
    case True
    then show ?thesis using s lp_repr_rd [OF r] y by simp
  next
    case False
    then have e: "hd (hd zs) \<noteq> LP_EOF" using r by (cases zs) (auto simp: lp_repr_def dest: chunk_okD)
    have v: "lpAssertValidEntry lp n (pos (xs @ [c])) = Some ()"
      using lp_repr_assert_valid [OF r, of n] Suc.prems(3) y by simp
    have "lpDeleteRange_loop lp n (Suc num) d (pos xs) = lpDeleteRange_loop lp n num (d + 1) (pos (xs @ [c]))"
      using s lp_repr_rd [OF r] False e v by simp
    moreover have "lpDeleteRange_loop lp n num (d + 1) (pos (xs @ [c])) =
        Some (d + 1 + min num (length zs), pos ((xs @ [c]) @ take num zs))"
    proof (cases num)
      case (Suc m)
      then show ?thesis using Suc.IH [OF r False, of "d + 1"] Suc.prems(3) y by simp
    qed simp
    ultimately show ?thesis using y by (simp add: add.assoc)
  qed
qed simp

lemma lpShrinkToFit_repr:
  assumes "realloc_ok ra" "lp_repr lp cs"
  shows "\<exists>lp'. lpShrinkToFit ra lp = Some lp' \<and> lp_repr lp' cs"
proof -
  obtain num S where lp: "lp = lp_bytes num cs @ S" "num_ok num cs" "pos cs + 1 \<le> UINT32_MAX" "\<forall>c \<in> set cs. chunk_ok c"
    using assms(2) by (rule lp_reprE)
  obtain S' where "ra (lp_bytes num cs @ S) (pos cs + 1) = lp_bytes num cs @ S'"
    using realloc_shrink [OF assms(1), of "pos cs + 1" "lp_bytes num cs" S] by auto
  then show ?thesis using lp assms(2) lp_repr_total [OF assms(2)] by (auto simp: lpShrinkToFit_def lp_repr_def)
qed

lemma num_ok_drop:
  assumes "num_ok num (xs @ ds @ zs)"
  shows "num_ok (if num \<noteq> LP_HDR_NUMELE_UNKNOWN then nat ((int num - int (length ds)) mod 2 ^ 32) else num) (xs @ zs)"
  using assms by (auto simp: num_ok_def)

lemma lpDeleteRangeWithEntry_repr:
  assumes "realloc_ok ra" "lp_repr lp (xs @ ys)" "ys \<noteq> []" "0 < num"
  shows "\<exists>lp'. lpDeleteRangeWithEntry ra lp (pos xs) num =
      Some (lp', if drop num ys = [] then None else Some (pos xs)) \<and> lp_repr lp' (xs @ drop num ys)"
proof -
  let ?d = "take num ys" and ?z = "drop num ys"
  obtain t n S where "lp = le_bytes 4 t @ le_bytes 2 n @ body xs @ body (?d @ ?z) @ [LP_EOF] @ S" "num_ok n (xs @ ?d @ ?z)"
    using lp_repr_parts [OF assms(2)] by (metis append_take_drop_id)
  then have lp: "lp = (le_bytes 4 t @ le_bytes 2 n @ body xs) @ body ?d @ (body ?z @ [LP_EOF]) @ S"
    and n: "n \<le> 65535" "num_ok n (xs @ ?d @ ?z)"
    by (simp_all only: body_simps(3) append_assoc) (simp_all add: num_ok_def)
  let ?n' = "if n \<noteq> LP_HDR_NUMELE_UNKNOWN then nat ((int n - int (length ?d)) mod 2 ^ 32) else n"
  let ?tot = "pos (xs @ ys) + 1" and ?new = "pos xs + length (body ?z) + 1"
  have tot: "?tot = pos xs + length (body ?d) + length (body ?z) + 1"
    by (metis append_take_drop_id body_simps(3) length_append pos_simps(2) add.assoc)
  have H: "length (le_bytes 4 t @ le_bytes 2 n @ body xs) = pos xs" by (simp add: pos_def)
  obtain S' where mv: "mem_move lp (pos xs) (pos xs + length (body ?d)) (length (body ?z @ [LP_EOF])) =
      Some ((le_bytes 4 t @ le_bytes 2 n @ body xs) @ (body ?z @ [LP_EOF]) @ S')"
  proof -
    let ?H = "le_bytes 4 t @ le_bytes 2 n @ body xs"
    obtain gap S' where "length gap = 0" "length S' = length (body ?d) + length S - 0"
      "mem_move (?H @ body ?d @ (body ?z @ [LP_EOF]) @ S) (pos xs) (pos xs + length (body ?d)) (length (body ?z @ [LP_EOF])) =
        Some (?H @ gap @ (body ?z @ [LP_EOF]) @ S')"
      by (rule mem_move_tail [of "pos xs + length (body ?d)" ?H "body ?d" "pos xs" 0 _ "body ?z @ [LP_EOF]" S])
        (use H in auto)
    then show thesis using that unfolding lp by simp
  qed
  have loop: "lpDeleteRange_loop lp ?tot num 0 (pos xs) = Some (length ?d, pos xs + length (body ?d))"
    using lpDeleteRange_loop_eq [OF assms(2,3) refl assms(4), of 0] by (simp add: min.commute)
  have r: "lp_repr (le_bytes 4 ?new @ le_bytes 2 ?n' @ body xs @ body ?z @ [LP_EOF] @ S') (xs @ ?z)"
    by (rule lp_repr_intro)
      (use assms(2) tot n(2) num_ok_drop [OF n(2)] in \<open>auto simp: lp_repr_def dest: in_set_dropD\<close>)
  obtain lp' where sh: "lpShrinkToFit ra (le_bytes 4 ?new @ le_bytes 2 ?n' @ body xs @ body ?z @ [LP_EOF] @ S') = Some lp'"
    "lp_repr lp' (xs @ ?z)" using lpShrinkToFit_repr [OF assms(1) r] by blast
  have rd': "rd lp' (pos xs) = Some (if ?z = [] then LP_EOF else hd (hd ?z))" by (rule lp_repr_rd [OF sh(2)])
  have ne: "?z \<noteq> [] \<Longrightarrow> hd (hd ?z) \<noteq> LP_EOF"
    using sh(2) by (cases ?z) (auto simp: lp_repr_def dest: chunk_okD)
  have num: "(if n \<noteq> LP_HDR_NUMELE_UNKNOWN
      then lpSetNumElements (le_bytes 4 ?new @ le_bytes 2 n @ body xs @ body ?z @ [LP_EOF] @ S')
             (nat ((int n - int (length ?d)) mod 2 ^ 32))
      else Some (le_bytes 4 ?new @ le_bytes 2 n @ body xs @ body ?z @ [LP_EOF] @ S')) =
      Some (le_bytes 4 ?new @ le_bytes 2 ?n' @ body xs @ body ?z @ [LP_EOF] @ S')"
    using hdr_num_set [of ?new n "body xs @ body ?z @ [LP_EOF] @ S'"] by simp
  have c: "num \<noteq> 0" "\<not> pos xs + length (body ?d) > ?tot" using assms(4) tot by simp_all
  have e: "?tot - (pos xs + length (body ?d)) = length (body ?z @ [LP_EOF])"
    "?tot - (pos xs + length (body ?d) - pos xs) = ?new" using tot by simp_all
  have g: "lpGetNumElements (le_bytes 4 ?new @ le_bytes 2 n @ body xs @ body ?z @ [LP_EOF] @ S') = Some n"
    by (rule hdr_num_get [OF n(1)])
  have st: "lpSetTotalBytes ((le_bytes 4 t @ le_bytes 2 n @ body xs) @ (body ?z @ [LP_EOF]) @ S') ?new =
      Some (le_bytes 4 ?new @ le_bytes 2 n @ body xs @ body ?z @ [LP_EOF] @ S')"
    using hdr_total [of t "le_bytes 2 n @ body xs @ body ?z @ [LP_EOF] @ S'"] by simp
  have "lpDeleteRangeWithEntry ra lp (pos xs) num = Some (lp', if ?z = [] then None else Some (pos xs))"
    unfolding lpDeleteRangeWithEntry_def Let_def lp_repr_lpBytes [OF assms(2)] Option.bind.bind_lunit if_not_P [OF c(1)]
      loop prod.case if_not_P [OF c(2)] e mv st g num sh(1) rd'
    using ne by simp
  then show ?thesis using sh(2) by blast
qed

text \<open>Deleting to the end only moves the end marker.\<close>

lemma truncate_repr:
  assumes "realloc_ok ra" "lp_repr lp (xs @ ys)" "length xs < 65535"
  shows "\<exists>lp'. do { lp \<leftarrow> mem_write lp (pos xs) [LP_EOF];
                   lp \<leftarrow> lpSetTotalBytes lp (pos xs + 1);
                   lp \<leftarrow> lpSetNumElements lp (length xs);
                   lpShrinkToFit ra lp } = Some lp' \<and> lp_repr lp' xs"
proof -
  obtain t num S where lp: "lp = le_bytes 4 t @ le_bytes 2 num @ body xs @ body ys @ [LP_EOF] @ S"
    using lp_repr_parts [OF assms(2)] by blast
  obtain x R where R: "body ys @ [LP_EOF] @ S = x # R" by (cases "body ys @ [LP_EOF] @ S") auto
  have w: "mem_write lp (pos xs) [LP_EOF] = Some (le_bytes 4 t @ le_bytes 2 num @ body xs @ LP_EOF # R)"
    using mem_write_append [of "pos xs" "le_bytes 4 t @ le_bytes 2 num @ body xs" "[LP_EOF]" "[x]" R] lp R
    by (simp add: pos_def)
  have "lp_repr (le_bytes 4 (pos xs + 1) @ le_bytes 2 (length xs) @ body xs @ body [] @ [LP_EOF] @ R) (xs @ [])"
    by (rule lp_repr_intro) (use assms(2,3) in \<open>auto simp: lp_repr_def num_ok_def\<close>)
  then obtain lp' where "lpShrinkToFit ra (le_bytes 4 (pos xs + 1) @ le_bytes 2 (length xs) @ body xs @ LP_EOF # R) = Some lp'"
    "lp_repr lp' xs" using lpShrinkToFit_repr [OF assms(1)] by fastforce
  then show ?thesis using w hdr_total hdr_num_set by simp
qed

lemma seek_index_Some:
  assumes "seek_index cs index = Some i"
  shows "i < length cs" "(if index < 0 then int (length cs) + index else index) = int i"
  using assms by (auto simp: seek_index_def Let_def split: if_splits)

lemma lpDeleteRange_repr:
  assumes "realloc_ok ra" "lp_repr lp cs"
  shows "\<exists>lp'. lpDeleteRange ra lp index num = Some lp' \<and>
    lp_repr lp' (case seek_index cs index of None \<Rightarrow> cs | Some i \<Rightarrow> take i cs @ drop (i + num) cs)"
proof -
  obtain n where n: "lpGetNumElements lp = Some n" "num_ok n cs" using lp_repr_num [OF assms(2)] by blast
  show ?thesis
  proof (cases "num = 0 \<or> seek_index cs index = None")
    case True
    then show ?thesis using n assms(2) lp_repr_lpSeek [OF assms(2), of index]
      by (auto simp: lpDeleteRange_def split: option.splits)
  next
    case False
    then obtain i where i: "seek_index cs index = Some i" "0 < num" by auto
    note s = seek_index_Some [OF i(1)]
    have sk: "lpSeek lp index = Some (Some (pos (take i cs)))"
      using lp_repr_lpSeek [OF assms(2), of index] i s by (simp add: ptr_def)
    have r: "lp_repr lp (take i cs @ drop i cs)" using assms(2) by simp
    show ?thesis
    proof (cases "n \<noteq> 65535 \<and> length cs - i \<le> num")
      case True
      then have l: "n = length cs" "length (take i cs) < 65535" using n(2) s(1) by (auto simp: num_ok_def)
      have li: "length (take i cs) = i" using s(1) by simp
      have "nat ((int n - int i) mod 2 ^ 64) = length cs - i" using s(1) l True n(2) by (auto simp: num_ok_def)
      moreover have "nat (int (length cs) - int i) = length cs - i" by simp
      moreover have "nat (int i mod 2 ^ 32) = i" using l(2) li by simp
      moreover have "length cs \<le> i + num" using True by linarith
      then have "take i cs @ drop (i + num) cs = take i cs" by simp
      ultimately show ?thesis
        using truncate_repr [OF assms(1) r l(2)] True n(1) sk i s(2) l(1) li by (simp add: lpDeleteRange_def Let_def)
    next
      case False
      have "\<not> (n \<noteq> 65535 \<and> nat ((int n - (if n \<noteq> 65535 \<and> index < 0 then int n + index else index)) mod 2 ^ 64) \<le> num)"
        using False s n(2) by (auto simp: num_ok_def split: if_splits)
      then have "lpDeleteRange ra lp index num = map_option fst (lpDeleteRangeWithEntry ra lp (pos (take i cs)) num)"
        using i(2) unfolding lpDeleteRange_def Let_def n(1) sk Option.bind.bind_lunit option.case by (simp only: if_False) simp
      moreover obtain lp' q where "lpDeleteRangeWithEntry ra lp (pos (take i cs)) num = Some (lp', q)"
        "lp_repr lp' (take i cs @ drop num (drop i cs))"
        using lpDeleteRangeWithEntry_repr [OF assms(1) r _ i(2)] s(1) by auto
      ultimately show ?thesis using i(1) by (simp add: add.commute)
    qed
  qed
qed

section \<open>Merging\<close>

lemma lp_repr_lpLength_parts:
  assumes "lp_repr lp cs"
  obtains num S where "lpLength lp = Some (length cs, lp_bytes num cs @ S)" "num_ok num cs"
proof -
  obtain lp' where "lpLength lp = Some (length cs, lp')" "lp_repr lp' cs" using lp_repr_lpLength [OF assms] by metis
  then show thesis using that by (auto elim: lp_reprE)
qed

lemma lpMerge_repr:
  assumes "realloc_ok ra" "lp_repr first xs" "lp_repr second ys"
  shows "if pos (xs @ ys) + 1 < UINT32_MAX
    then \<exists>t. lpMerge ra (Some first) (Some second) False = Some (Some (pos xs \<ge> pos ys, t)) \<and> lp_repr t (xs @ ys)
    else lpMerge ra (Some first) (Some second) False = None"
proof -
  obtain n1 S1 where f: "lpLength first = Some (length xs, lp_bytes n1 xs @ S1)" "num_ok n1 xs"
    using lp_repr_lpLength_parts [OF assms(2)] .
  obtain n2 S2 where g: "lpLength second = Some (length ys, lp_bytes n2 ys @ S2)" "num_ok n2 ys"
    using lp_repr_lpLength_parts [OF assms(3)] .
  define N where "N = pos (xs @ ys) + 1"
  let ?len = "if length xs + length ys < 65535 then length xs + length ys else 65535"
  have p: "pos (xs @ ys) = pos xs + length (body ys)" "pos ys = 6 + length (body ys)" by (simp_all add: pos_def)
  have small: "pos xs + 1 \<le> UINT32_MAX" "pos ys + 1 \<le> UINT32_MAX" using assms(2,3) by (auto simp: lp_repr_def)
  have "nat ((int (pos xs + 1) + int (pos ys + 1) - int LP_HDR_SIZE - 1) mod 2 ^ 64) = N"
    using small p by (simp add: N_def)
  note N = this
  have set: "do { t \<leftarrow> lpSetNumElements (le_bytes 4 a @ le_bytes 2 b @ body xs @ (body ys @ [LP_EOF]) @ S) ?len;
                  t \<leftarrow> lpSetTotalBytes t N; Some (Some (ap, t)) } =
      Some (Some (ap, le_bytes 4 N @ le_bytes 2 ?len @ body xs @ body ys @ [LP_EOF] @ S))" for a b S and ap :: bool
    using hdr_num_set [of a b "body xs @ body ys @ [LP_EOF] @ S"] hdr_total [of a "le_bytes 2 ?len @ body xs @ body ys @ [LP_EOF] @ S"]
    by simp
  have repr: "lp_repr (le_bytes 4 N @ le_bytes 2 ?len @ body xs @ body ys @ [LP_EOF] @ S) (xs @ ys)" if "N < UINT32_MAX" for S
    by (rule lp_repr_intro) (use that assms(2,3) in \<open>auto simp: N_def lp_repr_def num_ok_def\<close>)
  show ?thesis
  proof (cases "N < UINT32_MAX")
    case False
    then have "lpMerge ra (Some first) (Some second) False = None"
      unfolding lpMerge_def prod.case option.case if_False Let_def lp_repr_lpBytes [OF assms(2)] lp_repr_lpBytes [OF assms(3)]
        Option.bind.bind_lunit f(1) g(1) N by simp
    then show ?thesis using False by (simp add: N_def)
  next
    case True
    have le: "pos xs + 1 \<le> N" "pos ys + 1 \<le> N" using pos_ge [of xs] by (simp_all add: N_def p)
    show ?thesis
    proof (cases "pos xs \<ge> pos ys")
      case ap: True
      obtain S where S: "ra (lp_bytes n1 xs @ S1) N = lp_bytes n1 xs @ S" "N \<le> pos xs + 1 + length S"
        using realloc_prefix [OF assms(1), of "lp_bytes n1 xs" N S1] le by auto
      obtain old S' where o: "LP_EOF # S = old @ S'" "length old = length (body ys @ [LP_EOF])"
        using that [of "take (length (body ys) + 1) (LP_EOF # S)" "drop (length (body ys) + 1) (LP_EOF # S)"] S(2)
        by (simp add: N_def p)
      have rd: "mem_read (lp_bytes n2 ys @ S2) 6 (pos ys + 1 - 6) = Some (body ys @ [LP_EOF])"
        using mem_read_append [of 6 "le_bytes 4 (pos ys + 1) @ le_bytes 2 n2" "pos ys + 1 - 6" "body ys @ [LP_EOF]" S2]
        by (simp add: lp_bytes_def p)
      have wr: "mem_write (lp_bytes n1 xs @ S) (pos xs) (body ys @ [LP_EOF]) =
          Some (le_bytes 4 (pos xs + 1) @ le_bytes 2 n1 @ body xs @ (body ys @ [LP_EOF]) @ S')"
        using mem_write_append [of "pos xs" "le_bytes 4 (pos xs + 1) @ le_bytes 2 n1 @ body xs" "body ys @ [LP_EOF]" old S'] o
        by (simp add: lp_bytes_def pos_def)
      have c: "\<not> (pos ys + 1 < LP_HDR_SIZE \<or> pos xs + 1 = 0)" using pos_ge [of ys] by simp
      have "lpMerge ra (Some first) (Some second) False =
          do { t \<leftarrow> lpSetNumElements (le_bytes 4 (pos xs + 1) @ le_bytes 2 n1 @ body xs @ (body ys @ [LP_EOF]) @ S') ?len;
               t \<leftarrow> lpSetTotalBytes t N; Some (Some (True, t)) }"
        unfolding lpMerge_def prod.case option.case if_False Let_def lp_repr_lpBytes [OF assms(2)] lp_repr_lpBytes [OF assms(3)]
          Option.bind.bind_lunit f(1) g(1) N
        using ap True c S(1) rd wr by simp
      then show ?thesis unfolding N_def [symmetric] using set ap repr [OF True] True by simp
    next
      case ap: False
      obtain S where S: "ra (lp_bytes n2 ys @ S2) N = lp_bytes n2 ys @ S" "N \<le> pos ys + 1 + length S"
        using realloc_prefix [OF assms(1), of "lp_bytes n2 ys" N S2] le by auto
      let ?A = "le_bytes 4 (pos ys + 1) @ le_bytes 2 n2"
      obtain gap S' where mv: "length gap = length (body xs)" "length S' = length ([] :: bytes) + length S - length (body xs)"
        "mem_move (?A @ [] @ (body ys @ [LP_EOF]) @ S) (pos xs) 6 (pos ys + 1 - 6) = Some (?A @ gap @ (body ys @ [LP_EOF]) @ S')"
        by (rule mem_move_tail [of 6 ?A "[]" "pos xs" "length (body xs)" "pos ys + 1 - 6" "body ys @ [LP_EOF]" S])
          (use S(2) in \<open>simp_all add: N_def p pos_def\<close>)
      have rd: "mem_read (lp_bytes n1 xs @ S1) 0 (pos xs) = Some (le_bytes 4 (pos xs + 1) @ le_bytes 2 n1 @ body xs)"
        using mem_read_append0 [of "pos xs" "le_bytes 4 (pos xs + 1) @ le_bytes 2 n1 @ body xs" "LP_EOF # S1"]
        by (simp add: lp_bytes_def pos_def)
      have wr: "mem_write (?A @ gap @ (body ys @ [LP_EOF]) @ S') 0 (le_bytes 4 (pos xs + 1) @ le_bytes 2 n1 @ body xs) =
          Some (le_bytes 4 (pos xs + 1) @ le_bytes 2 n1 @ body xs @ (body ys @ [LP_EOF]) @ S')"
        using mem_write_append0 [of "le_bytes 4 (pos xs + 1) @ le_bytes 2 n1 @ body xs" "?A @ gap" "(body ys @ [LP_EOF]) @ S'"] mv(1)
        by simp
      have c: "\<not> (pos ys + 1 < LP_HDR_SIZE \<or> pos xs + 1 = 0)" using pos_ge [of ys] by simp
      have lpb: "lp_bytes n2 ys @ S = ?A @ [] @ (body ys @ [LP_EOF]) @ S" by (simp add: lp_bytes_def)
      have "lpMerge ra (Some first) (Some second) False =
          do { t \<leftarrow> lpSetNumElements (le_bytes 4 (pos xs + 1) @ le_bytes 2 n1 @ body xs @ (body ys @ [LP_EOF]) @ S') ?len;
               t \<leftarrow> lpSetTotalBytes t N; Some (Some (False, t)) }"
        unfolding lpMerge_def prod.case option.case if_False Let_def lp_repr_lpBytes [OF assms(2)] lp_repr_lpBytes [OF assms(3)]
          Option.bind.bind_lunit f(1) g(1) N
        using ap True c S(1) rd wr mv(3) unfolding lpb by simp
      then show ?thesis unfolding N_def [symmetric] using set ap repr [OF True] True by simp
    qed
  qed
qed

section \<open>Batches\<close>

fun batch_chunk :: "elem \<Rightarrow> bytes" where
  "batch_chunk (EStr s) = chunk_of s"
| "batch_chunk (EInt v) = enc_elem (EInt v)"

lemma batch_chunk_ok: "elem_ok x \<Longrightarrow> chunk_ok (batch_chunk x)"
  using enc_elem_ok(1) [OF elem_of_ok] enc_elem_ok(1) [of x] by (cases x) auto

lemma lpBatch_enc_eq:
  assumes "elem_ok x"
  obtains t i where "lpBatch_enc x = (t, i, length (batch_chunk x), lpEncodeBacklen (length (batch_chunk x)))"
    "t = LP_ENCODING_INT \<Longrightarrow> take (length (batch_chunk x)) i = batch_chunk x"
    "t \<noteq> LP_ENCODING_INT \<Longrightarrow> \<exists>s. x = EStr s \<and> lpEncodeString s = batch_chunk x"
proof (cases x)
  case (EInt v)
  obtain e n where e: "lpEncodeIntegerGetType v = (e, n)" by fastforce
  then show thesis using that [of LP_ENCODING_INT e] lpGet_integer(2) [OF _ e] assms EInt by simp
next
  case (EStr s)
  then have l: "length s < 2 ^ 32 - 5" using assms by simp
  show thesis
  proof (cases "elem_of s")
    case (EInt v)
    then show thesis using that [of LP_ENCODING_INT "enc_elem (elem_of s)"] EStr lpEncodeGetType_eq [OF l] by simp
  next
    case E: (EStr t)
    then show thesis using that [of LP_ENCODING_STRING "[]"] EStr lpEncodeGetType_eq [OF l] elem_of_EStr [OF E] by simp
  qed
qed

lemma lpBatch_write_eq:
  assumes "\<forall>x \<in> set es. elem_ok x" "length gap = length (body (map batch_chunk es))" "dst = length A"
  shows "\<exists>np'. lpBatch_write (A @ gap @ R) dst np es = Some (A @ body (map batch_chunk es) @ R, np') \<and>
    (es \<noteq> [] \<longrightarrow> np' = Some (length A + length (body (map batch_chunk (butlast es)))))"
  using assms
proof (induction es arbitrary: A gap dst np)
  case Nil
  then show ?case by simp
next
  case (Cons x es)
  let ?c = "batch_chunk x"
  let ?b = "lpEncodeBacklen (length ?c)"
  obtain g1 g2 g3 where g: "gap = g1 @ g2 @ g3" "length g1 = length ?c" "length g2 = length ?b"
    "length g3 = length (body (map batch_chunk es))"
  proof (rule that)
    show "gap = take (length ?c) gap @ take (length ?b) (drop (length ?c) gap) @ drop (length ?b) (drop (length ?c) gap)"
      by (simp only: append_take_drop_id)
  qed (use Cons.prems(2) in \<open>simp_all add: entry_def\<close>)
  obtain t i where enc: "lpBatch_enc x = (t, i, length ?c, ?b)"
    "t = LP_ENCODING_INT \<Longrightarrow> take (length ?c) i = ?c" "t \<noteq> LP_ENCODING_INT \<Longrightarrow> \<exists>s. x = EStr s \<and> lpEncodeString s = ?c"
    by (rule lpBatch_enc_eq [of x]) (use Cons.prems(1) in simp_all)
  have w1: "mem_write (A @ gap @ R) dst ?c = Some (A @ ?c @ g2 @ g3 @ R)"
    using mem_write_append [of dst A ?c g1 "g2 @ g3 @ R"] g Cons.prems(3) by simp
  have w2: "mem_write (A @ ?c @ g2 @ g3 @ R) (dst + length ?c) ?b = Some (A @ ?c @ ?b @ g3 @ R)"
    using mem_write_append [of "dst + length ?c" "A @ ?c" ?b g2 "g3 @ R"] g Cons.prems(3) by simp
  have w: "(if t = LP_ENCODING_INT then mem_write (A @ gap @ R) dst (take (length ?c) i)
      else (case x of EStr s \<Rightarrow> mem_write (A @ gap @ R) dst (lpEncodeString s) | EInt _ \<Rightarrow> None)) = Some (A @ ?c @ g2 @ g3 @ R)"
    using w1 enc(2,3) by auto
  obtain np' where IH: "lpBatch_write ((A @ ?c @ ?b) @ g3 @ R) (dst + length ?c + length ?b) (Some dst) es =
      Some ((A @ ?c @ ?b) @ body (map batch_chunk es) @ R, np')"
    "es \<noteq> [] \<longrightarrow> np' = Some (length (A @ ?c @ ?b) + length (body (map batch_chunk (butlast es))))"
    using Cons.IH [of g3 "dst + length ?c + length ?b" "A @ ?c @ ?b" "Some dst"] Cons.prems g(4) by auto
  have "lpBatch_write (A @ gap @ R) dst np (x # es) = Some (A @ body (map batch_chunk (x # es)) @ R, np')"
    using IH(1) by (simp add: enc(1) w w2 entry_def)
  moreover have "np' = Some (length A + length (body (map batch_chunk (butlast (x # es)))))"
    using IH Cons.prems(3) by (cases "es = []") (auto simp: entry_def)
  ultimately show ?case by simp
qed

lemma lpBatch_addedlen:
  assumes "\<forall>x \<in> set es. elem_ok x"
  shows "sum_list (map (\<lambda>e. let (_, _, enclen, backlen) = lpBatch_enc e in enclen + length backlen) es) =
    length (body (map batch_chunk es))"
  using assms
proof (induction es)
  case (Cons x es)
  obtain t i where "lpBatch_enc x = (t, i, length (batch_chunk x), lpEncodeBacklen (length (batch_chunk x)))"
    by (rule lpBatch_enc_eq [of x]) (use Cons.prems in simp_all)
  then show ?case using Cons by (simp add: length_entry)
qed simp

lemma lpBatchInsert_before:
  assumes "realloc_ok ra" "lp_repr lp (xs @ ys)" "\<forall>x \<in> set es. elem_ok x" "es \<noteq> []"
  defines "ds \<equiv> map batch_chunk es"
  shows "if pos (xs @ ds @ ys) + 1 \<le> UINT32_MAX
    then \<exists>lp'. lpBatchInsert ra lp (pos xs) LP_BEFORE es = Some (Some (lp', Some (pos (xs @ butlast ds)))) \<and>
           lp_repr lp' (xs @ ds @ ys)
    else lpBatchInsert ra lp (pos xs) LP_BEFORE es = Some None"
proof -
  obtain t num S where lp: "lp = le_bytes 4 t @ le_bytes 2 num @ body xs @ body ys @ [LP_EOF] @ S" "num_ok num (xs @ ys)"
    using lp_repr_parts [OF assms(2)] .
  let ?H = "le_bytes 4 t @ le_bytes 2 num @ body xs" and ?T = "body ys @ [LP_EOF]"
  define tot where "tot = pos (xs @ ys) + 1"
  define new where "new = tot + length (body ds)"
  have tot: "lpGetTotalBytes lp = Some tot" using lp_repr_total [OF assms(2)] by (simp add: tot_def)
  have new: "new = pos (xs @ ds @ ys) + 1" "tot - pos xs = length ?T" "\<not> pos xs > tot" by (simp_all add: new_def tot_def)
  have H: "length ?H = pos xs" by (simp add: pos_def)
  have add: "sum_list (map (\<lambda>e. let (_, _, enclen, backlen) = lpBatch_enc e in enclen + length backlen) es) = length (body ds)"
    unfolding ds_def by (rule lpBatch_addedlen [OF assms(3)])
  note add = add [unfolded Let_def]
  have es: "c_assert (LP_BEFORE = LP_BEFORE \<or> LP_BEFORE = LP_AFTER) = Some ()" "c_assert (length es > 0) = Some ()"
    using assms(4) by simp_all
  show ?thesis
  proof (cases "new \<le> UINT32_MAX")
    case False
    then have "lpBatchInsert ra lp (pos xs) LP_BEFORE es = Some None"
      unfolding lpBatchInsert_def es Let_def add by (simp add: tot new_def)
    then show ?thesis using False unfolding new(1) by simp
  next
    case True
    define lp1 where "lp1 = (if new > tot \<and> new > length lp then ra lp new else lp)"
    have "\<exists>S1. lp1 = ?H @ [] @ ?T @ S1 \<and> length (body ds) \<le> length S1"
    proof (cases "new > tot \<and> new > length lp")
      case True
      then obtain S1 where "ra lp new = lp @ S1" "new \<le> length lp + length S1"
        using realloc_grow [OF assms(1), of lp new] by auto
      then show ?thesis using True lp by (intro exI [of _ "S @ S1"]) (simp add: lp1_def new_def tot_def pos_def)
    next
      case False
      then show ?thesis using lp by (intro exI [of _ S]) (auto simp: lp1_def new_def tot_def pos_def)
    qed
    then obtain S1 where l1: "lp1 = ?H @ [] @ ?T @ S1" "length (body ds) \<le> length S1" by blast
    obtain gap S2 where "length gap = length (body ds)" "length S2 = length ([] :: bytes) + length S1 - length (body ds)"
      "mem_move (?H @ [] @ ?T @ S1) (pos xs + length (body ds)) (pos xs) (length ?T) = Some (?H @ gap @ ?T @ S2)"
      by (rule mem_move_tail [of "pos xs" ?H "[]" "pos xs + length (body ds)" "length (body ds)" "length ?T" ?T S1])
        (use H l1(2) in simp_all)
    note g = this(1,3)
    obtain np where w: "lpBatch_write (?H @ gap @ ?T @ S2) (pos xs) None es = Some (?H @ body ds @ ?T @ S2, np)"
      "np = Some (pos xs + length (body (map batch_chunk (butlast es))))"
      using lpBatch_write_eq [OF assms(3), of gap "pos xs" ?H "?T @ S2" None] g(1) assms(4) H ds_def by auto
    define num' where "num' = (if num \<noteq> 65535 then (if int (length es) > int 65535 - int num then 65535 else num + length es) else num)"
    have n: "num \<le> 65535" "num_ok num' (xs @ ds @ ys)" using lp(2) by (auto simp: num_ok_def ds_def num'_def)
    define lpw where "lpw = ?H @ body ds @ ?T @ S2"
    have u: "do { num_elements \<leftarrow> lpGetNumElements lpw;
         lp \<leftarrow> (if num_elements \<noteq> LP_HDR_NUMELE_UNKNOWN then
                 (if int (length es) > int LP_HDR_NUMELE_UNKNOWN - int num_elements
                  then lpSetNumElements lpw LP_HDR_NUMELE_UNKNOWN
                  else lpSetNumElements lpw (num_elements + length es))
               else Some lpw);
         lp \<leftarrow> lpSetTotalBytes lp new; Some (Some (lp, np)) } =
        Some (Some (le_bytes 4 new @ le_bytes 2 num' @ body xs @ body ds @ ?T @ S2, np))"
      using hdr_num_get [OF n(1), of t "body xs @ body ds @ ?T @ S2"] hdr_num_set [of t num "body xs @ body ds @ ?T @ S2"]
        hdr_total [of t] by (simp add: num'_def lpw_def)
    have "lpBatchInsert ra lp (pos xs) LP_BEFORE es =
        Some (Some (le_bytes 4 new @ le_bytes 2 num' @ body xs @ body ds @ ?T @ S2, np))"
      unfolding lpBatchInsert_def es
      unfolding lp_where.distinct if_False Option.bind.bind_lunit add tot Let_def new_def [symmetric] lp1_def [symmetric]
        if_not_P [OF new(3)] new(2) l1(1)
      using True g(2) w(1) [folded lpw_def] u by (simp add: new(2,3))
    moreover have "lp_repr (le_bytes 4 new @ le_bytes 2 num' @ body xs @ body (ds @ ys) @ [LP_EOF] @ S2) (xs @ ds @ ys)"
      by (rule lp_repr_intro)
        (use True new(1) n(2) assms(2,3) batch_chunk_ok in \<open>auto simp: lp_repr_def ds_def\<close>)
    ultimately show ?thesis using True w(2) unfolding new(1) [symmetric] by (simp add: ds_def map_butlast)
  qed
qed

lemma lpBatchInsert_after:
  assumes "lp_repr lp (xs @ c # ys)"
  shows "lpBatchInsert ra lp (pos xs) LP_AFTER es = lpBatchInsert ra lp (pos (xs @ [c])) LP_BEFORE es"
proof -
  have "ASSERT_INTEGRITY lp (pos (xs @ [c])) = Some ()"
    using lp_repr_total [OF assms] pos_ge [of "xs @ [c]"] by (simp add: ASSERT_INTEGRITY_def)
  then show ?thesis using lp_repr_lpSkip [OF assms] by (simp add: lpBatchInsert_def)
qed

lemma lpBatchAppend_repr:
  assumes "realloc_ok ra" "lp_repr lp cs" "\<forall>x \<in> set es. elem_ok x" "length es mod 2 ^ 32 \<noteq> 0"
  defines "ds \<equiv> map batch_chunk (take (length es mod 2 ^ 32) es)"
  shows "if pos (cs @ ds) + 1 \<le> UINT32_MAX
    then \<exists>lp'. lpBatchAppend ra lp es = Some (Some lp') \<and> lp_repr lp' (cs @ ds)
    else lpBatchAppend ra lp es = Some None"
proof -
  let ?es = "take (length es mod 2 ^ 32) es"
  have e: "\<forall>x \<in> set ?es. elem_ok x" "?es \<noteq> []" using assms(3,4) by (auto dest: in_set_takeD)
  have "lpBatchAppend ra lp es = no_newp (lpBatchInsert ra lp (pos cs) LP_BEFORE ?es)"
    using lp_repr_total [OF assms(2)] by (simp add: lpBatchAppend_def)
  then show ?thesis
    using lpBatchInsert_before [of ra lp cs "[]" ?es, OF assms(1) _ e] assms(2) by (auto simp: ds_def no_newp_simps split: if_splits)
qed

lemma chunk_lpSkip_at:
  assumes "chunk_ok c" "p = length A"
  shows "lpSkip (A @ entry c @ R) p = Some (p + length (entry c))"
    "\<exists>e. rd (A @ entry c @ R) p = Some e \<and> e \<noteq> LP_EOF"
proof -
  note c = chunk_okD [OF assms(1)]
  show "lpSkip (A @ entry c @ R) p = Some (p + length (entry c))"
    using lpCurrentEncodedSizeUnsafe_mono [OF c(4), of A "lpEncodeBacklen (length c) @ R"] assms(2)
    by (simp add: lpSkip_def entry_def)
  show "\<exists>e. rd (A @ entry c @ R) p = Some e \<and> e \<noteq> LP_EOF"
    using rd_append [of p A "hd c" "tl c @ lpEncodeBacklen (length c) @ R"] c(1,3) assms(2) by (cases c) (auto simp: entry_def)
qed

text \<open>
  A listpack seen by \<open>lpBatchDelete\<close>: segments made of one element to delete and the elements to keep that
  follow it.
\<close>

fun seg_del :: "nat \<Rightarrow> (bytes \<times> bytes list) list \<Rightarrow> nat list" where
  "seg_del p [] = []"
| "seg_del p ((c, ms) # segs) = p # seg_del (p + length (entry c) + length (body ms)) segs"

definition seg_flat :: "(bytes \<times> bytes list) list \<Rightarrow> bytes list" where
  "seg_flat segs = concat (map (\<lambda>(c, ms). c # ms) segs)"

definition seg_keep :: "(bytes \<times> bytes list) list \<Rightarrow> bytes list" where
  "seg_keep segs = concat (map snd segs)"

lemma seg_simps [simp]:
  "seg_flat [] = []" "seg_flat ((c, ms) # segs) = c # ms @ seg_flat segs"
  "seg_keep [] = []" "seg_keep ((c, ms) # segs) = ms @ seg_keep segs"
  by (simp_all add: seg_flat_def seg_keep_def)

lemma length_seg_del [simp]: "length (seg_del p segs) = length segs"
  by (induction segs arbitrary: p) auto

lemma seg_del_hd: "segs \<noteq> [] \<Longrightarrow> seg_del p segs \<noteq> [] \<and> hd (seg_del p segs) = p"
  by (cases segs) auto

lemma lpBatchDelete_loop_eq:
  assumes "\<forall>c \<in> set (seg_flat segs). chunk_ok c" "segs \<noteq> []"
    "p = length A + length G" "lp_end = p + length (body (seg_flat segs)) + 1"
  shows "\<exists>S'. lpBatchDelete_loop (A @ G @ body (seg_flat segs) @ [LP_EOF] @ S) lp_end (length A) (seg_del p segs) =
    Some (A @ body (seg_keep segs) @ [LP_EOF] @ S', length A + length (body (seg_keep segs)) + 1)"
  using assms
proof (induction segs arbitrary: A G p)
  case Nil
  then show ?case by simp
next
  case (Cons seg segs)
  obtain c ms where seg: "seg = (c, ms)" by (cases seg)
  let ?E = "entry c" and ?M = "body ms" and ?R = "body (seg_flat segs) @ [LP_EOF] @ S"
  have buf: "A @ G @ body (seg_flat (seg # segs)) @ [LP_EOF] @ S = (A @ G) @ ?E @ ?M @ ?R" by (simp add: seg)
  note sk = chunk_lpSkip_at [of c p "A @ G" "?M @ ?R"]
  have s: "lpSkip ((A @ G) @ ?E @ ?M @ ?R) p = Some (p + length ?E)"
    "\<exists>e. rd ((A @ G) @ ?E @ ?M @ ?R) p = Some e \<and> e \<noteq> LP_EOF" using sk Cons.prems by (simp_all add: seg)
  let ?ps = "seg_del (p + length ?E + length ?M) segs"
  have step: "lpBatchDelete_loop ((A @ G) @ ?E @ ?M @ ?R) lp_end (length A) (seg_del p (seg # segs)) =
    (if ?ps \<noteq> [] \<and> p + length ?E = hd ?ps then lpBatchDelete_loop ((A @ G) @ ?E @ ?M @ ?R) lp_end (length A) ?ps
     else do { let keep_end = (if ?ps \<noteq> [] then hd ?ps else lp_end);
       c_assert (keep_end > p + length ?E);
       lp \<leftarrow> mem_move ((A @ G) @ ?E @ ?M @ ?R) (length A) (p + length ?E) (keep_end - (p + length ?E));
       lpBatchDelete_loop lp lp_end (length A + (keep_end - (p + length ?E))) ?ps })"
    using s by (auto simp: seg Let_def)
  show ?case
  proof (cases "segs = []")
    case True
    then have "mem_move (A @ (G @ ?E) @ (?M @ [LP_EOF]) @ S) (length A) (p + length ?E) (length (?M @ [LP_EOF])) =
        Some (A @ (?M @ [LP_EOF]) @ drop (length (?M @ [LP_EOF])) ((G @ ?E) @ (?M @ [LP_EOF])) @ S)"
      using Cons.prems(3) by (intro mem_move_down) auto
    then show ?thesis using True Cons.prems(4) step unfolding buf by (simp add: seg Let_def)
  next
    case more: False
    have ps: "?ps \<noteq> []" "hd ?ps = p + length ?E + length ?M" using seg_del_hd [OF more] by auto
    show ?thesis
    proof (cases "ms = []")
      case True
      then show ?thesis
        using Cons.IH [of "p + length ?E" A "G @ ?E"] Cons.prems more ps step unfolding buf by (auto simp: seg)
    next
      case False
      then have M: "0 < length ?M" using Cons.prems(1) chunk_okD(2) [of "hd ms"] by (cases ms) (auto simp: entry_def seg)
      define G' where "G' = drop (length ?M) ((G @ ?E) @ ?M)"
      have G': "length G' = length G + length ?E" by (simp add: G'_def)
      have "mem_move (A @ (G @ ?E) @ ?M @ ?R) (length A) (p + length ?E) (length ?M) = Some (A @ ?M @ G' @ ?R)"
        unfolding G'_def using Cons.prems(3) by (intro mem_move_down) auto
      then have "lpBatchDelete_loop ((A @ G) @ ?E @ ?M @ ?R) lp_end (length A) (seg_del p (seg # segs)) =
          lpBatchDelete_loop ((A @ ?M) @ G' @ ?R) lp_end (length (A @ ?M)) ?ps"
        unfolding step using ps M by (simp add: Let_def)
      moreover obtain S' where "lpBatchDelete_loop ((A @ ?M) @ G' @ ?R) lp_end (length (A @ ?M)) ?ps =
          Some ((A @ ?M) @ body (seg_keep segs) @ [LP_EOF] @ S', length (A @ ?M) + length (body (seg_keep segs)) + 1)"
        using Cons.IH [of "p + length ?E + length ?M" "A @ ?M" G'] Cons.prems more G' by (auto simp: seg)
      ultimately show ?thesis unfolding buf by (simp add: seg)
    qed
  qed
qed

lemma lpBatchDelete_repr:
  assumes "realloc_ok ra" "lp_repr lp (xs @ seg_flat segs)" "segs \<noteq> []"
  shows "\<exists>lp'. lpBatchDelete ra lp (seg_del (pos xs) segs) = Some lp' \<and> lp_repr lp' (xs @ seg_keep segs)"
proof -
  let ?F = "body (seg_flat segs)" and ?K = "body (seg_keep segs)"
  obtain t num S where lp: "lp = le_bytes 4 t @ le_bytes 2 num @ body xs @ ?F @ [LP_EOF] @ S" "num_ok num (xs @ seg_flat segs)"
    using lp_repr_parts [OF assms(2)] .
  let ?H = "le_bytes 4 t @ le_bytes 2 num @ body xs"
  have H: "length ?H = pos xs" by (simp add: pos_def)
  define e where "e = pos xs + length ?F + 1"
  have tot: "lpGetTotalBytes lp = Some e" using lp_repr_total [OF assms(2)] by (simp add: e_def)
  have eof: "rd lp (e - 1) = Some LP_EOF" using lp_repr_rd_EOF [OF assms(2)] by (simp add: e_def)
  have hd: "seg_del (pos xs) segs \<noteq> []" "hd (seg_del (pos xs) segs) = pos xs" "length segs \<noteq> 0"
    using seg_del_hd [OF assms(3)] assms(3) by auto
  have ch: "\<forall>c \<in> set (xs @ seg_flat segs). chunk_ok c" using assms(2) by (auto simp: lp_repr_def)
  have sub: "set (seg_keep segs) \<subseteq> set (seg_flat segs)" "length (seg_flat segs) = length (seg_keep segs) + length segs"
    "length ?K \<le> length ?F"
    by (induction segs) auto
  obtain S' where loop: "lpBatchDelete_loop (?H @ [] @ ?F @ [LP_EOF] @ S) e (length ?H) (seg_del (pos xs) segs) =
      Some (?H @ ?K @ [LP_EOF] @ S', length ?H + length ?K + 1)"
    by (rule exE [OF lpBatchDelete_loop_eq [of segs "pos xs" ?H "[]" e S]]) (use ch assms(3) H in \<open>simp_all add: e_def\<close>)
  define d where "d = pos xs + length ?K + 1"
  have z: "e \<noteq> 0" "d \<noteq> 0" by (simp_all add: e_def d_def)
  have small: "e \<le> UINT32_MAX" using assms(2) by (simp add: lp_repr_def e_def)
  have arith: "nat ((int e - int (nat ((int e - int d) mod 2 ^ 64))) mod 2 ^ 64) = d"
    using sub(3) small by (simp add: e_def d_def nat_mod_distrib)
  define lpw where "lpw = ?H @ ?K @ [LP_EOF] @ S'"
  have loop': "lpBatchDelete_loop lp e (pos xs) (seg_del (pos xs) segs) = Some (lpw, d)"
    using loop H by (simp add: lp(1) lpw_def d_def)
  have eof': "rd lpw (d - 1) = Some LP_EOF" using rd_append [of "d - 1" "?H @ ?K"] by (simp add: lpw_def d_def pos_def)
  define num' where "num' = (if num \<noteq> 65535 then num - length segs else num)"
  have n: "num \<le> 65535" "num_ok num' (xs @ seg_keep segs)" "num \<noteq> 65535 \<Longrightarrow> length segs \<le> num"
    using lp(2) sub(2) by (auto simp: num_ok_def num'_def)
  have u: "do { lp \<leftarrow> lpSetTotalBytes lpw d; numele \<leftarrow> lpGetNumElements lp;
      lp \<leftarrow> (if numele \<noteq> LP_HDR_NUMELE_UNKNOWN
              then lpSetNumElements lp (nat ((int numele - int (length segs)) mod 2 ^ 32)) else Some lp);
      lpShrinkToFit ra lp } = lpShrinkToFit ra (le_bytes 4 d @ le_bytes 2 num' @ body xs @ ?K @ [LP_EOF] @ S')"
    using hdr_num_get [OF n(1), of d "body xs @ ?K @ [LP_EOF] @ S'"] hdr_num_set [of d num "body xs @ ?K @ [LP_EOF] @ S'"]
      hdr_total [of t] n by (simp add: num'_def lpw_def nat_minus_as_int)
  have "lp_repr (le_bytes 4 d @ le_bytes 2 num' @ body xs @ ?K @ [LP_EOF] @ S') (xs @ seg_keep segs)"
    by (rule lp_repr_intro) (use sub small n(2) ch in \<open>auto simp: e_def d_def\<close>)
  moreover have "lpBatchDelete ra lp (seg_del (pos xs) segs) =
      lpShrinkToFit ra (le_bytes 4 d @ le_bytes 2 num' @ body xs @ ?K @ [LP_EOF] @ S')"
    unfolding lpBatchDelete_def length_seg_del if_not_P [OF hd(3)] Let_def hd(2) tot Option.bind.bind_lunit
      if_not_P [OF z(1)] eof loop' prod.case
    unfolding arith if_not_P [OF z(2)] eof' Option.bind.bind_lunit u [symmetric] by simp
  ultimately show ?thesis using lpShrinkToFit_repr [OF assms(1)] by simp
qed

section \<open>Properties of the updates\<close>

text \<open>The list after an insertion at index \<open>i\<close>, and the index of the new element.\<close>

fun ins_list :: "lp_where \<Rightarrow> nat \<Rightarrow> bytes \<Rightarrow> bytes list \<Rightarrow> bytes list" where
  "ins_list LP_BEFORE i e cs = take i cs @ e # drop i cs"
| "ins_list LP_AFTER i e cs = take (Suc i) cs @ e # drop (Suc i) cs"
| "ins_list LP_REPLACE i e cs = cs[i := e]"

fun ins_index :: "lp_where \<Rightarrow> nat \<Rightarrow> nat" where
  "ins_index LP_AFTER i = Suc i"
| "ins_index _ i = i"

lemma lpInsert_at:
  assumes "realloc_ok ra" "lp_repr lp cs" "i < length cs" "ins_args elestr eleint e"
  shows "if pos (ins_list whr i e cs) + 1 \<le> UINT32_MAX
    then \<exists>lp'. lpInsert ra lp elestr eleint (pos (take i cs)) whr =
             Some (Some (lp', ptr (ins_list whr i e cs) (ins_index whr i))) \<and>
           lp_repr lp' (ins_list whr i e cs)
    else lpInsert ra lp elestr eleint (pos (take i cs)) whr = Some None"
proof -
  define xs c ys where "xs = take i cs" and "c = cs ! i" and "ys = drop (Suc i) cs"
  have cs: "cs = xs @ c # ys" "i = length xs" using assms(3) by (auto simp: xs_def c_def ys_def id_take_nth_drop)
  show ?thesis
  proof (cases whr)
    case LP_BEFORE
    then show ?thesis using lpInsert_before [of ra lp xs "c # ys", OF assms(1) _ assms(4)] assms(2)
      by (simp add: cs ptr_def)
  next
    case LP_AFTER
    then show ?thesis using lpInsert_after [of ra lp xs c ys, OF assms(1) _ assms(4)] assms(2)
      by (auto simp: cs ptr_def split: if_splits)
  next
    case LP_REPLACE
    then show ?thesis using lpInsert_replace [of ra lp xs c ys, OF assms(1) _ assms(4)] assms(2)
      by (simp add: cs ptr_def)
  qed
qed

text \<open>(C14) Inserting a string before or after an element, or in its place, has the effect of the list operation:
  all other elements stay, the returned pointer is that of the new element, and the operation returns NULL exactly
  when the listpack would exceed 2^32 - 1 bytes.\<close>

theorem lpInsertString_correct:
  fixes whr :: lp_where
  assumes "realloc_ok ra" "lp_repr lp cs" "i < length cs" "length s < 2 ^ 32 - 5"
  defines "new \<equiv> ins_list whr i (chunk_of s) cs"
  shows "if pos new + 1 \<le> UINT32_MAX
    then \<exists>lp'. lpInsertString ra lp s (pos (take i cs)) whr = Some (Some (lp', ptr new (ins_index whr i))) \<and> lp_repr lp' new
    else lpInsertString ra lp s (pos (take i cs)) whr = Some None"
  unfolding lpInsertString_def new_def by (rule lpInsert_at [OF assms(1-3) ins_args_str [OF assms(4)]])

lemma pos_small: "pos [[0x81, 65], [0x81, 66], [5]] = 14" "pos [[0x81, 65]] = 9" "pos [] = 6"
  by (simp_all add: pos_def entry_def lpEncodeBacklenBytes_def)

lemma chunk_of_B: "chunk_of [66] = [0x81, 66]"
  using lpStringToInt64_eq [of "[66]"] by (simp add: elem_of_def lpEncodeString_def string2ll_def char_in_def)

theorem lpInsertString_correct_witness:
  "\<exists>lp'. lpInsertString realloc_zero [12, 0, 0, 0, 2, 0, 0x81, 65, 2, 5, 1, 0xFF] [66] 6 LP_AFTER = Some (Some (lp', Some 9)) \<and>
    lp_repr lp' [[0x81, 65], [0x81, 66], [5]]"
  using lpInsertString_correct [OF realloc_ok_zero lp_repr_small, of 0 "[66]" LP_AFTER]
  by (simp add: chunk_of_B pos_small ptr_def)

text \<open>\<open>lpDelete\<close> removes the element and returns the pointer to the one that follows it, or NULL at the end; it
  never refuses.\<close>

lemma lpDelete_correct:
  assumes "realloc_ok ra" "lp_repr lp cs" "i < length cs"
  defines "new \<equiv> take i cs @ drop (Suc i) cs"
  shows "\<exists>lp'. lpDelete ra lp (pos (take i cs)) = Some (Some (lp', ptr new i)) \<and> lp_repr lp' new"
proof -
  have "lp_repr lp (take i cs @ cs ! i # drop (Suc i) cs)" using assms(2,3) by (simp add: id_take_nth_drop [symmetric])
  from lpInsert_delete [OF assms(1) this, of LP_REPLACE] show ?thesis
    using assms(3) by (auto simp: lpDelete_def new_def ptr_def)
qed

text \<open>(C15) A listpack created by \<open>lpNew\<close> and filled with \<open>lpAppend\<close> or \<open>lpPrepend\<close> holds exactly the given strings
  in the given (or reverse) order, whatever encoding each of them got, as long as they fit.\<close>

theorem lpAppend_all:
  assumes "realloc_ok ra" "lp_fits ss"
  shows "\<exists>lp0 lp1 lp2. lpNew ra capacity = Some lp0 \<and>
    push_all (lpAppend ra) lp0 ss = Some (Some lp1) \<and> lp_repr lp1 (map chunk_of ss) \<and>
    push_all (lpPrepend ra) lp0 (rev ss) = Some (Some lp2) \<and> lp_repr lp2 (map chunk_of ss) \<and>
    map (chunk_str \<circ> chunk_of) ss = ss"
proof -
  obtain lp0 where lp0: "lpNew ra capacity = Some lp0" "lp_repr lp0 []" using lpNew_repr [OF assms(1)] by blast
  then have h: "lp_holds ra lp0 []" using assms(1) by (simp add: lp_holds_def)
  moreover have "map (chunk_str \<circ> chunk_of) ss = ss"
    using assms(2) chunk_str_of by (intro map_idI) (auto simp: lp_fits_def)
  ultimately show ?thesis
    using lps.push_all_back [OF h, of ss] lps.push_all_front [OF h, of "rev ss"] assms(2) lp0(1) by (auto simp: lp_holds_def)
qed

theorem lpAppend_all_witness:
  "\<exists>lp0 lp1. lpNew realloc_zero 0 = Some lp0 \<and> push_all (lpAppend realloc_zero) lp0 [[66], [66]] = Some (Some lp1) \<and>
    lp_repr lp1 [[0x81, 66], [0x81, 66]]"
proof -
  have "lp_fits [[66], [66]]" by (simp add: lp_fits_def chunk_of_B pos_def entry_def lpEncodeBacklenBytes_def)
  from lpAppend_all [OF realloc_ok_zero this, of 0] show ?thesis by (auto simp: chunk_of_B)
qed

text \<open>(C18) \<open>lpDeleteRange\<close> removes at most \<open>num\<close> elements from an index counted from either end, does nothing when
  the index is out of range, and fixes the element count of the header, also an unknown one.\<close>

theorem lpDeleteRange_correct:
  assumes "realloc_ok ra" "lp_repr lp cs"
  shows "\<exists>lp'. lpDeleteRange ra lp index num = Some lp' \<and>
    lp_repr lp' (if 0 \<le> index \<and> index < int (length cs) then take (nat index) cs @ drop (nat index + num) cs
      else if - int (length cs) \<le> index \<and> index < 0
        then take (nat (index + int (length cs))) cs @ drop (nat (index + int (length cs)) + num) cs
      else cs)"
proof -
  obtain lp' where "lpDeleteRange ra lp index num = Some lp'"
    "lp_repr lp' (case seek_index cs index of None \<Rightarrow> cs | Some i \<Rightarrow> take i cs @ drop (i + num) cs)"
    using lpDeleteRange_repr [OF assms] by blast
  then show ?thesis by (auto simp: seek_index_def Let_def split: if_splits)
qed

theorem lpDeleteRange_correct_witness:
  "\<exists>lp'. lpDeleteRange realloc_zero [12, 0, 0, 0, 2, 0, 0x81, 65, 2, 5, 1, 0xFF] (-1) 7 = Some lp' \<and> lp_repr lp' [[0x81, 65]]"
  using lpDeleteRange_correct [OF realloc_ok_zero lp_repr_small, of "-1" 7] by simp

text \<open>(C16) \<open>lpBatchDelete\<close>, given pointers to elements in order, removes exactly those elements and keeps all others
  in their order, moving each kept run once.\<close>

theorem lpBatchDelete_correct:
  assumes "realloc_ok ra" "lp_repr lp (xs @ seg_flat segs)"
  shows "\<exists>lp'. lpBatchDelete ra lp (seg_del (pos xs) segs) = Some lp' \<and> lp_repr lp' (xs @ seg_keep segs)"
proof (cases "segs = []")
  case True
  then show ?thesis using assms(2) by (auto simp: lpBatchDelete_def)
qed (rule lpBatchDelete_repr [OF assms])

theorem lpBatchDelete_correct_witness:
  "\<exists>lp'. lpBatchDelete realloc_zero [12, 0, 0, 0, 2, 0, 0x81, 65, 2, 5, 1, 0xFF] [6] = Some lp' \<and> lp_repr lp' [[5]]"
  using lpBatchDelete_correct [of realloc_zero "[12, 0, 0, 0, 2, 0, 129, 65, 2, 5, 1, 255]" "[]" "[([129, 65], [[5]])]"]
    realloc_ok_zero lp_repr_small
  by (simp add: pos_small)

text \<open>From 2 ^ 32 entries on, only the remainder is added, where the documented result is NULL.\<close>

lemma lpBatchAppend_narrows:
  assumes "realloc_ok ra" "lp_repr lp cs" "\<forall>x \<in> set (e # es). elem_ok x" "length es = 2 ^ 32" "pos (cs @ [batch_chunk e]) + 1 \<le> UINT32_MAX"
  shows "\<exists>lp'. lpBatchAppend ra lp (e # es) = Some (Some lp') \<and> lp_repr lp' (cs @ [batch_chunk e])"
proof -
  have n: "length (e # es) mod 2 ^ 32 = 1" using assms(4) by simp
  show ?thesis using lpBatchAppend_repr [OF assms(1-3), unfolded n] assms(5) by simp
qed

text \<open>(C17) \<open>lpBatchAppend\<close> of at least one and less than 2 ^ 32 entries adds all of them in one move, with the same encodings
  as one insertion per entry, or returns NULL and changes nothing.\<close>

theorem lpBatchAppend_correct:
  assumes "realloc_ok ra" "lp_repr lp cs" "\<forall>x \<in> set es. elem_ok x" "es \<noteq> []" "length es < 2 ^ 32"
  defines "ds \<equiv> map batch_chunk es"
  shows "if pos (cs @ ds) + 1 \<le> UINT32_MAX
    then \<exists>lp'. lpBatchAppend ra lp es = Some (Some lp') \<and> lp_repr lp' (cs @ ds)
    else lpBatchAppend ra lp es = Some None"
proof -
  have n: "length es mod 2 ^ 32 = length es" using assms(5) by simp
  show ?thesis using lpBatchAppend_repr [OF assms(1-3), unfolded n take_all [OF order_refl]] assms(4) by (simp add: ds_def)
qed

theorem lpBatchAppend_correct_witness:
  "\<exists>lp'. lpBatchAppend realloc_zero [12, 0, 0, 0, 2, 0, 0x81, 65, 2, 5, 1, 0xFF] [EInt 7, EStr [66]] = Some (Some lp') \<and>
    lp_repr lp' [[0x81, 65], [5], [7], [0x81, 66]]"
proof -
  have "map batch_chunk [EInt 7, EStr [66]] = [[7], [0x81, 66]]"
    using chunk_of_B by (simp add: lpEncodeIntegerGetType_def)
  then show ?thesis
    using lpBatchAppend_correct [OF realloc_ok_zero lp_repr_small, of "[EInt 7, EStr [66]]"]
    by (simp add: int64_def pos_def entry_def lpEncodeBacklenBytes_def)
qed

text \<open>(C19) \<open>lpMerge\<close> of two listpacks yields the concatenation, in the larger of the two buffers; when the sizes add
  up to more than the header can hold the assertion stops the program.\<close>

theorem lpMerge_correct:
  assumes "realloc_ok ra" "lp_repr first xs" "lp_repr second ys"
  shows "if pos (xs @ ys) + 1 < UINT32_MAX
    then \<exists>t. lpMerge ra (Some first) (Some second) False = Some (Some (pos xs \<ge> pos ys, t)) \<and> lp_repr t (xs @ ys)
    else lpMerge ra (Some first) (Some second) False = None"
  by (rule lpMerge_repr [OF assms])

theorem lpMerge_correct_witness:
  "\<exists>t. lpMerge realloc_zero (Some [12, 0, 0, 0, 2, 0, 0x81, 65, 2, 5, 1, 0xFF])
     (Some [12, 0, 0, 0, 2, 0, 0x81, 65, 2, 5, 1, 0xFF]) False = Some (Some (True, t)) \<and>
   lp_repr t [[0x81, 65], [5], [0x81, 65], [5]]"
  using lpMerge_correct [OF realloc_ok_zero lp_repr_small lp_repr_small]
  by (simp add: pos_def entry_def lpEncodeBacklenBytes_def)

end
