(* ===== verification/Dict.thy ===== *)
theory Dict
  imports Redis_Prelude "HOL-Library.Multiset"
begin

text \<open>
  The hash table of \<^verbatim>\<open>dict.c\<close>: two tables of buckets, incremental rehashing from the first to the second,
  automatic growth and shrinking, insertion, lookup, replacement and deletion.

  A bucket is the list of the entries of its chain. An entry is a full one, one without a value, or the bare key that
  the source stores in place of an entry when the type has no values; the last has no \<^verbatim>\<open>next\<close> field, so
  \<open>dictGetNext\<close> ends the chain there. Keys and values are pointers of types \<open>'k\<close> and \<open>'v\<close>. An entry pointer is
  the triple of table, bucket and place in the chain. The callbacks of \<^verbatim>\<open>dictType\<close> are fields of a record, with
  \<open>None\<close> for NULL; destructors and the callbacks that announce rehashing act outside the table and are left out.
  \<open>None\<close> as the result of an operation is a failed assertion or a read outside of a table. \<^verbatim>\<open>unsigned long\<close>
  counters wrap at 64 bits.
\<close>

unbundle bit_operations_syntax

section \<open>Types\<close>

datatype ('k, 'v) dictEntry =
    EntryNormal 'k "'v option"
  | EntryNoValue 'k
  | EntryKey 'k

type_synonym ('k, 'v) chain = "('k, 'v) dictEntry list"
type_synonym hash = "64 word"
type_synonym entry_ref = "nat \<times> nat \<times> nat"

text \<open>\<open>key_addr\<close> gives the address of a key, which the source tests for alignment.\<close>

record ('k, 'v) dictType =
  hashFunction :: "'k \<Rightarrow> hash"
  keyDup :: "('k \<Rightarrow> 'k) option"
  valDup :: "('v \<Rightarrow> 'v) option"
  keyCompare :: "('k \<Rightarrow> 'k \<Rightarrow> bool) option"
  resizeAllowed :: "(nat \<Rightarrow> nat \<times> nat \<Rightarrow> bool) option"
  no_value :: bool
  keys_are_odd :: bool
  force_full_rehash :: bool
  storedHashFunction :: "('k \<Rightarrow> hash) option"
  storedKeyCompare :: "('k \<Rightarrow> 'k \<Rightarrow> bool) option"
  keyLen :: "('k \<Rightarrow> nat) option"
  keyCompareWithLen :: "('k \<Rightarrow> nat \<Rightarrow> 'k \<Rightarrow> nat \<Rightarrow> bool) option"
  key_addr :: "'k \<Rightarrow> nat"

record ('k, 'v) dict =
  dtype :: "('k, 'v) dictType"
  ht_table :: "nat \<Rightarrow> ('k, 'v) chain list option"
  ht_used :: "nat \<Rightarrow> nat"
  rehashidx :: int
  pauserehash :: nat
  useStoredKeyApi :: bool
  ht_size_exp :: "nat \<Rightarrow> int"
  pauseAutoResize :: int

datatype dictResizeEnable = DICT_RESIZE_ENABLE | DICT_RESIZE_AVOID | DICT_RESIZE_FORBID

datatype dict_ret = DICT_OK | DICT_ERR

definition dict_force_resize_ratio :: nat where
  "dict_force_resize_ratio = 4"

abbreviation (input) HASHTABLE_MIN_FILL :: nat where
  "HASHTABLE_MIN_FILL \<equiv> 8"

abbreviation (input) DICT_HT_INITIAL_EXP :: int where
  "DICT_HT_INITIAL_EXP \<equiv> 2"

abbreviation (input) DICT_HT_INITIAL_SIZE :: nat where
  "DICT_HT_INITIAL_SIZE \<equiv> 4"

abbreviation (input) LONG_MAX :: nat where
  "LONG_MAX \<equiv> 9223372036854775807"

definition DICTHT_SIZE :: "int \<Rightarrow> nat" where
  "DICTHT_SIZE e = (if e = -1 then 0 else 2 ^ nat e)"

definition DICTHT_SIZE_MASK :: "int \<Rightarrow> hash" where
  "DICTHT_SIZE_MASK e = (if e = -1 then 0 else of_nat (DICTHT_SIZE e) - 1)"

definition dictSize :: "('k, 'v) dict \<Rightarrow> nat" where
  "dictSize d = (ht_used d 0 + ht_used d 1) mod ULONG_WRAP"

definition dictIsRehashing :: "('k, 'v) dict \<Rightarrow> bool" where
  "dictIsRehashing d \<longleftrightarrow> rehashidx d \<noteq> -1"

definition dictDefaultCompare :: "'k \<Rightarrow> 'k \<Rightarrow> bool" where
  "dictDefaultCompare key1 key2 \<longleftrightarrow> key1 = key2"

definition dictGetKeyCmpFunc :: "('k, 'v) dict \<Rightarrow> 'k \<Rightarrow> 'k \<Rightarrow> bool" where
  "dictGetKeyCmpFunc d =
     (case (useStoredKeyApi d, storedKeyCompare (dtype d)) of
        (True, Some f) \<Rightarrow> f
      | _ \<Rightarrow> (case keyCompare (dtype d) of Some f \<Rightarrow> f | None \<Rightarrow> dictDefaultCompare))"

definition dictHashKey :: "('k, 'v) dict \<Rightarrow> 'k \<Rightarrow> bool \<Rightarrow> hash" where
  "dictHashKey d key isStoredKey =
     (case (isStoredKey, storedHashFunction (dtype d)) of
        (True, Some f) \<Rightarrow> f key
      | _ \<Rightarrow> hashFunction (dtype d) key)"

section \<open>Entries\<close>

fun entryIsKey :: "('k, 'v) dictEntry \<Rightarrow> bool" where
  "entryIsKey (EntryKey _) = True"
| "entryIsKey _ = False"

fun entryIsNormal :: "('k, 'v) dictEntry \<Rightarrow> bool" where
  "entryIsNormal (EntryNormal _ _) = True"
| "entryIsNormal _ = False"

fun entryIsNoValue :: "('k, 'v) dictEntry \<Rightarrow> bool" where
  "entryIsNoValue (EntryNoValue _) = True"
| "entryIsNoValue _ = False"

definition entryHasValue :: "('k, 'v) dictEntry \<Rightarrow> bool" where
  "entryHasValue de = entryIsNormal de"

fun dictGetKey :: "('k, 'v) dictEntry \<Rightarrow> 'k" where
  "dictGetKey (EntryNormal k _) = k"
| "dictGetKey (EntryNoValue k) = k"
| "dictGetKey (EntryKey k) = k"

text \<open>The chain after its first entry.\<close>

fun dictGetNext :: "('k, 'v) chain \<Rightarrow> ('k, 'v) chain" where
  "dictGetNext [] = []"
| "dictGetNext (de # des) = (if entryIsKey de then [] else des)"

text \<open>\<open>dictSetNext\<close> gives the entry a new tail; a bare key has no place for one.\<close>

definition dictSetNext :: "('k, 'v) dictEntry \<Rightarrow> ('k, 'v) chain \<Rightarrow> ('k, 'v) chain option" where
  "dictSetNext de tail = do { c_assert (\<not> entryIsKey de); Some (de # tail) }"

text \<open>The bare key in place of an entry, with the alignment tests of \<open>encodeMaskedPtr\<close>.\<close>

definition encodeMaskedPtr :: "('k, 'v) dict \<Rightarrow> 'k \<Rightarrow> ('k, 'v) dictEntry option" where
  "encodeMaskedPtr d key = do { c_assert (key_addr (dtype d) key mod 8 = 0); Some (EntryKey key) }"

definition bucket :: "('k, 'v) dict \<Rightarrow> nat \<Rightarrow> nat \<Rightarrow> ('k, 'v) chain option" where
  "bucket d t i =
     (case ht_table d t of None \<Rightarrow> None | Some tb \<Rightarrow> if i < length tb then Some (tb ! i) else None)"

definition set_bucket :: "('k, 'v) dict \<Rightarrow> nat \<Rightarrow> nat \<Rightarrow> ('k, 'v) chain \<Rightarrow> ('k, 'v) dict option" where
  "set_bucket d t i c =
     (case ht_table d t of
        None \<Rightarrow> None
      | Some tb \<Rightarrow> if i < length tb then Some (d\<lparr>ht_table := (ht_table d)(t := Some (tb[i := c]))\<rparr>) else None)"

definition used_dec :: "nat \<Rightarrow> ('k, 'v) dict \<Rightarrow> ('k, 'v) dict" where
  "used_dec t d = d\<lparr>ht_used := (ht_used d)(t := ul_dec (ht_used d t))\<rparr>"

definition used_inc :: "nat \<Rightarrow> ('k, 'v) dict \<Rightarrow> ('k, 'v) dict" where
  "used_inc t d = d\<lparr>ht_used := (ht_used d)(t := ul_inc (ht_used d t))\<rparr>"

definition dict_idx :: "('k, 'v) dict \<Rightarrow> nat \<Rightarrow> hash \<Rightarrow> nat" where
  "dict_idx d t h = unat (h AND DICTHT_SIZE_MASK (ht_size_exp d t))"

section \<open>Creation and rehashing\<close>

definition dictReset :: "('k, 'v) dict \<Rightarrow> nat \<Rightarrow> ('k, 'v) dict" where
  "dictReset d htidx = d\<lparr>ht_table := (ht_table d)(htidx := None), ht_size_exp := (ht_size_exp d)(htidx := -1),
     ht_used := (ht_used d)(htidx := 0)\<rparr>"

definition dictCreate :: "('k, 'v) dictType \<Rightarrow> ('k, 'v) dict" where
  "dictCreate T = \<lparr>dtype = T, ht_table = (\<lambda>_. None), ht_used = (\<lambda>_. 0), rehashidx = -1, pauserehash = 0,
     useStoredKeyApi = False, ht_size_exp = (\<lambda>_. -1), pauseAutoResize = 0\<rparr>"

text \<open>
  \<^verbatim>\<open>8*sizeof(long) - __builtin_clzl(size-1)\<close> is the number of significant bits of \<open>size - 1\<close>.
\<close>

fun bit_len :: "nat \<Rightarrow> nat" where
  "bit_len n = (if n = 0 then 0 else Suc (bit_len (n div 2)))"

declare bit_len.simps [simp del]

definition dictNextExp :: "nat \<Rightarrow> int" where
  "dictNextExp sz =
     (if sz \<le> DICT_HT_INITIAL_SIZE then DICT_HT_INITIAL_EXP
      else if sz \<ge> LONG_MAX then 63
      else int (bit_len (sz - 1)))"

text \<open>The new entry for a key that moves to the bucket \<open>dst\<close> of the second table.\<close>

definition rehash_entry :: "('k, 'v) dict \<Rightarrow> ('k, 'v) dictEntry \<Rightarrow> ('k, 'v) chain \<Rightarrow> ('k, 'v) chain option" where
  "rehash_entry d de dst =
     (let key = dictGetKey de in
      if no_value (dtype d) then
        (if dst = [] then
           (if keys_are_odd (dtype d) then Some [EntryKey key]
            else do { e \<leftarrow> encodeMaskedPtr d key; Some [e] })
         else if entryIsKey de then Some (EntryNoValue key # dst)
         else do { c_assert (entryIsNoValue de); dictSetNext de dst })
      else dictSetNext de dst)"

fun rehashEntries_loop :: "('k, 'v) dict \<Rightarrow> nat \<Rightarrow> ('k, 'v) chain \<Rightarrow> ('k, 'v) dict option" where
  "rehashEntries_loop d idx [] = Some d"
| "rehashEntries_loop d idx (de # des) =
     do { let nextde = dictGetNext (de # des);
          let h = (if ht_size_exp d 1 > ht_size_exp d 0 then dict_idx d 1 (dictHashKey d (dictGetKey de) True)
                   else dict_idx d 1 (of_nat idx));
          dst \<leftarrow> bucket d 1 h;
          c \<leftarrow> rehash_entry d de dst;
          d \<leftarrow> set_bucket d 1 h c;
          let d = used_inc 1 (used_dec 0 d);
          rehashEntries_loop d idx nextde }"

definition rehashEntriesInBucketAtIndex :: "('k, 'v) dict \<Rightarrow> nat \<Rightarrow> ('k, 'v) dict option" where
  "rehashEntriesInBucketAtIndex d idx =
     do { de \<leftarrow> bucket d 0 idx;
          d \<leftarrow> rehashEntries_loop d idx de;
          set_bucket d 0 idx [] }"

definition dictCheckRehashingCompleted :: "('k, 'v) dict \<Rightarrow> ('k, 'v) dict \<times> bool" where
  "dictCheckRehashingCompleted d =
     (if ht_used d 0 \<noteq> 0 then (d, False)
      else
        (let d = d\<lparr>ht_table := (ht_table d)(0 := ht_table d 1), ht_used := (ht_used d)(0 := ht_used d 1),
                   ht_size_exp := (ht_size_exp d)(0 := ht_size_exp d 1)\<rparr>
         in ((dictReset d 1)\<lparr>rehashidx := -1\<rparr>, True)))"

text \<open>The loop over empty buckets: \<open>Inl\<close> when the budget of visits is used up, \<open>Inr\<close> at a bucket with entries.\<close>

function dictRehash_skip :: "('k, 'v) dict \<Rightarrow> int \<Rightarrow> (('k, 'v) dict + ('k, 'v) dict \<times> int) option" where
  "dictRehash_skip d empty_visits =
     (if rehashidx d < 0 then None
      else
        (case bucket d 0 (nat (rehashidx d)) of
           None \<Rightarrow> None
         | Some (_ # _) \<Rightarrow> Some (Inr (d, empty_visits))
         | Some [] \<Rightarrow>
             (let d = d\<lparr>rehashidx := rehashidx d + 1\<rparr>; empty_visits = empty_visits - 1 in
              if empty_visits = 0 then Some (Inl d) else dictRehash_skip d empty_visits)))"
  by auto
termination
  by (relation "measure (\<lambda>(d, _). nat (int (length (the (ht_table d 0))) - rehashidx d))")
    (auto simp: bucket_def split: option.splits if_splits)

declare dictRehash_skip.simps [simp del]

fun dictRehash_loop :: "('k, 'v) dict \<Rightarrow> nat \<Rightarrow> int \<Rightarrow> (('k, 'v) dict \<times> bool) option" where
  "dictRehash_loop d 0 empty_visits = (let (d, done) = dictCheckRehashingCompleted d in Some (d, \<not> done))"
| "dictRehash_loop d (Suc n) empty_visits =
     (if ht_used d 0 \<noteq> 0 then
        do { c_assert (int (DICTHT_SIZE (ht_size_exp d 0)) > rehashidx d);
             r \<leftarrow> dictRehash_skip d empty_visits;
             case r of
               Inl d \<Rightarrow> Some (d, True)
             | Inr (d, empty_visits) \<Rightarrow>
                 do { d \<leftarrow> rehashEntriesInBucketAtIndex d (nat (rehashidx d));
                      dictRehash_loop (d\<lparr>rehashidx := rehashidx d + 1\<rparr>) n empty_visits } }
      else (let (d, done) = dictCheckRehashingCompleted d in Some (d, \<not> done)))"

text \<open>\<open>cr\<close> is the global variable \<^verbatim>\<open>dict_can_resize\<close>. The result says whether keys remain to be moved.\<close>

definition rehash_avoided :: "dictResizeEnable \<Rightarrow> ('k, 'v) dict \<Rightarrow> bool" where
  "rehash_avoided cr d \<longleftrightarrow>
     (let s0 = DICTHT_SIZE (ht_size_exp d 0); s1 = DICTHT_SIZE (ht_size_exp d 1) in
      cr = DICT_RESIZE_FORBID \<or> \<not> dictIsRehashing d \<or>
      (cr = DICT_RESIZE_AVOID \<and>
       ((s1 > s0 \<and> s1 < dict_force_resize_ratio * s0 mod ULONG_WRAP) \<or>
        (s1 < s0 \<and> s0 < HASHTABLE_MIN_FILL * dict_force_resize_ratio * s1 mod ULONG_WRAP))))"

text \<open>The number of steps is at most 1000 in all calls, so ten times this number is an \<^verbatim>\<open>int\<close>.\<close>

definition dictRehash :: "dictResizeEnable \<Rightarrow> ('k, 'v) dict \<Rightarrow> nat \<Rightarrow> (('k, 'v) dict \<times> bool) option" where
  "dictRehash cr d n =
     (if rehash_avoided cr d then Some (d, False) else dictRehash_loop d n (int n * 10))"

definition dictRehashStep :: "dictResizeEnable \<Rightarrow> ('k, 'v) dict \<Rightarrow> ('k, 'v) dict option" where
  "dictRehashStep cr d = (if pauserehash d = 0 then map_option fst (dictRehash cr d 1) else Some d)"

definition dictBucketRehash :: "dictResizeEnable \<Rightarrow> ('k, 'v) dict \<Rightarrow> nat \<Rightarrow> ('k, 'v) dict option" where
  "dictBucketRehash cr d idx =
     (if pauserehash d \<noteq> 0 then Some d
      else if rehash_avoided cr d then Some d
      else do { d \<leftarrow> rehashEntriesInBucketAtIndex d idx; Some (fst (dictCheckRehashingCompleted d)) })"

definition dictRehashStepIfNeeded :: "dictResizeEnable \<Rightarrow> ('k, 'v) dict \<Rightarrow> nat \<Rightarrow> ('k, 'v) dict option" where
  "dictRehashStepIfNeeded cr d visitedIdx =
     (if \<not> dictIsRehashing d \<or> pauserehash d \<noteq> 0 then Some d
      else if int visitedIdx \<ge> rehashidx d then
        do { b \<leftarrow> bucket d 0 visitedIdx;
             if b \<noteq> [] then dictBucketRehash cr d visitedIdx else map_option fst (dictRehash cr d 1) }
      else map_option fst (dictRehash cr d 1))"

section \<open>Resizing\<close>

text \<open>The loop that a type with \<^verbatim>\<open>force_full_rehash\<close> runs.\<close>

partial_function (option) dictRehashAll :: "dictResizeEnable \<Rightarrow> ('k, 'v) dict \<Rightarrow> ('k, 'v) dict option" where
  "dictRehashAll cr d =
     do { (d, more) \<leftarrow> dictRehash cr d 1000;
          if more then dictRehashAll cr d else Some d }"

text \<open>
  \<open>malloc_failed\<close> is NULL, or comes with \<open>ztrycalloc_fails\<close>, which says for a number of bytes whether the allocation
  fails. The result has the value stored in \<^verbatim>\<open>*malloc_failed\<close>.
\<close>

definition dictResize ::
  "dictResizeEnable \<Rightarrow> ('k, 'v) dict \<Rightarrow> nat \<Rightarrow> (nat \<Rightarrow> bool) option \<Rightarrow> (('k, 'v) dict \<times> dict_ret \<times> bool) option" where
  "dictResize cr d sz malloc_failed =
     do { c_assert (\<not> dictIsRehashing d);
          let new_ht_size_exp = dictNextExp sz;
          let newsize = DICTHT_SIZE new_ht_size_exp;
          if newsize < sz \<or> newsize * 8 mod ULONG_WRAP < newsize then Some (d, DICT_ERR, False)
          else if new_ht_size_exp = ht_size_exp d 0 then Some (d, DICT_ERR, False)
          else if (case malloc_failed of None \<Rightarrow> False | Some ztrycalloc_fails \<Rightarrow> ztrycalloc_fails (newsize * 8))
          then Some (d, DICT_ERR, True)
          else do {
            let new_ht_table = Some (replicate newsize []);
            let d = d\<lparr>ht_size_exp := (ht_size_exp d)(1 := new_ht_size_exp), ht_used := (ht_used d)(1 := 0),
                       ht_table := (ht_table d)(1 := new_ht_table), rehashidx := 0\<rparr>;
            if ht_table d 0 = None \<or> ht_used d 0 = 0 then
              (let d = d\<lparr>ht_size_exp := (ht_size_exp d)(0 := new_ht_size_exp), ht_used := (ht_used d)(0 := 0),
                         ht_table := (ht_table d)(0 := new_ht_table)\<rparr>
               in Some ((dictReset d 1)\<lparr>rehashidx := -1\<rparr>, DICT_OK, False))
            else if force_full_rehash (dtype d) then
              do { d \<leftarrow> dictRehashAll cr d; Some (d, DICT_OK, False) }
            else Some (d, DICT_OK, False) } }"

definition priv_dictExpand ::
  "dictResizeEnable \<Rightarrow> ('k, 'v) dict \<Rightarrow> nat \<Rightarrow> (nat \<Rightarrow> bool) option \<Rightarrow> (('k, 'v) dict \<times> dict_ret \<times> bool) option" where
  "priv_dictExpand cr d sz malloc_failed =
     (if dictIsRehashing d \<or> ht_used d 0 > sz \<or> DICTHT_SIZE (ht_size_exp d 0) \<ge> sz then Some (d, DICT_ERR, False)
      else dictResize cr d sz malloc_failed)"

definition dictExpand :: "dictResizeEnable \<Rightarrow> ('k, 'v) dict \<Rightarrow> nat \<Rightarrow> (('k, 'v) dict \<times> dict_ret) option" where
  "dictExpand cr d sz = do { (d, r, _) \<leftarrow> priv_dictExpand cr d sz None; Some (d, r) }"

definition dictTryExpand ::
  "dictResizeEnable \<Rightarrow> ('k, 'v) dict \<Rightarrow> nat \<Rightarrow> (nat \<Rightarrow> bool) \<Rightarrow> (('k, 'v) dict \<times> dict_ret) option" where
  "dictTryExpand cr d sz ztrycalloc_fails =
     do { (d, _, malloc_failed) \<leftarrow> priv_dictExpand cr d sz (Some ztrycalloc_fails);
          Some (d, if malloc_failed then DICT_ERR else DICT_OK) }"

definition dictShrink :: "dictResizeEnable \<Rightarrow> ('k, 'v) dict \<Rightarrow> nat \<Rightarrow> (('k, 'v) dict \<times> dict_ret) option" where
  "dictShrink cr d sz =
     (if dictIsRehashing d \<or> ht_used d 0 > sz \<or> DICTHT_SIZE (ht_size_exp d 0) \<le> sz then Some (d, DICT_ERR)
      else do { (d, r, _) \<leftarrow> dictResize cr d sz None; Some (d, r) })"

text \<open>The second argument of \<^verbatim>\<open>resizeAllowed\<close> is the quotient of the two numbers in the source.\<close>

definition dictTypeResizeAllowed :: "('k, 'v) dict \<Rightarrow> nat \<Rightarrow> bool" where
  "dictTypeResizeAllowed d sz =
     (case resizeAllowed (dtype d) of
        None \<Rightarrow> True
      | Some f \<Rightarrow> f (DICTHT_SIZE (dictNextExp sz) * 8 mod ULONG_WRAP) (ht_used d 0, DICTHT_SIZE (ht_size_exp d 0)))"

definition dictExpandIfNeeded :: "dictResizeEnable \<Rightarrow> ('k, 'v) dict \<Rightarrow> (('k, 'v) dict \<times> dict_ret) option" where
  "dictExpandIfNeeded cr d =
     (if dictIsRehashing d then Some (d, DICT_OK)
      else if DICTHT_SIZE (ht_size_exp d 0) = 0 then
        do { (d, _) \<leftarrow> dictExpand cr d DICT_HT_INITIAL_SIZE; Some (d, DICT_OK) }
      else if (cr = DICT_RESIZE_ENABLE \<and> ht_used d 0 \<ge> DICTHT_SIZE (ht_size_exp d 0)) \<or>
              (cr \<noteq> DICT_RESIZE_FORBID \<and> ht_used d 0 \<ge> dict_force_resize_ratio * DICTHT_SIZE (ht_size_exp d 0) mod ULONG_WRAP) then
        (if dictTypeResizeAllowed d (ul_inc (ht_used d 0)) then
           do { (d, _) \<leftarrow> dictExpand cr d (ul_inc (ht_used d 0)); Some (d, DICT_OK) }
         else Some (d, DICT_OK))
      else Some (d, DICT_ERR))"

definition priv_dictExpandIfNeeded :: "dictResizeEnable \<Rightarrow> ('k, 'v) dict \<Rightarrow> ('k, 'v) dict option" where
  "priv_dictExpandIfNeeded cr d =
     (if pauseAutoResize d > 0 then Some d else map_option fst (dictExpandIfNeeded cr d))"

definition dictShrinkIfNeeded :: "dictResizeEnable \<Rightarrow> ('k, 'v) dict \<Rightarrow> (('k, 'v) dict \<times> dict_ret) option" where
  "dictShrinkIfNeeded cr d =
     (if dictIsRehashing d then Some (d, DICT_OK)
      else if DICTHT_SIZE (ht_size_exp d 0) \<le> DICT_HT_INITIAL_SIZE then Some (d, DICT_OK)
      else if (cr = DICT_RESIZE_ENABLE \<and> ht_used d 0 * HASHTABLE_MIN_FILL mod ULONG_WRAP \<le> DICTHT_SIZE (ht_size_exp d 0)) \<or>
              (cr \<noteq> DICT_RESIZE_FORBID \<and>
               ht_used d 0 * HASHTABLE_MIN_FILL * dict_force_resize_ratio mod ULONG_WRAP \<le> DICTHT_SIZE (ht_size_exp d 0)) then
        (if dictTypeResizeAllowed d (ht_used d 0) then
           do { (d, _) \<leftarrow> dictShrink cr d (ht_used d 0); Some (d, DICT_OK) }
         else Some (d, DICT_OK))
      else Some (d, DICT_ERR))"

definition priv_dictShrinkIfNeeded :: "dictResizeEnable \<Rightarrow> ('k, 'v) dict \<Rightarrow> ('k, 'v) dict option" where
  "priv_dictShrinkIfNeeded cr d =
     (if pauseAutoResize d > 0 then Some d else map_option fst (dictShrinkIfNeeded cr d))"

section \<open>Lookup, insertion and deletion\<close>

text \<open>The place in a chain of the first entry whose key is equal to the given one.\<close>

definition key_eq :: "('k, 'v) dict \<Rightarrow> 'k \<Rightarrow> ('k, 'v) dictEntry \<Rightarrow> bool" where
  "key_eq d key he \<longleftrightarrow> key = dictGetKey he \<or> dictGetKeyCmpFunc d key (dictGetKey he)"

fun chain_find :: "(('k, 'v) dictEntry \<Rightarrow> bool) \<Rightarrow> ('k, 'v) chain \<Rightarrow> nat option" where
  "chain_find P [] = None"
| "chain_find P (he # hes) =
     (if P he then Some 0 else map_option Suc (chain_find P (dictGetNext (he # hes))))"

text \<open>
  The loop over the two tables with the bucket index \<open>idx\<close> of the first one: the pointer to the entry, or the index of
  the bucket where the search ended.
\<close>

definition search_table ::
  "(('k, 'v) dictEntry \<Rightarrow> bool) \<Rightarrow> ('k, 'v) dict \<Rightarrow> nat \<Rightarrow> nat \<Rightarrow> entry_ref option option" where
  "search_table P d table idx =
     do { c \<leftarrow> bucket d table idx; Some (map_option (\<lambda>p. (table, idx, p)) (chain_find P c)) }"

definition search_tables ::
  "(('k, 'v) dictEntry \<Rightarrow> bool) \<Rightarrow> ('k, 'v) dict \<Rightarrow> hash \<Rightarrow> nat \<Rightarrow> (entry_ref + nat) option" where
  "search_tables P d h idx =
     do { first \<leftarrow> (if int idx < rehashidx d then Some (idx, None)
            else do { let idx = dict_idx d 0 h; r \<leftarrow> search_table P d 0 idx; Some (idx, r) });
          case first of
            (_, Some r) \<Rightarrow> Some (Inl r)
          | (idx0, None) \<Rightarrow>
              if int idx \<ge> rehashidx d \<and> \<not> dictIsRehashing d then Some (Inr idx0)
              else do { let idx1 = dict_idx d 1 h;
                        r \<leftarrow> search_table P d 1 idx1;
                        Some (case r of Some r \<Rightarrow> Inl r | None \<Rightarrow> Inr idx1) } }"

definition dictFindPositionForInsert ::
  "dictResizeEnable \<Rightarrow> ('k, 'v) dict \<Rightarrow> 'k \<Rightarrow> (('k, 'v) dict \<times> (entry_ref + nat \<times> nat)) option" where
  "dictFindPositionForInsert cr d key =
     do { let hash = dictHashKey d key (useStoredKeyApi d);
          let idx = dict_idx d 0 hash;
          d \<leftarrow> dictRehashStepIfNeeded cr d idx;
          d \<leftarrow> priv_dictExpandIfNeeded cr d;
          r \<leftarrow> search_tables (key_eq d key) d hash idx;
          Some (d, case r of Inl existing \<Rightarrow> Inl existing
                   | Inr idx \<Rightarrow> Inr (if dictIsRehashing d then 1 else 0, idx)) }"

definition dictInsertAtPosition ::
  "('k, 'v) dict \<Rightarrow> 'k \<Rightarrow> nat \<times> nat \<Rightarrow> (('k, 'v) dict \<times> entry_ref) option" where
  "dictInsertAtPosition d key position =
     do { let htidx = (if dictIsRehashing d then 1 else 0);
          c_assert (fst position = htidx \<and> snd position \<le> unat (DICTHT_SIZE_MASK (ht_size_exp d htidx)));
          b \<leftarrow> bucket d htidx (snd position);
          c \<leftarrow> (if no_value (dtype d) then
                 (if b = [] then
                    (if keys_are_odd (dtype d) then
                       do { c_assert (key_addr (dtype d) key mod 4 \<noteq> 0); Some [EntryKey key] }
                     else do { e \<leftarrow> encodeMaskedPtr d key; Some [e] })
                  else Some (EntryNoValue key # b))
               else Some (EntryNormal key None # b));
          d \<leftarrow> set_bucket d htidx (snd position) c;
          Some (used_inc htidx d, (htidx, snd position, 0)) }"

text \<open>\<open>Inl\<close> is the existing entry, for which the source returns NULL; \<open>Inr\<close> is the new one.\<close>

definition dictAddRaw ::
  "dictResizeEnable \<Rightarrow> ('k, 'v) dict \<Rightarrow> 'k \<Rightarrow> (('k, 'v) dict \<times> (entry_ref + entry_ref)) option" where
  "dictAddRaw cr d key =
     do { (d, position) \<leftarrow> dictFindPositionForInsert cr d key;
          case position of
            Inl existing \<Rightarrow> Some (d, Inl existing)
          | Inr position \<Rightarrow>
              do { let key = (case keyDup (dtype d) of Some f \<Rightarrow> f key | None \<Rightarrow> key);
                   (d, e) \<leftarrow> dictInsertAtPosition d key position;
                   Some (d, Inr e) } }"

definition entry_at :: "('k, 'v) dict \<Rightarrow> entry_ref \<Rightarrow> ('k, 'v) dictEntry option" where
  "entry_at d r =
     (case r of (t, i, p) \<Rightarrow> do { c \<leftarrow> bucket d t i; if p < length c then Some (c ! p) else None })"

definition dictSetVal :: "('k, 'v) dict \<Rightarrow> entry_ref \<Rightarrow> 'v \<Rightarrow> ('k, 'v) dict option" where
  "dictSetVal d r val =
     (case r of (t, i, p) \<Rightarrow>
        do { de \<leftarrow> entry_at d r;
             c_assert (entryHasValue de);
             c \<leftarrow> bucket d t i;
             set_bucket d t i
               (c[p := EntryNormal (dictGetKey de) (Some (case valDup (dtype d) of Some f \<Rightarrow> f val | None \<Rightarrow> val))]) })"

definition dictGetVal :: "('k, 'v) dict \<Rightarrow> entry_ref \<Rightarrow> 'v option option" where
  "dictGetVal d r =
     do { de \<leftarrow> entry_at d r;
          c_assert (entryHasValue de);
          case de of EntryNormal _ v \<Rightarrow> Some v | _ \<Rightarrow> None }"

definition dictAdd :: "dictResizeEnable \<Rightarrow> ('k, 'v) dict \<Rightarrow> 'k \<Rightarrow> 'v \<Rightarrow> (('k, 'v) dict \<times> dict_ret) option" where
  "dictAdd cr d key val =
     do { (d, r) \<leftarrow> dictAddRaw cr d key;
          case r of
            Inl _ \<Rightarrow> Some (d, DICT_ERR)
          | Inr entry \<Rightarrow>
              do { d \<leftarrow> (if \<not> no_value (dtype d) then dictSetVal d entry val else Some d);
                   Some (d, DICT_OK) } }"

text \<open>The result says whether the key was added from scratch.\<close>

definition dictReplace :: "dictResizeEnable \<Rightarrow> ('k, 'v) dict \<Rightarrow> 'k \<Rightarrow> 'v \<Rightarrow> (('k, 'v) dict \<times> bool) option" where
  "dictReplace cr d key val =
     do { (d, r) \<leftarrow> dictAddRaw cr d key;
          case r of
            Inr entry \<Rightarrow> do { d \<leftarrow> dictSetVal d entry val; Some (d, True) }
          | Inl existing \<Rightarrow>
              do { _ \<leftarrow> dictGetVal d existing;
                   d \<leftarrow> dictSetVal d existing val;
                   Some (d, False) } }"

definition dictAddOrFind :: "dictResizeEnable \<Rightarrow> ('k, 'v) dict \<Rightarrow> 'k \<Rightarrow> (('k, 'v) dict \<times> entry_ref) option" where
  "dictAddOrFind cr d key =
     do { (d, r) \<leftarrow> dictAddRaw cr d key; Some (d, case r of Inl existing \<Rightarrow> existing | Inr entry \<Rightarrow> entry) }"

definition dictAddNonExistsByHash ::
  "dictResizeEnable \<Rightarrow> ('k, 'v) dict \<Rightarrow> 'k \<Rightarrow> hash \<Rightarrow> (('k, 'v) dict \<times> entry_ref) option" where
  "dictAddNonExistsByHash cr d key hash =
     do { let idx = dict_idx d 0 hash;
          d \<leftarrow> dictRehashStepIfNeeded cr d idx;
          d \<leftarrow> priv_dictExpandIfNeeded cr d;
          let table = (if dictIsRehashing d then 1 else 0);
          let key = (case keyDup (dtype d) of Some f \<Rightarrow> f key | None \<Rightarrow> key);
          dictInsertAtPosition d key (table, dict_idx d table hash) }"

text \<open>The chain without the entry at place \<open>p\<close>; the entry before it gets a new tail.\<close>

fun chain_unlink :: "('k, 'v) chain \<Rightarrow> nat \<Rightarrow> ('k, 'v) chain option" where
  "chain_unlink [] p = None"
| "chain_unlink (he # hes) 0 = Some (dictGetNext (he # hes))"
| "chain_unlink (he # hes) (Suc p) = do { c_assert (\<not> entryIsKey he); t \<leftarrow> chain_unlink hes p; Some (he # t) }"

definition unlink_at :: "('k, 'v) dict \<Rightarrow> entry_ref \<Rightarrow> ('k, 'v) dict option" where
  "unlink_at d r =
     (case r of (t, i, p) \<Rightarrow> do { c \<leftarrow> bucket d t i; c \<leftarrow> chain_unlink c p; set_bucket d t i c })"

text \<open>The removed entry is returned, \<open>None\<close> standing for NULL.\<close>

definition dictGenericDelete ::
  "dictResizeEnable \<Rightarrow> ('k, 'v) dict \<Rightarrow> 'k \<Rightarrow> (('k, 'v) dict \<times> ('k, 'v) dictEntry option) option" where
  "dictGenericDelete cr d key =
     (if dictSize d = 0 then Some (d, None)
      else
        do { let h = dictHashKey d key (useStoredKeyApi d);
             let idx = dict_idx d 0 h;
             d \<leftarrow> dictRehashStepIfNeeded cr d idx;
             r \<leftarrow> search_tables (key_eq d key) d h idx;
             case r of
               Inr _ \<Rightarrow> Some (d, None)
             | Inl r \<Rightarrow>
                 do { he \<leftarrow> entry_at d r;
                      d \<leftarrow> unlink_at d r;
                      d \<leftarrow> priv_dictShrinkIfNeeded cr (used_dec (fst r) d);
                      Some (d, Some he) } })"

definition dictDelete :: "dictResizeEnable \<Rightarrow> ('k, 'v) dict \<Rightarrow> 'k \<Rightarrow> (('k, 'v) dict \<times> dict_ret) option" where
  "dictDelete cr d key =
     do { (d, he) \<leftarrow> dictGenericDelete cr d key; Some (d, case he of Some _ \<Rightarrow> DICT_OK | None \<Rightarrow> DICT_ERR) }"

definition dictUnlink ::
  "dictResizeEnable \<Rightarrow> ('k, 'v) dict \<Rightarrow> 'k \<Rightarrow> (('k, 'v) dict \<times> ('k, 'v) dictEntry option) option" where
  "dictUnlink cr d key = dictGenericDelete cr d key"

definition key_eq_len :: "('k, 'v) dict \<Rightarrow> 'k \<Rightarrow> ('k, 'v) dictEntry \<Rightarrow> bool" where
  "key_eq_len d key he \<longleftrightarrow>
     key = dictGetKey he \<or>
     (case (keyLen (dtype d), keyCompareWithLen (dtype d)) of
        (Some len, Some cmp) \<Rightarrow> cmp key (len key) (dictGetKey he) (len (dictGetKey he))
      | _ \<Rightarrow> dictGetKeyCmpFunc d key (dictGetKey he))"

definition dictFindByHash ::
  "dictResizeEnable \<Rightarrow> ('k, 'v) dict \<Rightarrow> 'k \<Rightarrow> hash \<Rightarrow> (('k, 'v) dict \<times> entry_ref option) option" where
  "dictFindByHash cr d key hash =
     (if dictSize d = 0 then Some (d, None)
      else
        do { let idx = dict_idx d 0 hash;
             d \<leftarrow> dictRehashStepIfNeeded cr d idx;
             r \<leftarrow> search_tables (key_eq_len d key) d hash idx;
             Some (d, case r of Inl r \<Rightarrow> Some r | Inr _ \<Rightarrow> None) })"

definition dictFind :: "dictResizeEnable \<Rightarrow> ('k, 'v) dict \<Rightarrow> 'k \<Rightarrow> (('k, 'v) dict \<times> entry_ref option) option" where
  "dictFind cr d key =
     (if dictSize d = 0 then Some (d, None)
      else dictFindByHash cr d key (dictHashKey d key (useStoredKeyApi d)))"

definition dictFetchValue :: "dictResizeEnable \<Rightarrow> ('k, 'v) dict \<Rightarrow> 'k \<Rightarrow> (('k, 'v) dict \<times> 'v option) option" where
  "dictFetchValue cr d key =
     do { (d, he) \<leftarrow> dictFind cr d key;
          case he of None \<Rightarrow> Some (d, None) | Some r \<Rightarrow> do { v \<leftarrow> dictGetVal d r; Some (d, v) } }"

text \<open>Deletion in two phases: the first finds the entry and pauses rehashing, the second unlinks it.\<close>

definition dictTwoPhaseUnlinkFind ::
  "dictResizeEnable \<Rightarrow> ('k, 'v) dict \<Rightarrow> 'k \<Rightarrow> (('k, 'v) dict \<times> entry_ref option) option" where
  "dictTwoPhaseUnlinkFind cr d key =
     (if dictSize d = 0 then Some (d, None)
      else
        do { d \<leftarrow> (if dictIsRehashing d then dictRehashStep cr d else Some d);
             let h = dictHashKey d key (useStoredKeyApi d);
             r \<leftarrow> search_tables (key_eq d key) d h (dict_idx d 0 h);
             Some (case r of
                     Inl r \<Rightarrow> (d\<lparr>pauserehash := (pauserehash d + 1) mod 2 ^ 15\<rparr>, Some r)
                   | Inr _ \<Rightarrow> (d, None)) })"

definition dictTwoPhaseUnlinkFree ::
  "dictResizeEnable \<Rightarrow> ('k, 'v) dict \<Rightarrow> entry_ref option \<Rightarrow> ('k, 'v) dict option" where
  "dictTwoPhaseUnlinkFree cr d he =
     (case he of
        None \<Rightarrow> Some d
      | Some r \<Rightarrow>
          do { d \<leftarrow> unlink_at (used_dec (fst r) d) r;
               d \<leftarrow> priv_dictShrinkIfNeeded cr d;
               Some (d\<lparr>pauserehash := (pauserehash d + (2 ^ 15 - 1)) mod 2 ^ 15\<rparr>) })"

section \<open>Clearing\<close>

text \<open>
  The loop over the buckets of a table returns the entries it frees, in order. \<open>chain_nodes\<close> are the entries that a
  walk along the chain meets.
\<close>

fun chain_nodes :: "('k, 'v) chain \<Rightarrow> ('k, 'v) chain" where
  "chain_nodes [] = []"
| "chain_nodes (he # hes) = he # chain_nodes (dictGetNext (he # hes))"

fun dictClear_loop :: "('k, 'v) chain list \<Rightarrow> nat \<Rightarrow> ('k, 'v) dictEntry list" where
  "dictClear_loop [] used = []"
| "dictClear_loop (c # cs) used =
     (if used > 0 then chain_nodes c @ dictClear_loop cs ((ul_dec ^^ length (chain_nodes c)) used) else [])"

definition dictClear :: "('k, 'v) dict \<Rightarrow> nat \<Rightarrow> (('k, 'v) dict \<times> ('k, 'v) dictEntry list) option" where
  "dictClear d htidx =
     (let n = DICTHT_SIZE (ht_size_exp d htidx) in
      case ht_table d htidx of
        None \<Rightarrow> if n > 0 \<and> ht_used d htidx > 0 then None else Some (dictReset d htidx, [])
      | Some tb \<Rightarrow>
          if length tb < n then None else Some (dictReset d htidx, dictClear_loop (take n tb) (ht_used d htidx)))"

definition dictEmpty :: "('k, 'v) dict \<Rightarrow> (('k, 'v) dict \<times> ('k, 'v) dictEntry list) option" where
  "dictEmpty d =
     do { (d, freed0) \<leftarrow> dictClear d 0;
          (d, freed1) \<leftarrow> dictClear d 1;
          Some (d\<lparr>rehashidx := -1, pauserehash := 0, pauseAutoResize := 0\<rparr>, freed0 @ freed1) }"

end
