(* ===== verification/Dict_Inv.thy ===== *)
theory Dict_Inv
  imports Dict
begin

text \<open>
  The representation invariant of the hash table and its preservation by rehashing and resizing. \<open>eq\<close> is the
  equivalence of keys that the compare functions of the type decide. \<open>dict_bag\<close> is the multiset of the stored pairs of
  key and value; no rehashing step and no resizing changes it.
\<close>

section \<open>Assumptions on the type\<close>

text \<open>
  Keys are stored in the form in which they are looked up: a hash or compare function for stored keys, if there is one, is
  the ordinary one. Tables whose stored keys have a form of their own are outside of this contract.
\<close>

definition type_ok :: "('k, 'v) dictType \<Rightarrow> ('k \<Rightarrow> 'k \<Rightarrow> bool) \<Rightarrow> bool" where
  "type_ok T eq \<longleftrightarrow>
     equivp eq \<and>
     (\<forall>k k'. eq k k' \<longrightarrow> hashFunction T k = hashFunction T k') \<and>
     (\<forall>f. storedHashFunction T = Some f \<longrightarrow> f = hashFunction T) \<and>
     (case keyCompare T of None \<Rightarrow> eq = (=) | Some f \<Rightarrow> f = eq) \<and>
     (\<forall>f. storedKeyCompare T = Some f \<longrightarrow> f = eq) \<and>
     (\<forall>f k. keyDup T = Some f \<longrightarrow> eq k (f k)) \<and>
     (\<forall>len cmp k k'. keyLen T = Some len \<longrightarrow> keyCompareWithLen T = Some cmp \<longrightarrow> cmp k (len k) k' (len k') = eq k k') \<and>
     (\<forall>k. no_value T \<longrightarrow> (if keys_are_odd T then odd (key_addr T k) else key_addr T k mod 8 = 0))"

lemma type_okD:
  assumes "type_ok T eq"
  shows "eq k k" "eq k k' \<Longrightarrow> eq k' k" "eq k k' \<Longrightarrow> eq k' k'' \<Longrightarrow> eq k k''" "eq k k' \<Longrightarrow> hashFunction T k = hashFunction T k'"
  using assms unfolding type_ok_def by (auto elim: equivp_reflp equivp_symp equivp_transp)

lemma dictHashKey_eq: "type_ok (dtype d) eq \<Longrightarrow> dictHashKey d k b = hashFunction (dtype d) k"
  by (auto simp: type_ok_def dictHashKey_def split: bool.split option.split)

lemma dictGetKeyCmpFunc_eq: "type_ok (dtype d) eq \<Longrightarrow> dictGetKeyCmpFunc d = eq"
  by (auto simp: type_ok_def dictGetKeyCmpFunc_def dictDefaultCompare_def fun_eq_iff split: bool.split option.splits)

lemma key_eq_eq:
  assumes "type_ok (dtype d) eq"
  shows "key_eq d k he = eq k (dictGetKey he)" "key_eq_len d k he = eq k (dictGetKey he)"
proof -
  note r = type_okD(1) [OF assms] dictGetKeyCmpFunc_eq [OF assms]
  show "key_eq d k he = eq k (dictGetKey he)" using r by (auto simp: key_eq_def)
  have "\<And>len cmp. keyLen (dtype d) = Some len \<Longrightarrow> keyCompareWithLen (dtype d) = Some cmp \<Longrightarrow>
      cmp k (len k) (dictGetKey he) (len (dictGetKey he)) = eq k (dictGetKey he)"
    using assms unfolding type_ok_def by blast
  then show "key_eq_len d k he = eq k (dictGetKey he)" using r by (auto simp: key_eq_len_def split: option.split)
qed

section \<open>Chains and tables\<close>

definition chain_ok :: "('k, 'v) dictType \<Rightarrow> ('k, 'v) chain \<Rightarrow> bool" where
  "chain_ok T c \<longleftrightarrow>
     (if no_value T then (\<forall>e \<in> set c. \<not> entryIsNormal e) \<and> (\<forall>e \<in> set (butlast c). \<not> entryIsKey e)
      else (\<forall>e \<in> set c. entryIsNormal e))"

lemma entry_cases: "entryIsNormal e \<Longrightarrow> \<not> entryIsKey e" "\<not> entryIsNormal e \<Longrightarrow> \<not> entryIsKey e \<Longrightarrow> entryIsNoValue e"
  by (cases e; simp)+

lemma chain_ok_Nil [simp]: "chain_ok T []"
  by (simp add: chain_ok_def)

lemma chain_ok_next:
  assumes "chain_ok T (e # c)"
  shows "dictGetNext (e # c) = c" "chain_ok T c"
  using assms by (cases c; auto simp: chain_ok_def entry_cases split: if_splits)+

lemma chain_nodes_eq: "chain_ok T c \<Longrightarrow> chain_nodes c = c"
  by (induction c) (auto simp: chain_ok_next simp del: dictGetNext.simps)

lemma chain_find_eq:
  "chain_ok T c \<Longrightarrow>
   chain_find P c = (if \<exists>e \<in> set c. P e then Some (length (takeWhile (\<lambda>e. \<not> P e) c)) else None)"
  by (induction c) (auto simp: chain_ok_next simp del: dictGetNext.simps)

lemma takeWhile_less: "\<exists>e \<in> set c. P e \<Longrightarrow> length (takeWhile (\<lambda>e. \<not> P e) c) < length c"
  by (induction c) auto

lemma chain_find_cases:
  assumes "chain_ok T c"
  obtains (found) p where "chain_find P c = Some p" "p < length c" "P (c ! p)"
  | (absent) "chain_find P c = None" "\<forall>e \<in> set c. \<not> P e"
proof (cases "\<exists>e \<in> set c. P e")
  case True
  then have "length (takeWhile (\<lambda>e. \<not> P e) c) < length c" by (rule takeWhile_less)
  then show thesis using True found chain_find_eq [OF assms, of P] nth_length_takeWhile [of "\<lambda>e. \<not> P e" c] by simp
next
  case False
  then show thesis using absent chain_find_eq [OF assms, of P] by auto
qed

lemma chain_unlink_eq:
  "chain_ok T c \<Longrightarrow> p < length c \<Longrightarrow> chain_unlink c p = Some (take p c @ drop (Suc p) c)"
proof (induction c p rule: chain_unlink.induct)
  case (2 he hes)
  then show ?case by (simp add: chain_ok_next del: dictGetNext.simps)
next
  case (3 he hes p)
  have "\<not> entryIsKey he" using 3 by (cases hes) (auto simp: chain_ok_def entry_cases split: if_splits)
  then show ?case using 3 chain_ok_next(2) by fastforce
qed simp

lemma chain_ok_unlink: "chain_ok T c \<Longrightarrow> chain_ok T (take p c @ drop (Suc p) c)"
proof (induction c arbitrary: p)
  case (Cons e c)
  then show ?case
  proof (cases p)
    case (Suc q)
    have k: "chain_ok T (take q c @ drop (Suc q) c)" using Cons chain_ok_next(2) by blast
    show ?thesis
    proof (cases "no_value T")
      case True
      have "take q c @ drop (Suc q) c \<noteq> [] \<Longrightarrow> \<not> entryIsKey e" using Cons.prems True by (cases c) (auto simp: chain_ok_def)
      then show ?thesis using k Cons.prems True Suc by (auto simp: chain_ok_def)
    qed (use k Cons.prems Suc in \<open>auto simp: chain_ok_def\<close>)
  qed (use chain_ok_next(2) in auto)
qed simp

definition tb_ok :: "('k, 'v) dictType \<Rightarrow> nat \<Rightarrow> ('k, 'v) chain list \<Rightarrow> bool" where
  "tb_ok T e tb \<longleftrightarrow>
     length tb = 2 ^ e \<and>
     (\<forall>i < 2 ^ e. chain_ok T (tb ! i) \<and> (\<forall>x \<in> set (tb ! i). unat (hashFunction T (dictGetKey x)) mod 2 ^ e = i))"

lemma tb_ok_replicate: "tb_ok T e (replicate (2 ^ e) [])"
  by (simp add: tb_ok_def)

lemma tb_ok_update:
  assumes "tb_ok T e tb" "chain_ok T c" "\<forall>x \<in> set c. unat (hashFunction T (dictGetKey x)) mod 2 ^ e = i"
  shows "tb_ok T e (tb[i := c])"
  unfolding tb_ok_def
proof (intro conjI allI impI)
  fix j :: nat
  assume "j < 2 ^ e"
  then show "chain_ok T (tb[i := c] ! j)" "\<forall>x \<in> set (tb[i := c] ! j). unat (hashFunction T (dictGetKey x)) mod 2 ^ e = j"
    using assms by (cases "i = j"; simp add: tb_ok_def)+
qed (use assms(1) in \<open>simp add: tb_ok_def\<close>)

lemma mset_concat_update:
  assumes "i < length tb"
  shows "mset (concat (tb[i := c])) + mset (tb ! i) = mset (concat tb) + mset c"
proof -
  have "concat tb = concat (take i tb) @ tb ! i @ concat (drop (Suc i) tb)"
    by (subst id_take_nth_drop [OF assms]) (simp only: concat_append concat.simps)
  then show ?thesis using assms by (simp add: upd_conv_take_nth_drop)
qed

lemma length_concat_update:
  assumes "i < length tb"
  shows "length (concat (tb[i := c])) + length (tb ! i) = length (concat tb) + length c"
  using arg_cong [OF mset_concat_update [OF assms, of c], of size] by (simp only: size_union size_mset)

lemma in_bucket: "tb_ok T e tb \<Longrightarrow> x \<in> set (concat tb) \<Longrightarrow> x \<in> set (tb ! (unat (hashFunction T (dictGetKey x)) mod 2 ^ e))"
  by (auto simp: tb_ok_def in_set_conv_nth [of _ tb])

lemma dict_idx_eq:
  assumes "ht_size_exp d t = int e" "e \<le> 63"
  shows "dict_idx d t h = unat h mod 2 ^ e"
proof -
  have "DICTHT_SIZE_MASK (int e) = mask e"
    by (simp add: DICTHT_SIZE_MASK_def DICTHT_SIZE_def mask_eq_exp_minus_1)
  then have "dict_idx d t h = unat (take_bit e h)" using assms by (simp add: dict_idx_def take_bit_eq_mask)
  then show ?thesis by (simp only: unsigned_take_bit_eq) (simp add: take_bit_eq_mod)
qed

lemma mask_bound: "e \<le> 63 \<Longrightarrow> unat (DICTHT_SIZE_MASK (int e)) = 2 ^ e - 1"
proof -
  assume e: "e \<le> 63"
  have "DICTHT_SIZE_MASK (int e) = mask e"
    by (simp add: DICTHT_SIZE_MASK_def DICTHT_SIZE_def mask_eq_exp_minus_1)
  then show ?thesis using e by (simp add: unat_eq_nat_uint uint_mask_eq) (simp add: mask_eq_exp_minus_1 nat_diff_distrib nat_power_eq)
qed

section \<open>The invariant\<close>

fun entryVal :: "('k, 'v) dictEntry \<Rightarrow> 'v option" where
  "entryVal (EntryNormal _ v) = v"
| "entryVal _ = None"

definition kv :: "('k, 'v) dictEntry \<Rightarrow> 'k \<times> 'v option" where
  "kv e = (dictGetKey e, entryVal e)"

abbreviation bag :: "('k, 'v) dictEntry list \<Rightarrow> ('k \<times> 'v option) multiset" where
  "bag es \<equiv> image_mset kv (mset es)"

definition tbl :: "('k, 'v) dict \<Rightarrow> nat \<Rightarrow> ('k, 'v) chain list" where
  "tbl d t = (case ht_table d t of None \<Rightarrow> [] | Some tb \<Rightarrow> tb)"

definition dict_bag :: "('k, 'v) dict \<Rightarrow> ('k \<times> 'v option) multiset" where
  "dict_bag d = bag (concat (tbl d 0)) + bag (concat (tbl d 1))"

definition has :: "('k, 'v) dict \<Rightarrow> nat \<Rightarrow> nat \<Rightarrow> ('k, 'v) chain list \<Rightarrow> bool" where
  "has d t e tb \<longleftrightarrow> ht_table d t = Some tb \<and> ht_size_exp d t = int e \<and> ht_used d t = length (concat tb) \<and>
     tb_ok (dtype d) e tb \<and> e \<le> 60"

definition has_none :: "('k, 'v) dict \<Rightarrow> nat \<Rightarrow> bool" where
  "has_none d t \<longleftrightarrow> ht_table d t = None \<and> ht_size_exp d t = -1 \<and> ht_used d t = 0"

definition rehash_ok :: "('k, 'v) dict \<Rightarrow> bool" where
  "rehash_ok d \<longleftrightarrow>
     (\<exists>e0 tb0 e1 tb1. has d 0 e0 tb0 \<and> has d 1 e1 tb1 \<and> e0 \<noteq> e1 \<and> 0 \<le> rehashidx d \<and> rehashidx d \<le> 2 ^ e0 \<and>
        (\<forall>i < nat (rehashidx d). tb0 ! i = []))"

definition keys_distinct :: "('k \<Rightarrow> 'k \<Rightarrow> bool) \<Rightarrow> ('k \<times> 'v option) multiset \<Rightarrow> bool" where
  "keys_distinct eq B \<longleftrightarrow> (\<forall>k. size (filter_mset (\<lambda>p. eq k (fst p)) B) \<le> 1)"

text \<open>The number of entries is below 2^63, as many as the memory can hold.\<close>

definition dict_ok :: "('k \<Rightarrow> 'k \<Rightarrow> bool) \<Rightarrow> ('k, 'v) dict \<Rightarrow> bool" where
  "dict_ok eq d \<longleftrightarrow>
     type_ok (dtype d) eq \<and> keys_distinct eq (dict_bag d) \<and> size (dict_bag d) < 2 ^ 63 \<and>
     (if rehashidx d = -1 then has_none d 1 \<and> (has_none d 0 \<or> (\<exists>e tb. has d 0 e tb)) else rehash_ok d)"

lemma bag_simps:
  "has d t e tb \<Longrightarrow> tbl d t = tb" "has_none d t \<Longrightarrow> tbl d t = []"
  by (simp_all add: has_def has_none_def tbl_def)

lemma dict_bag_two:
  assumes "has d 0 e0 tb0" "has d 1 e1 tb1"
  shows "dict_bag d = bag (concat tb0) + bag (concat tb1)" "size (dict_bag d) = ht_used d 0 + ht_used d 1"
  using assms by (simp_all add: dict_bag_def bag_simps) (simp_all add: has_def)

lemma used_le_bag:
  assumes "dict_ok eq d"
  shows "ht_used d 0 + ht_used d 1 = size (dict_bag d)" "dictSize d = size (dict_bag d)"
proof -
  have "ht_used d 0 + ht_used d 1 = size (dict_bag d)"
  proof (cases "rehashidx d = -1")
    case True
    then have "has_none d 1" "has_none d 0 \<or> (\<exists>e tb. has d 0 e tb)" using assms by (auto simp: dict_ok_def)
    then show ?thesis by (auto simp: dict_bag_def bag_simps) (auto simp: has_def has_none_def)
  next
    case False
    then show ?thesis using assms dict_bag_two(2) by (fastforce simp: dict_ok_def rehash_ok_def)
  qed
  then show "ht_used d 0 + ht_used d 1 = size (dict_bag d)" "dictSize d = size (dict_bag d)"
    using assms by (simp_all add: dictSize_def dict_ok_def)
qed

section \<open>Moving one bucket\<close>

lemma rehash_entry_ok:
  assumes "type_ok (dtype d) eq" "chain_ok (dtype d) (de # des)" "chain_ok (dtype d) dst"
  obtains c where "rehash_entry d de dst = Some c" "chain_ok (dtype d) c" "bag c = add_mset (kv de) (bag dst)"
    "dictGetKey ` set c = insert (dictGetKey de) (dictGetKey ` set dst)" "length c = Suc (length dst)"
proof -
  let ?T = "dtype d" and ?k = "dictGetKey de"
  have al: "no_value ?T \<Longrightarrow> \<not> keys_are_odd ?T \<Longrightarrow> key_addr ?T ?k mod 8 = 0" using assms(1) by (auto simp: type_ok_def)
  show thesis
  proof (cases "no_value ?T")
    case True
    have nv: "entryVal de = None" using assms(2) True by (cases de) (auto simp: chain_ok_def)
    show thesis
    proof (cases "dst = []")
      case True
      then have "rehash_entry d de dst = Some [EntryKey ?k]"
        using \<open>no_value ?T\<close> al by (auto simp: rehash_entry_def encodeMaskedPtr_def Let_def)
      then show thesis using that [of "[EntryKey ?k]"] True \<open>no_value ?T\<close> nv by (simp add: chain_ok_def kv_def)
    next
      case False
      let ?e = "EntryNoValue ?k :: ('a, 'b) dictEntry"
      have "rehash_entry d de dst = Some (?e # dst)"
        using \<open>no_value ?T\<close> False assms(2)
        by (cases de) (auto simp: rehash_entry_def dictSetNext_def chain_ok_def)
      then show thesis using that [of "?e # dst"] False \<open>no_value ?T\<close> nv assms(3) by (simp add: chain_ok_def kv_def)
    qed
  next
    case False
    then have "rehash_entry d de dst = Some (de # dst)" "entryIsNormal de"
      using assms(2) by (cases de; auto simp: rehash_entry_def dictSetNext_def chain_ok_def)+
    then show thesis using that [of "de # dst"] False assms(3) by (simp add: chain_ok_def)
  qed
qed

definition moved :: "('k, 'v) dict \<Rightarrow> ('k, 'v) chain list \<Rightarrow> nat \<Rightarrow> ('k, 'v) dict" where
  "moved d tb1 n = d\<lparr>ht_table := (ht_table d)(1 := Some tb1),
     ht_used := (ht_used d)(0 := ht_used d 0 - n, 1 := ht_used d 1 + n)\<rparr>"

lemma rehashEntries_loop_ok:
  assumes "type_ok (dtype d) eq" "chain_ok (dtype d) c"
    "\<forall>x \<in> set c. unat (hashFunction (dtype d) (dictGetKey x)) mod 2 ^ e0 = idx"
    "ht_size_exp d 0 = int e0" "e0 \<le> 60" "ht_size_exp d 1 = int e1" "e1 \<le> 60" "e0 \<noteq> e1"
    "ht_table d 1 = Some tb1" "tb_ok (dtype d) e1 tb1"
    "length c \<le> ht_used d 0" "ht_used d 0 + ht_used d 1 < 2 ^ 63"
  shows "\<exists>tb1'. rehashEntries_loop d idx c = Some (moved d tb1' (length c)) \<and> tb_ok (dtype d) e1 tb1' \<and>
    bag (concat tb1') = bag c + bag (concat tb1) \<and> length (concat tb1') = length c + length (concat tb1)"
  using assms
proof (induction c arbitrary: d tb1)
  case Nil
  then show ?case by (intro exI [of _ tb1]) (simp add: moved_def fun_upd_idem)
next
  case (Cons de c)
  let ?T = "dtype d"
  define h where "h = unat (hashFunction ?T (dictGetKey de)) mod 2 ^ e1"
  have len: "length tb1 = 2 ^ e1" using Cons.prems(10) by (simp add: tb_ok_def)
  have h: "h < length tb1" by (simp add: h_def len)
  have "idx < 2 ^ e0" using Cons.prems(3) by auto
  moreover have "(2 :: nat) ^ e0 \<le> 2 ^ 60" using Cons.prems(5) by (intro power_increasing) auto
  ultimately have "unat (of_nat idx :: hash) = idx" by (simp add: unsigned_of_nat take_bit_nat_eq_self)
  moreover have "e1 < e0 \<Longrightarrow> idx mod 2 ^ e1 = h"
    using Cons.prems(3) by (auto simp: h_def mod_mod_cancel le_imp_power_dvd)
  ultimately have hh: "(if ht_size_exp d 1 > ht_size_exp d 0 then dict_idx d 1 (dictHashKey d (dictGetKey de) True)
      else dict_idx d 1 (of_nat idx)) = h"
    using Cons.prems by (auto simp: dict_idx_eq dictHashKey_eq h_def)
  have dst: "chain_ok ?T (tb1 ! h)" "\<forall>x \<in> set (tb1 ! h). unat (hashFunction ?T (dictGetKey x)) mod 2 ^ e1 = h"
    using Cons.prems(10) h len by (auto simp: tb_ok_def)
  obtain c' where c': "rehash_entry d de (tb1 ! h) = Some c'" "chain_ok ?T c'" "bag c' = add_mset (kv de) (bag (tb1 ! h))"
    "dictGetKey ` set c' = insert (dictGetKey de) (dictGetKey ` set (tb1 ! h))" "length c' = Suc (length (tb1 ! h))"
    using rehash_entry_ok [OF Cons.prems(1,2) dst(1)] .
  define tb where "tb = tb1[h := c']"
  have ix: "\<forall>x \<in> set c'. unat (hashFunction ?T (dictGetKey x)) mod 2 ^ e1 = h"
  proof
    fix x assume "x \<in> set c'"
    then have "dictGetKey x \<in> insert (dictGetKey de) (dictGetKey ` set (tb1 ! h))" using c'(4) by blast
    then show "unat (hashFunction ?T (dictGetKey x)) mod 2 ^ e1 = h" using dst(2) by (auto simp: h_def)
  qed
  have tb: "tb_ok ?T e1 tb" unfolding tb_def by (rule tb_ok_update [OF Cons.prems(10) c'(2) ix])
  have "bag (concat tb) + bag (tb1 ! h) = add_mset (kv de) (bag (concat tb1)) + bag (tb1 ! h)"
    using arg_cong [OF mset_concat_update [OF h, of c'], of "image_mset kv"] c'(3) by (simp add: tb_def)
  then have bag: "bag (concat tb) = add_mset (kv de) (bag (concat tb1))" by simp
  have lc: "length (concat tb) = Suc (length (concat tb1))"
    using length_concat_update [OF h, of c'] c'(5) by (simp add: tb_def)
  have u: "used_inc 1 (used_dec 0 (d\<lparr>ht_table := (ht_table d)(1 := Some tb)\<rparr>)) = moved d tb 1"
    using Cons.prems(11,12) by (simp add: used_inc_def used_dec_def ul_dec_eq ul_inc_eq moved_def)
  have step: "rehashEntries_loop d idx (de # c) = rehashEntries_loop (moved d tb 1) idx c"
    unfolding rehashEntries_loop.simps Let_def hh chain_ok_next(1) [OF Cons.prems(2)]
    using c'(1) h Cons.prems(9) u by (simp add: bucket_def set_bucket_def tb_def)
  have "\<exists>tb1'. rehashEntries_loop (moved d tb 1) idx c = Some (moved (moved d tb 1) tb1' (length c)) \<and>
      tb_ok (dtype (moved d tb 1)) e1 tb1' \<and> bag (concat tb1') = bag c + bag (concat tb) \<and>
      length (concat tb1') = length c + length (concat tb)"
    by (rule Cons.IH) (use Cons.prems chain_ok_next(2) [OF Cons.prems(2)] tb in \<open>simp_all add: moved_def\<close>)
  moreover have "moved (moved d tb 1) tb1' (length c) = moved d tb1' (Suc (length c))" for tb1'
    by (simp add: moved_def)
  ultimately show ?case unfolding step using bag lc by (auto simp: moved_def)
qed

text \<open>Two states with the same contents and the same settings.\<close>

definition same_env :: "('k, 'v) dict \<Rightarrow> ('k, 'v) dict \<Rightarrow> bool" where
  "same_env d d' \<longleftrightarrow> dtype d' = dtype d \<and> pauserehash d' = pauserehash d \<and> useStoredKeyApi d' = useStoredKeyApi d \<and>
     pauseAutoResize d' = pauseAutoResize d"

definition keeps :: "('k \<Rightarrow> 'k \<Rightarrow> bool) \<Rightarrow> ('k, 'v) dict \<Rightarrow> ('k, 'v) dict \<Rightarrow> bool" where
  "keeps eq d d' \<longleftrightarrow> dict_ok eq d' \<and> dict_bag d' = dict_bag d \<and> same_env d d'"

lemma keeps_refl: "dict_ok eq d \<Longrightarrow> keeps eq d d"
  by (simp add: keeps_def same_env_def)

lemma keeps_trans: "keeps eq d d' \<Longrightarrow> keeps eq d' d'' \<Longrightarrow> keeps eq d d''"
  by (auto simp: keeps_def same_env_def)

lemma rehash_okD:
  assumes "dict_ok eq d" "dictIsRehashing d"
  obtains e0 tb0 e1 tb1 where "has d 0 e0 tb0" "has d 1 e1 tb1" "e0 \<noteq> e1" "0 \<le> rehashidx d" "rehashidx d \<le> 2 ^ e0"
    "\<forall>i < nat (rehashidx d). tb0 ! i = []"
  using assms unfolding dict_ok_def rehash_ok_def dictIsRehashing_def by auto

lemma dict_okI:
  assumes "dict_ok eq d" "same_env d d'" "dict_bag d' = dict_bag d" "rehash_ok d'" "rehashidx d' \<noteq> -1"
  shows "keeps eq d d'"
  using assms by (simp add: keeps_def dict_ok_def same_env_def)

lemma rehashEntriesInBucketAtIndex_ok:
  assumes "dict_ok eq d" "has d 0 e0 tb0" "has d 1 e1 tb1" "e0 \<noteq> e1" "idx < 2 ^ e0"
  shows "\<exists>d' tb1'. rehashEntriesInBucketAtIndex d idx = Some d' \<and> has d' 0 e0 (tb0[idx := []]) \<and> has d' 1 e1 tb1' \<and>
    dict_bag d' = dict_bag d \<and> same_env d d' \<and> rehashidx d' = rehashidx d"
proof -
  let ?T = "dtype d"
  have t: "type_ok ?T eq" "ht_used d 0 + ht_used d 1 < 2 ^ 63"
    using assms(1) used_le_bag(1) [OF assms(1)] by (simp_all add: dict_ok_def)
  note h0 = assms(2) [unfolded has_def] and h1 = assms(3) [unfolded has_def]
  have i: "idx < length tb0" using h0 assms(5) by (simp add: tb_ok_def)
  note lc = length_concat_update [OF i, of "[]"]
  obtain tb1' where l: "rehashEntries_loop d idx (tb0 ! idx) = Some (moved d tb1' (length (tb0 ! idx)))" "tb_ok ?T e1 tb1'"
    "bag (concat tb1') = bag (tb0 ! idx) + bag (concat tb1)" "length (concat tb1') = length (tb0 ! idx) + length (concat tb1)"
    using rehashEntries_loop_ok [of d eq "tb0 ! idx" e0 idx e1 tb1] t h0 h1 assms(4,5) lc by (auto simp: tb_ok_def)
  define d' where "d' = (moved d tb1' (length (tb0 ! idx)))\<lparr>ht_table := (ht_table d)(0 := Some (tb0[idx := []]), 1 := Some tb1')\<rparr>"
  have r: "rehashEntriesInBucketAtIndex d idx = Some d'"
    using l(1) h0 i by (simp add: rehashEntriesInBucketAtIndex_def bucket_def set_bucket_def moved_def d'_def fun_upd_twist)
  have ok0: "tb_ok ?T e0 (tb0[idx := []])" using h0 by (intro tb_ok_update) auto
  have has: "has d' 0 e0 (tb0[idx := []])" "has d' 1 e1 tb1'"
    using h0 h1 ok0 l(2,4) lc by (simp_all add: has_def d'_def moved_def)
  have "bag (concat (tb0[idx := []])) + bag (tb0 ! idx) = bag (concat tb0)"
    using arg_cong [OF mset_concat_update [OF i, of "[]"], of "image_mset kv"] by simp
  then have "dict_bag d' = dict_bag d"
    using dict_bag_two(1) [OF has] dict_bag_two(1) [OF assms(2,3)] l(3) by (simp add: add.assoc)
  then show ?thesis using r has by (intro exI [of _ d'] exI [of _ tb1']) (simp add: d'_def moved_def same_env_def)
qed

lemma dictCheckRehashingCompleted_ok:
  assumes "dict_ok eq d" "dictIsRehashing d"
  shows "if ht_used d 0 = 0
    then \<exists>d'. dictCheckRehashingCompleted d = (d', True) \<and> keeps eq d d' \<and> rehashidx d' = -1
    else dictCheckRehashingCompleted d = (d, False)"
proof (cases "ht_used d 0 = 0")
  case True
  obtain e0 tb0 e1 tb1 where h: "has d 0 e0 tb0" "has d 1 e1 tb1" using rehash_okD [OF assms] .
  define d' where "d' = fst (dictCheckRehashingCompleted d)"
  have "dictCheckRehashingCompleted d = (d', True)" using True by (simp add: d'_def dictCheckRehashingCompleted_def Let_def)
  moreover have has: "has d' 0 e1 tb1" "has_none d' 1" and e: "same_env d d'" "rehashidx d' = -1"
    using True h by (auto simp: d'_def dictCheckRehashingCompleted_def Let_def dictReset_def has_def has_none_def same_env_def)
  moreover have "dict_bag d' = dict_bag d"
    using True h has dict_bag_two(1) [OF h] by (simp add: dict_bag_def bag_simps) (simp add: has_def)
  ultimately show ?thesis using True assms(1) by (auto simp: keeps_def dict_ok_def same_env_def)
qed (simp add: dictCheckRehashingCompleted_def)

lemma dictRehash_skip_ok:
  assumes "ht_table d 0 = Some tb0" "0 \<le> rehashidx d" "rehashidx d \<le> int j" "j < length tb0" "tb0 ! j \<noteq> []"
    "\<forall>i < nat (rehashidx d). tb0 ! i = []"
  shows "\<exists>r. rehashidx d \<le> r \<and> r \<le> int j \<and> (\<forall>i < nat r. tb0 ! i = []) \<and>
    (dictRehash_skip d ev = Some (Inl (d\<lparr>rehashidx := r\<rparr>)) \<and> rehashidx d < r \<or>
     (\<exists>ev'. dictRehash_skip d ev = Some (Inr (d\<lparr>rehashidx := r\<rparr>, ev'))))"
  using assms
proof (induction "nat (int j - rehashidx d)" arbitrary: d ev)
  case 0
  then have "rehashidx d = int j" by simp
  then have "dictRehash_skip d ev = Some (Inr (d\<lparr>rehashidx := rehashidx d\<rparr>, ev))"
    using 0 by (subst dictRehash_skip.simps) (simp add: bucket_def split: list.split)
  then show ?case using 0 by (intro exI [of _ "rehashidx d"]) auto
next
  case (Suc n)
  let ?i = "nat (rehashidx d)"
  have b: "bucket d 0 ?i = Some (tb0 ! ?i)" "\<not> rehashidx d < 0" using Suc.prems by (auto simp: bucket_def)
  show ?case
  proof (cases "tb0 ! ?i")
    case Nil
    let ?d = "d\<lparr>rehashidx := rehashidx d + 1\<rparr>"
    have lt: "rehashidx d < int j" using Suc.prems Nil by (cases "rehashidx d = int j") auto
    have e: "\<forall>i < nat (rehashidx d + 1). tb0 ! i = []" using Suc.prems(2,6) Nil by (auto simp: less_Suc_eq nat_add_distrib)
    show ?thesis
    proof (cases "ev - 1 = 0")
      case True
      have "dictRehash_skip d ev = Some (Inl ?d)" by (subst dictRehash_skip.simps) (simp add: b Nil True Let_def)
      then show ?thesis using lt e by (intro exI [of _ "rehashidx d + 1"]) auto
    next
      case False
      have s: "dictRehash_skip d ev = dictRehash_skip ?d (ev - 1)"
        by (subst dictRehash_skip.simps) (use False in \<open>simp add: b Nil Let_def\<close>)
      have "\<exists>r. rehashidx ?d \<le> r \<and> r \<le> int j \<and> (\<forall>i < nat r. tb0 ! i = []) \<and>
          (dictRehash_skip ?d (ev - 1) = Some (Inl (?d\<lparr>rehashidx := r\<rparr>)) \<and> rehashidx ?d < r \<or>
           (\<exists>ev'. dictRehash_skip ?d (ev - 1) = Some (Inr (?d\<lparr>rehashidx := r\<rparr>, ev'))))"
        by (rule Suc.hyps(1)) (use Suc.hyps(2) Suc.prems lt e in auto)
      then obtain r where "rehashidx d + 1 \<le> r" "r \<le> int j" "\<forall>i < nat r. tb0 ! i = []"
        "dictRehash_skip d ev = Some (Inl (d\<lparr>rehashidx := r\<rparr>)) \<or> (\<exists>ev'. dictRehash_skip d ev = Some (Inr (d\<lparr>rehashidx := r\<rparr>, ev')))"
        unfolding s by auto
      then show ?thesis by (intro exI [of _ r]) auto
    qed
  next
    case (Cons x xs)
    have "dictRehash_skip d ev = Some (Inr (d\<lparr>rehashidx := rehashidx d\<rparr>, ev))"
      by (subst dictRehash_skip.simps) (simp add: b Cons)
    then show ?thesis using Suc.prems by (intro exI [of _ "rehashidx d"]) auto
  qed
qed

section \<open>Rehashing\<close>

text \<open>What a rehashing step promises: the contents stay; either it is complete, or the sizes are the same and the
  index has not gone back.\<close>

definition rehash_step :: "('k \<Rightarrow> 'k \<Rightarrow> bool) \<Rightarrow> ('k, 'v) dict \<Rightarrow> ('k, 'v) dict \<Rightarrow> bool" where
  "rehash_step eq d d' \<longleftrightarrow> keeps eq d d' \<and>
     (rehashidx d' = -1 \<or>
      dictIsRehashing d' \<and> ht_size_exp d' 0 = ht_size_exp d 0 \<and> ht_size_exp d' 1 = ht_size_exp d 1 \<and> rehashidx d \<le> rehashidx d')"

lemma rehash_step_refl: "dict_ok eq d \<Longrightarrow> rehash_step eq d d"
  by (auto simp: rehash_step_def keeps_refl dictIsRehashing_def)

lemma rehash_step_trans:
  "rehash_step eq d d' \<Longrightarrow> dictIsRehashing d' \<Longrightarrow> rehash_step eq d' d'' \<Longrightarrow> rehash_step eq d d''"
  by (auto simp: rehash_step_def dictIsRehashing_def dest: keeps_trans)

lemma completed_step:
  assumes "dict_ok eq d" "dictIsRehashing d"
  shows "rehash_step eq d (fst (dictCheckRehashingCompleted d))"
    "snd (dictCheckRehashingCompleted d) \<longleftrightarrow> ht_used d 0 = 0"
    "snd (dictCheckRehashingCompleted d) \<longleftrightarrow> rehashidx (fst (dictCheckRehashingCompleted d)) = -1"
    "\<not> snd (dictCheckRehashingCompleted d) \<Longrightarrow> fst (dictCheckRehashingCompleted d) = d"
  using dictCheckRehashingCompleted_ok [OF assms] assms keeps_refl [OF assms(1)]
  by (auto simp: rehash_step_def dictIsRehashing_def split: if_splits)

lemma nonempty_bucket:
  assumes "has d 0 e0 tb0" "ht_used d 0 \<noteq> 0" "\<forall>i < nat (rehashidx d). tb0 ! i = []" "0 \<le> rehashidx d"
  obtains j where "j < length tb0" "tb0 ! j \<noteq> []" "rehashidx d \<le> int j"
proof -
  have "concat tb0 \<noteq> []" using assms(1,2) by (auto simp: has_def)
  then obtain c where "c \<in> set tb0" "c \<noteq> []" by auto
  then obtain j where j: "j < length tb0" "tb0 ! j \<noteq> []" by (auto simp: in_set_conv_nth)
  moreover have "\<not> int j < rehashidx d" using assms(3,4) j(2) by (auto simp: zless_nat_conj)
  ultimately show thesis using that by simp
qed

lemma rehash_advance:
  assumes "dict_ok eq d" "has d 0 e0 tb0" "has d 1 e1 tb1" "e0 \<noteq> e1" "0 \<le> rehashidx d" "rehashidx d \<le> r" "r \<le> 2 ^ e0"
    "\<forall>i < nat r. tb0 ! i = []"
  shows "rehash_step eq d (d\<lparr>rehashidx := r\<rparr>)"
proof -
  have h: "has (d\<lparr>rehashidx := r\<rparr>) 0 e0 tb0" "has (d\<lparr>rehashidx := r\<rparr>) 1 e1 tb1" using assms(2,3) by (simp_all add: has_def)
  then have "rehash_ok (d\<lparr>rehashidx := r\<rparr>)" using assms unfolding rehash_ok_def by fastforce
  moreover have "dict_bag (d\<lparr>rehashidx := r\<rparr>) = dict_bag d" by (simp add: dict_bag_def tbl_def)
  ultimately have "keeps eq d (d\<lparr>rehashidx := r\<rparr>)" using assms by (intro dict_okI) (auto simp: same_env_def)
  then show ?thesis using assms by (auto simp: rehash_step_def dictIsRehashing_def)
qed

lemma rehash_bucket_step:
  assumes "dict_ok eq d" "has d 0 e0 tb0" "has d 1 e1 tb1" "e0 \<noteq> e1" "0 \<le> rehashidx d" "rehashidx d \<le> 2 ^ e0"
    "\<forall>i < nat (rehashidx d). tb0 ! i = []" "idx < 2 ^ e0"
  shows "\<exists>d' tb1'. rehashEntriesInBucketAtIndex d idx = Some d' \<and> rehash_step eq d d' \<and> rehashidx d' = rehashidx d \<and>
    has d' 0 e0 (tb0[idx := []]) \<and> has d' 1 e1 tb1' \<and> (\<forall>i < nat (rehashidx d). tb0[idx := []] ! i = [])"
proof -
  obtain d' tb1' where d': "rehashEntriesInBucketAtIndex d idx = Some d'" "has d' 0 e0 (tb0[idx := []])" "has d' 1 e1 tb1'"
    "dict_bag d' = dict_bag d" "same_env d d'" "rehashidx d' = rehashidx d"
    using rehashEntriesInBucketAtIndex_ok [OF assms(1-4,8)] by blast
  have e: "tb0[idx := []] ! i = []" if "i < nat (rehashidx d)" for i
    using assms(7) that by (cases "i = idx"; cases "idx < length tb0") (auto simp: list_update_beyond)
  then have "rehash_ok d'" using d' assms(4-6) unfolding rehash_ok_def by fastforce
  then have "keeps eq d d'" using d' assms by (intro dict_okI) auto
  then have "rehash_step eq d d'" using d' assms(2,3,5) by (auto simp: rehash_step_def dictIsRehashing_def has_def)
  then show ?thesis using d' e by blast
qed

lemma dictRehash_loop_ok:
  assumes "dict_ok eq d" "dictIsRehashing d"
  shows "\<exists>d' more. dictRehash_loop d n ev = Some (d', more) \<and> rehash_step eq d d' \<and> (more \<longleftrightarrow> rehashidx d' \<noteq> -1) \<and>
    (more \<and> 0 < n \<longrightarrow> rehashidx d < rehashidx d')"
  using assms
proof (induction n arbitrary: d ev)
  case 0
  then show ?case using completed_step [OF 0] by (cases "dictCheckRehashingCompleted d") auto
next
  case (Suc n)
  obtain e0 tb0 e1 tb1 where h: "has d 0 e0 tb0" "has d 1 e1 tb1" "e0 \<noteq> e1" "0 \<le> rehashidx d" "rehashidx d \<le> 2 ^ e0"
    "\<forall>i < nat (rehashidx d). tb0 ! i = []"
    using rehash_okD [OF Suc.prems] .
  have len: "length tb0 = 2 ^ e0" using h(1) by (simp add: has_def tb_ok_def)
  show ?case
  proof (cases "ht_used d 0 = 0")
    case True
    then show ?thesis using completed_step [OF Suc.prems] by (cases "dictCheckRehashingCompleted d") auto
  next
    case False
    obtain j where j: "j < length tb0" "tb0 ! j \<noteq> []" "rehashidx d \<le> int j" using nonempty_bucket [OF h(1) False h(6,4)] .
    have j': "int j < 2 ^ e0" using j(1) len by (simp flip: of_nat_less_iff)
    have a: "c_assert (int (DICTHT_SIZE (ht_size_exp d 0)) > rehashidx d) = Some ()"
      using h(1) le_less_trans [OF j(3) j'] by (simp add: DICTHT_SIZE_def has_def c_assert_def)
    obtain r where r: "rehashidx d \<le> r" "r \<le> int j" "\<forall>i < nat r. tb0 ! i = []"
      "dictRehash_skip d ev = Some (Inl (d\<lparr>rehashidx := r\<rparr>)) \<and> rehashidx d < r \<or>
       (\<exists>ev'. dictRehash_skip d ev = Some (Inr (d\<lparr>rehashidx := r\<rparr>, ev')))"
      using dictRehash_skip_ok [of d tb0 j ev] h j unfolding has_def by blast
    let ?d = "d\<lparr>rehashidx := r\<rparr>"
    have r2: "r < 2 ^ e0" using le_less_trans [OF r(2) j'] .
    have adv: "rehash_step eq d ?d" using r r2 h by (intro rehash_advance [OF Suc.prems(1) h(1,2)]) auto
    have r0: "r \<noteq> -1" using h(4) r(1) by simp
    from r(4) show ?thesis
    proof
      assume s: "dictRehash_skip d ev = Some (Inl ?d) \<and> rehashidx d < r"
      then have "dictRehash_loop d (Suc n) ev = Some (?d, True)" using False a by simp
      then show ?thesis using adv s r0 by auto
    next
      assume "\<exists>ev'. dictRehash_skip d ev = Some (Inr (?d, ev'))"
      then obtain ev' where s: "dictRehash_skip d ev = Some (Inr (?d, ev'))" by blast
      have ok: "dict_ok eq ?d" using adv by (simp add: rehash_step_def keeps_def)
      have nr: "nat r < 2 ^ e0" using r2 by simp
      obtain d1 tb1' where d1: "rehashEntriesInBucketAtIndex ?d (nat r) = Some d1" "rehash_step eq ?d d1" "rehashidx d1 = r"
        "has d1 0 e0 (tb0[nat r := []])" "has d1 1 e1 tb1'" "\<forall>i < nat r. tb0[nat r := []] ! i = []"
        using rehash_bucket_step [OF ok, of e0 tb0 e1 tb1 "nat r"] h r nr r2 by (auto simp: has_def)
      let ?d1 = "d1\<lparr>rehashidx := rehashidx d1 + 1\<rparr>"
      have e: "\<forall>i < nat (r + 1). tb0[nat r := []] ! i = []"
        using d1(6) h(4) r(1) nr len by (auto simp: less_Suc_eq nat_add_distrib)
      have st: "rehash_step eq d1 ?d1"
        using d1 h(3,4) r(1) r2 e
        by (intro rehash_advance [of eq d1 e0 "tb0[nat r := []]" e1 tb1']) (auto simp: rehash_step_def keeps_def)
      have re: "dictIsRehashing d1" "dictIsRehashing ?d" "dictIsRehashing ?d1" using d1(3) r0 h(4) r(1) by (auto simp: dictIsRehashing_def)
      have all: "rehash_step eq d ?d1"
        using rehash_step_trans [OF rehash_step_trans [OF adv re(2) d1(2)] re(1) st] .
      then have "dict_ok eq ?d1" by (simp add: rehash_step_def keeps_def)
      then obtain d' more where IH: "dictRehash_loop ?d1 n ev' = Some (d', more)" "rehash_step eq ?d1 d'"
        "more \<longleftrightarrow> rehashidx d' \<noteq> -1" using Suc.IH [of ?d1 ev'] re(3) by blast
      have "dictRehash_loop d (Suc n) ev = Some (d', more)" using False a s d1(1) IH(1) by simp
      moreover have "rehash_step eq d d'" using rehash_step_trans [OF all re(3) IH(2)] .
      moreover have "more \<longrightarrow> rehashidx d < rehashidx d'" using IH(2,3) d1(3) r(1) by (auto simp: rehash_step_def)
      ultimately show ?thesis using IH(3) by blast
    qed
  qed
qed

lemma dictRehash_ok:
  assumes "dict_ok eq d"
  shows "\<exists>d' more. dictRehash cr d n = Some (d', more) \<and> rehash_step eq d d' \<and>
    (if rehash_avoided cr d then d' = d \<and> \<not> more
     else (more \<longleftrightarrow> rehashidx d' \<noteq> -1) \<and> (more \<and> 0 < n \<longrightarrow> rehashidx d < rehashidx d'))"
proof (cases "rehash_avoided cr d")
  case False
  then have "dictIsRehashing d" by (auto simp: rehash_avoided_def Let_def)
  then show ?thesis using dictRehash_loop_ok [OF assms, of n "int n * 10"] False by (auto simp: dictRehash_def)
qed (use rehash_step_refl [OF assms] in \<open>auto simp: dictRehash_def\<close>)

lemma dictRehash_fst:
  assumes "dict_ok eq d"
  shows "\<exists>d'. map_option fst (dictRehash cr d n) = Some d' \<and> rehash_step eq d d'"
  using dictRehash_ok [OF assms, of cr n] by auto

lemma dictRehashStep_ok: "dict_ok eq d \<Longrightarrow> \<exists>d'. dictRehashStep cr d = Some d' \<and> rehash_step eq d d'"
  using dictRehash_fst [of eq d cr 1] rehash_step_refl [of eq d] by (auto simp: dictRehashStep_def)

lemma dictBucketRehash_ok:
  assumes "dict_ok eq d" "bucket d 0 idx = Some b"
  shows "\<exists>d'. dictBucketRehash cr d idx = Some d' \<and> rehash_step eq d d'"
proof (cases "pauserehash d = 0 \<and> \<not> rehash_avoided cr d")
  case True
  then have re: "dictIsRehashing d" by (auto simp: rehash_avoided_def Let_def)
  obtain e0 tb0 e1 tb1 where h: "has d 0 e0 tb0" "has d 1 e1 tb1" "e0 \<noteq> e1" "0 \<le> rehashidx d" "rehashidx d \<le> 2 ^ e0"
    "\<forall>i < nat (rehashidx d). tb0 ! i = []"
    using rehash_okD [OF assms(1) re] .
  have "idx < 2 ^ e0" using h(1) assms(2) by (auto simp: has_def tb_ok_def bucket_def split: if_splits)
  then obtain d' where d': "rehashEntriesInBucketAtIndex d idx = Some d'" "rehash_step eq d d'" "rehashidx d' = rehashidx d"
    using rehash_bucket_step [OF assms(1) h] by blast
  have r: "dict_ok eq d'" "dictIsRehashing d'" using d' re by (auto simp: rehash_step_def keeps_def dictIsRehashing_def)
  have "dictBucketRehash cr d idx = Some (fst (dictCheckRehashingCompleted d'))" using True d'(1) by (simp add: dictBucketRehash_def)
  then show ?thesis using rehash_step_trans [OF d'(2) r(2) completed_step(1) [OF r]] by blast
qed (use rehash_step_refl [OF assms(1)] in \<open>auto simp: dictBucketRehash_def\<close>)

lemma dictRehashStepIfNeeded_ok:
  assumes "dict_ok eq d" "idx = dict_idx d 0 h"
  shows "\<exists>d'. dictRehashStepIfNeeded cr d idx = Some d' \<and> rehash_step eq d d'"
proof (cases "\<not> dictIsRehashing d \<or> pauserehash d \<noteq> 0")
  case True
  then show ?thesis using rehash_step_refl [OF assms(1)] by (auto simp: dictRehashStepIfNeeded_def)
next
  case False
  obtain e0 tb0 where h: "has d 0 e0 tb0" using rehash_okD [OF assms(1)] False by metis
  then have "idx < length tb0" using assms(2) dict_idx_eq [of d 0 e0] by (simp add: has_def tb_ok_def)
  then have "bucket d 0 idx = Some (tb0 ! idx)" using h by (simp add: bucket_def has_def)
  then show ?thesis
    using False dictRehash_fst [OF assms(1), of cr 1] dictBucketRehash_ok [OF assms(1), of idx]
    by (simp add: dictRehashStepIfNeeded_def)
qed

text \<open>The full rehash ends: each round advances the index.\<close>

lemma rehash_avoided_step:
  "rehash_step eq d d' \<Longrightarrow> rehashidx d' \<noteq> -1 \<Longrightarrow> dictIsRehashing d \<Longrightarrow> rehash_avoided cr d' = rehash_avoided cr d"
  by (auto simp: rehash_step_def rehash_avoided_def Let_def)

lemma rehash_bound:
  assumes "dict_ok eq d" "dictIsRehashing d"
  shows "rehashidx d \<le> int (DICTHT_SIZE (ht_size_exp d 0))"
proof -
  obtain e0 tb0 where "has d 0 e0 tb0" "rehashidx d \<le> 2 ^ e0" by (rule rehash_okD [OF assms])
  then show ?thesis by (simp add: has_def DICTHT_SIZE_def)
qed

lemma dictRehashAll_ok:
  assumes "dict_ok eq d" "dictIsRehashing d"
  shows "\<exists>d'. dictRehashAll cr d = Some d' \<and> keeps eq d d' \<and> (if rehash_avoided cr d then d' = d else rehashidx d' = -1)"
  using assms
proof (induction "nat (int (DICTHT_SIZE (ht_size_exp d 0)) - rehashidx d)" arbitrary: d rule: less_induct)
  case less
  obtain d1 more where d1: "dictRehash cr d 1000 = Some (d1, more)" "rehash_step eq d d1"
    "if rehash_avoided cr d then d1 = d \<and> \<not> more else (more \<longleftrightarrow> rehashidx d1 \<noteq> -1) \<and> (more \<longrightarrow> rehashidx d < rehashidx d1)"
    using dictRehash_ok [OF less.prems(1), of cr 1000] by auto
  have k: "keeps eq d d1" "dict_ok eq d1" using d1(2) by (simp_all add: rehash_step_def keeps_def)
  have u: "dictRehashAll cr d = (if more then dictRehashAll cr d1 else Some d1)"
    by (subst dictRehashAll.simps) (simp add: d1(1))
  show ?case
  proof (cases more)
    case False
    then show ?thesis using u k d1(3) by (auto split: if_splits)
  next
    case True
    then have m: "\<not> rehash_avoided cr d" "rehashidx d1 \<noteq> -1" "rehashidx d < rehashidx d1" using d1(3) by (auto split: if_splits)
    have re: "dictIsRehashing d1" using m(2) by (simp add: dictIsRehashing_def)
    have na: "\<not> rehash_avoided cr d1" using rehash_avoided_step [OF d1(2) m(2) less.prems(2)] m(1) by simp
    have s: "ht_size_exp d1 0 = ht_size_exp d 0" using d1(2) m(2) by (simp add: rehash_step_def)
    have "nat (int (DICTHT_SIZE (ht_size_exp d1 0)) - rehashidx d1) < nat (int (DICTHT_SIZE (ht_size_exp d 0)) - rehashidx d)"
      using rehash_bound [OF k(2) re] m(3) s by simp
    from less.hyps [OF this k(2) re] obtain d' where "dictRehashAll cr d1 = Some d'" "keeps eq d1 d'" "rehashidx d' = -1"
      using na by auto
    then show ?thesis using u True m(1) keeps_trans [OF k(1)] by auto
  qed
qed

end
