(* ===== verification/Dict_Resize.thy ===== *)
theory Dict_Resize
  imports Dict_Inv
begin

text \<open>
  Growing and shrinking the hash table: the choice of the new size and the preservation of the invariant and of the
  contents by every resizing function.
\<close>

section \<open>Resizing\<close>

lemma bit_len_01: "bit_len 0 = 0" "bit_len (Suc 0) = 1"
  by (subst bit_len.simps, simp)+

lemma bit_len_bounds: "n < 2 ^ bit_len n" "0 < n \<Longrightarrow> 2 ^ bit_len n \<le> 2 * n"
proof -
  have "n < 2 ^ bit_len n \<and> (0 < n \<longrightarrow> 2 ^ bit_len n \<le> 2 * n)"
  proof (induction n rule: less_induct)
    case (less n)
    show ?case
    proof (cases "n \<le> 1")
      case True
      then have "n = 0 \<or> n = Suc 0" by auto
      then show ?thesis by (auto simp: bit_len_01)
    next
      case False
      then have "bit_len n = Suc (bit_len (n div 2))" by (subst bit_len.simps) simp
      moreover have "n div 2 < 2 ^ bit_len (n div 2)" "2 ^ bit_len (n div 2) \<le> 2 * (n div 2)" using less [of "n div 2"] False by auto
      ultimately show ?thesis by auto
    qed
  qed
  then show "n < 2 ^ bit_len n" "0 < n \<Longrightarrow> 2 ^ bit_len n \<le> 2 * n" by auto
qed

lemma dictNextExp_size:
  assumes "sz < LONG_MAX"
  obtains e where "dictNextExp sz = int e" "2 \<le> e" "sz \<le> 2 ^ e" "2 ^ e \<le> max 4 (2 * sz)"
    "if sz \<le> 4 then e = 2 else 2 ^ e < 2 * sz"
proof (cases "sz \<le> 4")
  case True
  then show thesis using that [of 2] by (simp add: dictNextExp_def)
next
  case False
  let ?e = "bit_len (sz - 1)"
  have "sz \<le> 2 ^ ?e" "2 ^ ?e < 2 * sz" using bit_len_bounds [of "sz - 1"] False by auto
  moreover have "2 \<le> ?e"
  proof (rule ccontr)
    assume "\<not> 2 \<le> ?e"
    then have "(2 :: nat) ^ ?e \<le> 2 ^ 1" by (intro power_increasing) auto
    then show False using \<open>sz \<le> 2 ^ ?e\<close> False by simp
  qed
  ultimately show thesis using that [of ?e] False assms by (auto simp: dictNextExp_def)
qed

lemma dictNextExp_nat: obtains e where "dictNextExp sz = int e"
proof (cases "sz < LONG_MAX")
  case True
  then show thesis by (rule dictNextExp_size) (rule that)
next
  case False
  then show thesis using that [of 63] by (simp add: dictNextExp_def)
qed

lemma newsize_overflow:
  assumes "\<not> (2 :: nat) ^ e * 8 mod ULONG_WRAP < 2 ^ e"
  shows "e \<le> 60"
proof (rule ccontr)
  assume "\<not> e \<le> 60"
  then obtain k where "e = 61 + k" using le_Suc_ex [of 61 e] by auto
  then have "(2 :: nat) ^ e * 8 = 2 ^ k * ULONG_WRAP" by (simp add: power_add)
  then show False using assms by simp
qed

lemma dictResize_ok:
  assumes "dict_ok eq d" "\<not> dictIsRehashing d"
  shows "\<exists>d' r f. dictResize cr d sz mf = Some (d', r, f) \<and> keeps eq d d' \<and> rehashidx d' \<le> 0 \<and>
    (\<not> has_none d 0 \<longrightarrow> \<not> has_none d' 0) \<and> (has_none d 0 \<and> sz = 4 \<and> mf = None \<longrightarrow> \<not> has_none d' 0)"
proof -
  have n1: "has_none d 1" "has_none d 0 \<or> (\<exists>e tb. has d 0 e tb)" "rehashidx d = -1" and ty: "type_ok (dtype d) eq"
    using assms by (auto simp: dict_ok_def dictIsRehashing_def)
  have B: "dict_bag d = bag (concat (tbl d 0))" using n1 by (simp add: dict_bag_def bag_simps)
  obtain e where e: "dictNextExp sz = int e" by (rule dictNextExp_nat)
  let ?n = "2 ^ e :: nat"
  have n: "DICTHT_SIZE (int e) = ?n" by (simp add: DICTHT_SIZE_def)
  have as: "c_assert (\<not> dictIsRehashing d) = Some ()" using assms(2) by simp
  define refuse where "refuse \<longleftrightarrow> (?n < sz \<or> ?n * 8 mod ULONG_WRAP < ?n) \<or> int e = ht_size_exp d 0 \<or>
    (case mf of None \<Rightarrow> False | Some f \<Rightarrow> f (?n * 8))"
  have four: "\<not> refuse" if "has_none d 0" "sz = 4" "mf = None"
  proof -
    have "e = 2" using e that(2) by (simp add: dictNextExp_def)
    then show ?thesis using that by (auto simp: refuse_def has_none_def)
  qed
  show ?thesis
  proof (cases refuse)
    case True
    then have "\<exists>f. dictResize cr d sz mf = Some (d, DICT_ERR, f)"
      unfolding dictResize_def as Option.bind.bind_lunit e n Let_def refuse_def
      by (simp only: HOL.if_split_asm split: if_split) blast
    then show ?thesis using True four keeps_refl [OF assms(1)] n1 by auto
  next
    case False
    then have e60: "e \<le> 60" "int e \<noteq> ht_size_exp d 0" using newsize_overflow [of e] by (auto simp: refuse_def)
    define d1 where "d1 = d\<lparr>ht_size_exp := (ht_size_exp d)(1 := int e), ht_used := (ht_used d)(1 := 0),
      ht_table := (ht_table d)(1 := Some (replicate ?n [])), rehashidx := 0\<rparr>"
    define d2 where "d2 = (dictReset (d1\<lparr>ht_size_exp := (ht_size_exp d1)(0 := int e), ht_used := (ht_used d1)(0 := 0),
      ht_table := (ht_table d1)(0 := Some (replicate ?n []))\<rparr>) 1)\<lparr>rehashidx := -1\<rparr>"
    have no: "\<not> (?n < sz \<or> ?n * 8 mod ULONG_WRAP < ?n)" "int e \<noteq> ht_size_exp d 0"
      "\<not> (case mf of None \<Rightarrow> False | Some f \<Rightarrow> f (?n * 8))"
      using False unfolding refuse_def by blast+
    have res: "dictResize cr d sz mf =
      (if ht_table d 0 = None \<or> ht_used d 0 = 0 then Some (d2, DICT_OK, False)
       else if force_full_rehash (dtype d) then do { d \<leftarrow> dictRehashAll cr d1; Some (d, DICT_OK, False) }
       else Some (d1, DICT_OK, False))"
      unfolding dictResize_def as Option.bind.bind_lunit e n Let_def if_not_P [OF no(1)] if_not_P [OF no(2)] if_not_P [OF no(3)]
      by (simp add: d1_def d2_def)
    show ?thesis
    proof (cases "ht_table d 0 = None \<or> ht_used d 0 = 0")
      case True
      have h: "has d2 0 e (replicate ?n [])" "has_none d2 1"
        using e60 by (simp_all add: has_def has_none_def d2_def d1_def dictReset_def tb_ok_replicate)
      have emp: "concat (tbl d 0) = []" using True n1 by (auto simp: tbl_def has_def has_none_def)
      have "dict_bag d2 = dict_bag d" using h B emp by (simp add: dict_bag_def bag_simps)
      moreover have "same_env d d2" "rehashidx d2 = -1" by (simp_all add: d2_def d1_def same_env_def dictReset_def)
      ultimately have "keeps eq d d2" using h assms(1) by (auto simp: keeps_def dict_ok_def same_env_def)
      then show ?thesis using res True h by (auto simp: d2_def has_def has_none_def)
    next
      case False
      then obtain e0 tb0 where h0: "has d 0 e0 tb0" using n1 by (auto simp: has_none_def)
      have h: "has d1 0 e0 tb0" "has d1 1 e (replicate ?n [])"
        using h0 e60 by (simp_all add: has_def d1_def tb_ok_replicate)
      have "rehash_ok d1" unfolding rehash_ok_def
        by (intro exI [of _ e0] exI [of _ tb0] exI [of _ e] exI [of _ "replicate ?n []"])
          (use h h0 e60 in \<open>auto simp: d1_def has_def\<close>)
      moreover have bg: "dict_bag d1 = dict_bag d" using dict_bag_two(1) [OF h] B h0 by (simp add: bag_simps)
      ultimately have k: "keeps eq d d1" using assms(1) by (intro dict_okI) (auto simp: d1_def same_env_def)
      have r1: "rehashidx d1 = 0" by (simp add: d1_def)
      obtain d3 where d3: "dictRehashAll cr d1 = Some d3" "keeps eq d1 d3" "d3 = d1 \<or> rehashidx d3 = -1"
        using dictRehashAll_ok [of eq d1 cr] k r1 by (auto simp: keeps_def dictIsRehashing_def split: if_splits)
      have "\<not> has_none d3 0"
      proof
        assume no: "has_none d3 0"
        then have "rehashidx d3 = -1" using d3(3) h(1) by (auto simp: has_def has_none_def)
        then have "dict_bag d3 = {#}" using no d3(2) by (auto simp: keeps_def dict_ok_def dict_bag_def bag_simps)
        then show False using d3(2) bg False h0 B by (auto simp: keeps_def bag_simps has_def)
      qed
      then show ?thesis using res False d3 k keeps_trans [OF k] r1 h by (auto simp: has_none_def has_def)
    qed
  qed
qed

text \<open>What the resizing functions promise.\<close>

definition resize_step :: "('k \<Rightarrow> 'k \<Rightarrow> bool) \<Rightarrow> ('k, 'v) dict \<Rightarrow> ('k, 'v) dict \<Rightarrow> bool" where
  "resize_step eq d d' \<longleftrightarrow> keeps eq d d' \<and> (d' = d \<or> rehashidx d' \<le> 0) \<and> (\<not> has_none d 0 \<longrightarrow> \<not> has_none d' 0)"

lemma resize_step_refl: "dict_ok eq d \<Longrightarrow> resize_step eq d d"
  by (simp add: resize_step_def keeps_refl)

lemma priv_dictExpand_ok:
  assumes "dict_ok eq d"
  shows "\<exists>d' r f. priv_dictExpand cr d sz mf = Some (d', r, f) \<and> resize_step eq d d' \<and>
    (has_none d 0 \<and> \<not> dictIsRehashing d \<and> sz = 4 \<and> mf = None \<longrightarrow> \<not> has_none d' 0)"
proof (cases "dictIsRehashing d \<or> ht_used d 0 > sz \<or> DICTHT_SIZE (ht_size_exp d 0) \<ge> sz")
  case True
  then show ?thesis using resize_step_refl [OF assms] by (auto simp: priv_dictExpand_def has_none_def DICTHT_SIZE_def)
next
  case False
  obtain d' r f where "dictResize cr d sz mf = Some (d', r, f)" "keeps eq d d'" "rehashidx d' \<le> 0"
    "\<not> has_none d 0 \<longrightarrow> \<not> has_none d' 0" "has_none d 0 \<and> sz = 4 \<and> mf = None \<longrightarrow> \<not> has_none d' 0"
    using dictResize_ok [OF assms, of cr sz mf] False by blast
  then show ?thesis using False by (simp add: priv_dictExpand_def resize_step_def)
qed

lemma dictExpand_ok:
  assumes "dict_ok eq d"
  shows "\<exists>d' r. dictExpand cr d sz = Some (d', r) \<and> resize_step eq d d' \<and>
    (has_none d 0 \<and> \<not> dictIsRehashing d \<and> sz = 4 \<longrightarrow> \<not> has_none d' 0)"
  using priv_dictExpand_ok [OF assms, of cr sz None] by (auto simp: dictExpand_def)

lemma dictTryExpand_ok:
  assumes "dict_ok eq d"
  shows "\<exists>d' r. dictTryExpand cr d sz fails = Some (d', r) \<and> resize_step eq d d'"
  using priv_dictExpand_ok [OF assms, of cr sz "Some fails"] by (auto simp: dictTryExpand_def)

lemma dictShrink_ok:
  assumes "dict_ok eq d"
  shows "\<exists>d' r. dictShrink cr d sz = Some (d', r) \<and> resize_step eq d d'"
proof (cases "dictIsRehashing d \<or> ht_used d 0 > sz \<or> DICTHT_SIZE (ht_size_exp d 0) \<le> sz")
  case True
  then show ?thesis using resize_step_refl [OF assms] by (simp add: dictShrink_def)
next
  case False
  obtain d' r f where "dictResize cr d sz None = Some (d', r, f)" "keeps eq d d'" "rehashidx d' \<le> 0"
    "\<not> has_none d 0 \<longrightarrow> \<not> has_none d' 0"
    using dictResize_ok [OF assms, of cr sz None] False by blast
  then show ?thesis using False by (simp add: dictShrink_def resize_step_def)
qed

lemma not_none_size: "dict_ok eq d \<Longrightarrow> has_none d 0 \<longleftrightarrow> DICTHT_SIZE (ht_size_exp d 0) = 0"
  by (auto simp: dict_ok_def rehash_ok_def has_def has_none_def DICTHT_SIZE_def split: if_splits)

lemma has_none_not_rehashing: "dict_ok eq d \<Longrightarrow> has_none d 0 \<Longrightarrow> \<not> dictIsRehashing d"
  by (auto simp: dict_ok_def rehash_ok_def has_def has_none_def dictIsRehashing_def split: if_splits)

lemma dictExpandIfNeeded_ok:
  assumes "dict_ok eq d"
  shows "\<exists>d' r. dictExpandIfNeeded cr d = Some (d', r) \<and> resize_step eq d d' \<and> \<not> has_none d' 0"
proof (cases "has_none d 0")
  case True
  note nr = has_none_not_rehashing [OF assms True]
  obtain d' r where "dictExpand cr d DICT_HT_INITIAL_SIZE = Some (d', r)" "resize_step eq d d'" "\<not> has_none d' 0"
    using dictExpand_ok [OF assms, of cr DICT_HT_INITIAL_SIZE] True nr by auto
  then show ?thesis using True nr not_none_size [OF assms] by (simp add: dictExpandIfNeeded_def)
next
  case False
  obtain d' r where d': "dictExpand cr d (ul_inc (ht_used d 0)) = Some (d', r)" "resize_step eq d d'"
    using dictExpand_ok [OF assms] by blast
  have "dictExpandIfNeeded cr d \<in> {Some (d, DICT_OK), Some (d', DICT_OK), Some (d, DICT_ERR)}"
    using d'(1) False not_none_size [OF assms] unfolding dictExpandIfNeeded_def by auto
  then show ?thesis using d'(2) resize_step_refl [OF assms] False by (auto simp: resize_step_def)
qed

lemma priv_dictExpandIfNeeded_ok:
  assumes "dict_ok eq d" "has_none d 0 \<Longrightarrow> pauseAutoResize d \<le> 0"
  shows "\<exists>d'. priv_dictExpandIfNeeded cr d = Some d' \<and> resize_step eq d d' \<and> \<not> has_none d' 0"
  using dictExpandIfNeeded_ok [OF assms(1), of cr] resize_step_refl [OF assms(1)] assms(2)
  by (auto simp: priv_dictExpandIfNeeded_def)

lemma priv_dictShrinkIfNeeded_ok:
  assumes "dict_ok eq d"
  shows "\<exists>d'. priv_dictShrinkIfNeeded cr d = Some d' \<and> resize_step eq d d'"
proof -
  obtain d' r where d': "dictShrink cr d (ht_used d 0) = Some (d', r)" "resize_step eq d d'"
    using dictShrink_ok [OF assms] by blast
  have "dictShrinkIfNeeded cr d \<in> {Some (d, DICT_OK), Some (d', DICT_OK), Some (d, DICT_ERR)}"
    using d'(1) unfolding dictShrinkIfNeeded_def by auto
  then show ?thesis using d'(2) resize_step_refl [OF assms] by (auto simp: priv_dictShrinkIfNeeded_def)
qed

end
