(* ===== verification/Dict_Ops.thy ===== *)
theory Dict_Ops
  imports Dict_Resize
begin

text \<open>
  The operations of the hash table against a map: lookup, insertion, replacement and deletion, in every state that
  rehashing can leave the two tables in.
\<close>

section \<open>Search\<close>

definition in_table :: "('k, 'v) dict \<Rightarrow> entry_ref \<Rightarrow> ('k, 'v) dictEntry \<Rightarrow> bool" where
  "in_table d r x \<longleftrightarrow>
     (case r of (t, i, p) \<Rightarrow>
        \<exists>e tb. has d t e tb \<and> i < 2 ^ e \<and> p < length (tb ! i) \<and> tb ! i ! p = x \<and> (t = 0 \<or> t = 1 \<and> dictIsRehashing d))"

lemma in_table_entry_at: "in_table d r x \<Longrightarrow> entry_at d r = Some x"
  by (auto simp: in_table_def entry_at_def bucket_def has_def tb_ok_def split: prod.splits)

definition absent :: "('k \<Rightarrow> 'k \<Rightarrow> bool) \<Rightarrow> 'k \<Rightarrow> ('k \<times> 'v option) multiset \<Rightarrow> bool" where
  "absent eq k B \<longleftrightarrow> (\<forall>p \<in># B. \<not> eq k (fst p))"

lemma search_table_ok:
  assumes "type_ok (dtype d) eq" "has d t e tb" "idx = dict_idx d t (hashFunction (dtype d) k)"
    "\<And>x. P x = eq k (dictGetKey x)" "t = 0 \<or> t = 1 \<and> dictIsRehashing d"
  obtains (found) r x where "search_table P d t idx = Some (Some r)" "in_table d r x" "eq k (dictGetKey x)" "fst r = t"
  | (none) "search_table P d t idx = Some None" "\<forall>x \<in> set (concat tb). \<not> eq k (dictGetKey x)"
proof -
  have h: "ht_size_exp d t = int e" "e \<le> 60" "tb_ok (dtype d) e tb" "ht_table d t = Some tb" using assms(2) by (auto simp: has_def)
  have idx: "idx = unat (hashFunction (dtype d) k) mod 2 ^ e" using dict_idx_eq [OF h(1)] h(2) assms(3) by simp
  then have i: "idx < 2 ^ e" "length tb = 2 ^ e" "chain_ok (dtype d) (tb ! idx)" using h(3) by (auto simp: tb_ok_def)
  have b: "bucket d t idx = Some (tb ! idx)" using h(4) i by (simp add: bucket_def)
  show thesis
  proof (cases rule: chain_find_cases [OF i(3), of P])
    case (1 p)
    have "in_table d (t, idx, p) (tb ! idx ! p)" unfolding in_table_def prod.case using assms(2,5) i(1) 1(2) by blast
    moreover have "search_table P d t idx = Some (Some (t, idx, p))" using b 1(1) by (simp add: search_table_def)
    moreover have "eq k (dictGetKey (tb ! idx ! p))" using 1(3) assms(4) by simp
    ultimately show thesis using that(1) by simp
  next
    case absent: 2
    have "\<not> eq k (dictGetKey x)" if "x \<in> set (concat tb)" for x
    proof
      assume "eq k (dictGetKey x)"
      moreover from this have "x \<in> set (tb ! idx)" using in_bucket [OF h(3) that] type_okD(4) [OF assms(1)] idx by metis
      ultimately show False using absent(2) assms(4) by blast
    qed
    then show thesis using that(2) absent(1) b by (simp add: search_table_def)
  qed
qed

lemma absent_bag: "absent eq k (bag es) \<longleftrightarrow> (\<forall>x \<in> set es. \<not> eq k (dictGetKey x))"
  by (simp add: absent_def kv_def)

lemma absent_union: "absent eq k (A + B) \<longleftrightarrow> absent eq k A \<and> absent eq k B"
  by (auto simp: absent_def)

lemma search_tables_ok:
  assumes "dict_ok eq d" "\<not> has_none d 0" "h = hashFunction (dtype d) k" "\<And>x. P x = eq k (dictGetKey x)"
    "rehashidx d \<le> 0 \<or> idx = dict_idx d 0 h"
  obtains (found) r x where "search_tables P d h idx = Some (Inl r)" "in_table d r x" "eq k (dictGetKey x)"
  | (none) "search_tables P d h idx = Some (Inr (dict_idx d (if dictIsRehashing d then 1 else 0) h))"
      "absent eq k (dict_bag d)"
proof -
  have hi: "dict_idx d t h = dict_idx d t (hashFunction (dtype d) k)" for t using assms(3) by simp
  show thesis
proof (cases "dictIsRehashing d")
  case nr: False
  then have r: "rehashidx d = -1" by (simp add: dictIsRehashing_def)
  then obtain e tb where h0: "has d 0 e tb" "has_none d 1" and ty: "type_ok (dtype d) eq"
    using assms(1,2) by (auto simp: dict_ok_def)
  have B: "dict_bag d = bag (concat tb)" using h0 by (simp add: dict_bag_def bag_simps)
  show thesis
  proof (cases rule: search_table_ok [OF ty h0(1) hi assms(4) disjI1 [OF refl]])
    case (1 r x)
    then show thesis using found [of r x] r by (simp add: search_tables_def)
  next
    case 2
    then show thesis using none r nr B by (simp add: search_tables_def absent_bag)
  qed
next
  case re: True
  have ty: "type_ok (dtype d) eq" using assms(1) by (simp add: dict_ok_def)
  obtain e0 tb0 e1 tb1 where "has d 0 e0 tb0" "has d 1 e1 tb1" "e0 \<noteq> e1" "0 \<le> rehashidx d" "rehashidx d \<le> 2 ^ e0"
    "\<forall>i < nat (rehashidx d). tb0 ! i = []"
    using rehash_okD [OF assms(1) re] .
  note h = this(1,2,4-6)
  have B: "dict_bag d = bag (concat tb0) + bag (concat tb1)" by (rule dict_bag_two(1) [OF h(1,2)])
  have one: thesis if f0: "int idx < rehashidx d \<or> search_table P d 0 (dict_idx d 0 h) = Some None"
    and a0: "\<forall>x \<in> set (concat tb0). \<not> eq k (dictGetKey x)"
  proof (cases rule: search_table_ok [OF ty h(2) hi assms(4) disjI2 [OF conjI [OF refl re]]])
    case (1 r x)
    have "search_tables P d h idx = Some (Inl r)" using f0 re 1(1) by (elim disjE) (simp_all add: search_tables_def)
    then show thesis using found 1 by blast
  next
    case 2
    have "search_tables P d h idx = Some (Inr (dict_idx d 1 h))"
      using f0 re 2(1) by (elim disjE) (simp_all add: search_tables_def)
    then show thesis using none re B a0 2(2) by (simp add: absent_bag absent_union)
  qed
  show thesis
  proof (cases "int idx < rehashidx d")
    case True
    then have i: "idx = unat h mod 2 ^ e0" using assms(5) h(1) dict_idx_eq [of d 0 e0 h] by (auto simp: has_def)
    have e: "tb0 ! idx = []" using h(5) True by simp
    have "\<not> eq k (dictGetKey x)" if "x \<in> set (concat tb0)" for x
    proof
      assume "eq k (dictGetKey x)"
      then have "hashFunction (dtype d) (dictGetKey x) = h" using type_okD(4) [OF ty, of k "dictGetKey x"] assms(3) by simp
      then show False using in_bucket [of "dtype d" e0 tb0 x] h(1) that e i by (simp add: has_def)
    qed
    then show thesis using one True by blast
  next
    case False
    show thesis
    proof (cases rule: search_table_ok [OF ty h(1) hi assms(4) disjI1 [OF refl]])
      case (1 r x)
      then show thesis using found [of r x] False by (simp add: search_tables_def)
    next
      case 2
      then show thesis using one by blast
    qed
  qed
qed
qed

section \<open>Changing one bucket\<close>

lemma keys_distinct_mono: "keys_distinct eq (A + B) \<Longrightarrow> keys_distinct eq A"
  by (auto simp: keys_distinct_def) (metis add_leD1)

lemma keys_distinct_add:
  assumes "type_ok T eq" "keys_distinct eq B" "absent eq k B"
  shows "keys_distinct eq (add_mset (k, v) B)"
  unfolding keys_distinct_def
proof
  fix k0
  show "size (filter_mset (\<lambda>p. eq k0 (fst p)) (add_mset (k, v) B)) \<le> 1"
  proof (cases "eq k0 k")
    case True
    have "filter_mset (\<lambda>p. eq k0 (fst p)) B = {#}"
    proof (rule ccontr)
      assume "filter_mset (\<lambda>p. eq k0 (fst p)) B \<noteq> {#}"
      then obtain p where "p \<in># filter_mset (\<lambda>p. eq k0 (fst p)) B" by (rule multiset_nonemptyE)
      then have "p \<in># B" "eq k0 (fst p)" by auto
      then have "eq k (fst p)" using type_okD(2,3) [OF assms(1)] True by blast
      then show False using assms(3) \<open>p \<in># B\<close> by (simp add: absent_def)
    qed
    then show ?thesis using True by simp
  next
    case False
    then show ?thesis using assms(2) by (simp add: keys_distinct_def)
  qed
qed

lemma keys_distinct_val:
  "keys_distinct eq (add_mset (k, v) B) \<Longrightarrow> keys_distinct eq (add_mset (k, v') B)"
  unfolding keys_distinct_def
proof
  fix k0
  assume "\<forall>k'. size (filter_mset (\<lambda>p. eq k' (fst p)) (add_mset (k, v) B)) \<le> 1"
  then have "size (filter_mset (\<lambda>p. eq k0 (fst p)) (add_mset (k, v) B)) \<le> 1" ..
  then show "size (filter_mset (\<lambda>p. eq k0 (fst p)) (add_mset (k, v') B)) \<le> 1" by (cases "eq k0 k") auto
qed

text \<open>The state with the bucket \<open>i\<close> of table \<open>t\<close> replaced and the counter adjusted.\<close>

definition put_bucket :: "('k, 'v) dict \<Rightarrow> nat \<Rightarrow> nat \<Rightarrow> ('k, 'v) chain list \<Rightarrow> ('k, 'v) chain \<Rightarrow> ('k, 'v) dict" where
  "put_bucket d t i tb c = d\<lparr>ht_table := (ht_table d)(t := Some (tb[i := c])),
     ht_used := (ht_used d)(t := length (concat (tb[i := c])))\<rparr>"

lemma put_bucket_ok:
  assumes "dict_ok eq d" "has d t e tb" "t = 0 \<or> t = 1 \<and> dictIsRehashing d" "i < 2 ^ e"
    "chain_ok (dtype d) c" "\<forall>x \<in> set c. unat (hashFunction (dtype d) (dictGetKey x)) mod 2 ^ e = i"
    "c = [] \<or> tb ! i \<noteq> [] \<or> t = 1 \<or> \<not> dictIsRehashing d"
    "B + bag (tb ! i) = dict_bag d + bag c" "keys_distinct eq B" "size B < 2 ^ 63"
  shows "dict_ok eq (put_bucket d t i tb c)" "dict_bag (put_bucket d t i tb c) = B"
    "has (put_bucket d t i tb c) t e (tb[i := c])" "same_env d (put_bucket d t i tb c)"
    "rehashidx (put_bucket d t i tb c) = rehashidx d"
proof -
  let ?d = "put_bucket d t i tb c"
  have len: "length tb = 2 ^ e" "i < length tb" using assms(2,4) by (auto simp: has_def tb_ok_def)
  have "tb_ok (dtype d) e (tb[i := c])" using assms(2,5,6) by (intro tb_ok_update) (auto simp: has_def)
  then show ht: "has ?d t e (tb[i := c])" using assms(2) by (simp add: has_def put_bucket_def)
  show env: "same_env d ?d" "rehashidx ?d = rehashidx d" by (simp_all add: same_env_def put_bucket_def)
  have other: "t' \<noteq> t \<Longrightarrow> has ?d t' e' tb' = has d t' e' tb'" "t' \<noteq> t \<Longrightarrow> has_none ?d t' = has_none d t'"
    "t' \<noteq> t \<Longrightarrow> tbl ?d t' = tbl d t'" for t' e' tb'
    by (simp_all add: has_def has_none_def tbl_def put_bucket_def)
  have "bag (concat (tb[i := c])) + bag (tb ! i) = bag (concat tb) + bag c"
    using arg_cong [OF mset_concat_update [OF len(2), of c], of "image_mset kv"] by simp
  then have "dict_bag ?d + bag (tb ! i) = dict_bag d + bag c"
    using assms(2,3) bag_simps(1) [OF ht] other(3) [of "1 - t"] by (auto simp: dict_bag_def bag_simps ac_simps)
  then show B: "dict_bag ?d = B" using assms(8) by (metis add_right_cancel)
  have "if rehashidx ?d = -1 then has_none ?d 1 \<and> (has_none ?d 0 \<or> (\<exists>e tb. has ?d 0 e tb)) else rehash_ok ?d"
  proof (cases "dictIsRehashing d")
    case False
    then show ?thesis using assms(1,3) ht env(2) other(2) [of 1] by (auto simp: dict_ok_def dictIsRehashing_def)
  next
    case True
    obtain e0 tb0 e1 tb1 where h: "has d 0 e0 tb0" "has d 1 e1 tb1" "e0 \<noteq> e1" "0 \<le> rehashidx d" "rehashidx d \<le> 2 ^ e0"
      "\<forall>j < nat (rehashidx d). tb0 ! j = []"
      using rehash_okD [OF assms(1) True] .
    have "rehash_ok ?d"
    proof (cases "t = 0")
      case t: True
      then have eq0: "e0 = e" "tb0 = tb" using h(1) assms(2) by (auto simp: has_def)
      have "tb[i := c] ! j = []" if "j < nat (rehashidx d)" for j
        using h(6) that eq0 assms(7) t True len by (cases "j = i") auto
      then show ?thesis unfolding rehash_ok_def env(2)
        using ht h other(1) [of 1] t eq0 by (intro exI [of _ e] exI [of _ "tb[i := c]"] exI [of _ e1] exI [of _ tb1]) auto
    next
      case False
      then have t: "t = 1" "e1 = e" "tb1 = tb" using assms(2,3) h(2) by (auto simp: has_def)
      then show ?thesis unfolding rehash_ok_def env(2)
        using ht h other(1) [of 0] by (intro exI [of _ e0] exI [of _ tb0] exI [of _ e] exI [of _ "tb[i := c]"]) auto
    qed
    then show ?thesis using True env(2) by (simp add: dictIsRehashing_def)
  qed
  then show "dict_ok eq ?d" unfolding dict_ok_def B using assms(1,9,10) by (simp add: dict_ok_def put_bucket_def)
qed

section \<open>Insertion\<close>

lemma target_table:
  assumes "dict_ok eq d" "\<not> has_none d 0"
  obtains e tb where "has d (if dictIsRehashing d then 1 else 0) e tb"
  using assms by (auto simp: dict_ok_def dictIsRehashing_def rehash_ok_def split: if_splits)

lemma dictInsertAtPosition_ok:
  assumes "dict_ok eq d" "\<not> has_none d 0" "t = (if dictIsRehashing d then 1 else 0)"
    "i = dict_idx d t (hashFunction (dtype d) k)" "absent eq k (dict_bag d)" "size (dict_bag d) + 1 < 2 ^ 63"
  obtains d' x where "dictInsertAtPosition d k (t, i) = Some (d', (t, i, 0))" "dict_ok eq d'"
    "dict_bag d' = add_mset (k, None) (dict_bag d)" "same_env d d'" "in_table d' (t, i, 0) x" "kv x = (k, None)"
    "no_value (dtype d) \<or> x = EntryNormal k None"
proof -
  let ?T = "dtype d"
  obtain e tb where h: "has d t e tb" using target_table [OF assms(1,2)] assms(3) by metis
  note hd = h [unfolded has_def]
  have ty: "type_ok ?T eq" using assms(1) by (simp add: dict_ok_def)
  have i: "i = unat (hashFunction ?T k) mod 2 ^ e" using dict_idx_eq [of d t e] hd assms(4) by simp
  then have i2: "i < 2 ^ e" "i < length tb" using hd by (auto simp: tb_ok_def)
  have ck: "chain_ok ?T (tb ! i)" "\<forall>x \<in> set (tb ! i). unat (hashFunction ?T (dictGetKey x)) mod 2 ^ e = i"
    using hd i2 by (auto simp: tb_ok_def)
  define x :: "('a, 'b) dictEntry" where "x = (if no_value ?T then if tb ! i = [] then EntryKey k else EntryNoValue k else EntryNormal k None)"
  define d' where "d' = put_bucket d t i tb (x # tb ! i)"
  have kvx: "kv x = (k, None)" "no_value ?T \<or> x = EntryNormal k None" by (simp_all add: x_def kv_def)
  have al: "no_value ?T \<Longrightarrow> if keys_are_odd ?T then odd (key_addr ?T k) else key_addr ?T k mod 8 = 0"
    using ty by (simp add: type_ok_def)
  then have odd4: "no_value ?T \<Longrightarrow> keys_are_odd ?T \<Longrightarrow> key_addr ?T k mod 4 \<noteq> 0"
    by (metis dvd_eq_mod_eq_0 dvd_trans even_numeral numeral_Bit0_eq_double dvd_triv_left)
  have pos: "i \<le> unat (DICTHT_SIZE_MASK (ht_size_exp d t))" using hd i2(1) mask_bound [of e] by simp
  have lc: "length (concat (tb[i := x # tb ! i])) = ht_used d t + 1"
    using length_concat_update [OF i2(2), of "x # tb ! i"] hd by simp
  have u: "ht_used d t < 2 ^ 63" using used_le_bag(1) [OF assms(1)] assms(3,6) by (auto split: if_splits)
  have "dictInsertAtPosition d k (t, i) =
      do { d \<leftarrow> set_bucket d t i (x # tb ! i); Some (used_inc t d, (t, i, 0)) }"
    unfolding dictInsertAtPosition_def assms(3) [symmetric] Let_def
    using pos hd i2 al odd4 by (auto simp: bucket_def x_def encodeMaskedPtr_def)
  moreover have "set_bucket d t i (x # tb ! i) = Some (d\<lparr>ht_table := (ht_table d)(t := Some (tb[i := x # tb ! i]))\<rparr>)"
    using hd i2 by (simp add: set_bucket_def)
  moreover have "used_inc t (d\<lparr>ht_table := (ht_table d)(t := Some (tb[i := x # tb ! i]))\<rparr>) = d'"
    using lc u by (simp add: used_inc_def ul_inc_eq d'_def put_bucket_def)
  ultimately have r: "dictInsertAtPosition d k (t, i) = Some (d', (t, i, 0))" by simp
  have ok: "chain_ok ?T (x # tb ! i)" using ck(1) by (auto simp: chain_ok_def x_def split: if_splits)
  have ix: "\<forall>y \<in> set (x # tb ! i). unat (hashFunction ?T (dictGetKey y)) mod 2 ^ e = i" using ck(2) i kvx(1) by (auto simp: kv_def)
  have tt: "t = 0 \<or> t = 1 \<and> dictIsRehashing d" "x # tb ! i = [] \<or> tb ! i \<noteq> [] \<or> t = 1 \<or> \<not> dictIsRehashing d"
    using assms(3) by auto
  have kd: "keys_distinct eq (add_mset (k, None) (dict_bag d))"
    using assms(1,5) by (intro keys_distinct_add [OF ty]) (auto simp: dict_ok_def)
  have bg: "add_mset (k, None) (dict_bag d) + bag (tb ! i) = dict_bag d + bag (x # tb ! i)" using kvx(1) by simp
  have sz: "size (add_mset (k, None) (dict_bag d)) < 2 ^ 63" using assms(6) by simp
  note p = put_bucket_ok [OF assms(1) h tt(1) i2(1) ok ix tt(2) bg kd sz, folded d'_def]
  have "in_table d' (t, i, 0) x"
    unfolding in_table_def prod.case
    using p(3,5) i2 tt(1) by (intro exI [of _ e] exI [of _ "tb[i := x # tb ! i]"]) (auto simp: dictIsRehashing_def)
  then show thesis using that r p(1,2,4) kvx by blast
qed

end
