(* ===== verification/Map_Store.thy ===== *)
theory Map_Store
  imports Redis_Prelude
begin

text \<open>
  The interface of a container that holds a finite map from keys to values. \<open>repr s n m\<close> says that the concrete state
  \<open>s\<close> holds \<open>n\<close> bindings, which make up the map \<open>m\<close>. Keys are compared by \<open>eq\<close>, values are stored as \<open>dup v\<close>, and
  fewer than \<open>cap\<close> bindings fit. Every operation has an argument of type \<open>'c\<close> for settings that change its work but
  not its result. The results are options, \<open>None\<close> being a failed assertion or memory access.
\<close>

definition upd :: "('k \<Rightarrow> 'k \<Rightarrow> bool) \<Rightarrow> ('k \<rightharpoonup> 'v) \<Rightarrow> 'k \<Rightarrow> 'v option \<Rightarrow> ('k \<rightharpoonup> 'v)" where
  "upd eq m k r = (\<lambda>k'. if eq k k' then r else m k')"

locale map_store =
  fixes repr :: "'s \<Rightarrow> nat \<Rightarrow> ('k \<rightharpoonup> 'v) \<Rightarrow> bool"
    and eq :: "'k \<Rightarrow> 'k \<Rightarrow> bool"
    and dup :: "'v \<Rightarrow> 'v"
    and cap :: nat
    and find :: "'c \<Rightarrow> 's \<Rightarrow> 'k \<Rightarrow> ('s \<times> 'v option) option"
    and add :: "'c \<Rightarrow> 's \<Rightarrow> 'k \<Rightarrow> 'v \<Rightarrow> ('s \<times> bool) option"
    and replace :: "'c \<Rightarrow> 's \<Rightarrow> 'k \<Rightarrow> 'v \<Rightarrow> ('s \<times> bool) option"
    and delete :: "'c \<Rightarrow> 's \<Rightarrow> 'k \<Rightarrow> ('s \<times> bool) option"
  assumes find_ok: "repr s n m \<Longrightarrow> \<exists>s'. find c s k = Some (s', m k) \<and> repr s' n m"
    and add_new: "repr s n m \<Longrightarrow> n + 1 < cap \<Longrightarrow> m k = None \<Longrightarrow>
      \<exists>s'. add c s k v = Some (s', True) \<and> repr s' (n + 1) (upd eq m k (Some (dup v)))"
    and add_old: "repr s n m \<Longrightarrow> n + 1 < cap \<Longrightarrow> m k \<noteq> None \<Longrightarrow> \<exists>s'. add c s k v = Some (s', False) \<and> repr s' n m"
    and replace_ok: "repr s n m \<Longrightarrow> n + 1 < cap \<Longrightarrow>
      \<exists>s'. replace c s k v = Some (s', m k = None) \<and>
           repr s' (if m k = None then n + 1 else n) (upd eq m k (Some (dup v)))"
    and delete_ok: "repr s n m \<Longrightarrow>
      \<exists>s'. delete c s k = Some (s', m k \<noteq> None) \<and> repr s' (if m k = None then n else n - 1) (upd eq m k None)"

datatype ('c, 'k, 'v) map_cmd = MFind 'c 'k | MAdd 'c 'k 'v | MReplace 'c 'k 'v | MDelete 'c 'k

datatype 'v map_out = Found "'v option" | Did bool

text \<open>A sequence of commands on the concrete operations and on the map.\<close>

fun run_store ::
  "('c \<Rightarrow> 's \<Rightarrow> 'k \<Rightarrow> ('s \<times> 'v option) option) \<Rightarrow> ('c \<Rightarrow> 's \<Rightarrow> 'k \<Rightarrow> 'v \<Rightarrow> ('s \<times> bool) option) \<Rightarrow>
   ('c \<Rightarrow> 's \<Rightarrow> 'k \<Rightarrow> 'v \<Rightarrow> ('s \<times> bool) option) \<Rightarrow> ('c \<Rightarrow> 's \<Rightarrow> 'k \<Rightarrow> ('s \<times> bool) option) \<Rightarrow>
   's \<Rightarrow> ('c, 'k, 'v) map_cmd list \<Rightarrow> ('s \<times> 'v map_out list) option" where
  "run_store fi ad re de s [] = Some (s, [])"
| "run_store fi ad re de s (cmd # cmds) =
     do { (s, out) \<leftarrow> (case cmd of
            MFind c k \<Rightarrow> map_option (map_prod id Found) (fi c s k)
          | MAdd c k v \<Rightarrow> map_option (map_prod id Did) (ad c s k v)
          | MReplace c k v \<Rightarrow> map_option (map_prod id Did) (re c s k v)
          | MDelete c k \<Rightarrow> map_option (map_prod id Did) (de c s k));
          (s, outs) \<leftarrow> run_store fi ad re de s cmds;
          Some (s, out # outs) }"

fun map_step :: "('k \<Rightarrow> 'k \<Rightarrow> bool) \<Rightarrow> ('v \<Rightarrow> 'v) \<Rightarrow> ('k \<rightharpoonup> 'v) \<Rightarrow> ('c, 'k, 'v) map_cmd \<Rightarrow> ('k \<rightharpoonup> 'v) \<times> 'v map_out" where
  "map_step eq dup m (MFind c k) = (m, Found (m k))"
| "map_step eq dup m (MAdd c k v) = (if m k = None then (upd eq m k (Some (dup v)), Did True) else (m, Did False))"
| "map_step eq dup m (MReplace c k v) = (upd eq m k (Some (dup v)), Did (m k = None))"
| "map_step eq dup m (MDelete c k) = (upd eq m k None, Did (m k \<noteq> None))"

fun run_map ::
  "('k \<Rightarrow> 'k \<Rightarrow> bool) \<Rightarrow> ('v \<Rightarrow> 'v) \<Rightarrow> ('k \<rightharpoonup> 'v) \<Rightarrow> ('c, 'k, 'v) map_cmd list \<Rightarrow> ('k \<rightharpoonup> 'v) \<times> 'v map_out list" where
  "run_map eq dup m [] = (m, [])"
| "run_map eq dup m (cmd # cmds) =
     (let (m, out) = map_step eq dup m cmd; (m, outs) = run_map eq dup m cmds in (m, out # outs))"

context map_store
begin

lemma step_refines:
  assumes "repr s n m" "n + 1 < cap"
  shows "\<exists>s' n'. n' \<le> n + 1 \<and> repr s' n' (fst (map_step eq dup m cmd)) \<and>
    (case cmd of
       MFind c k \<Rightarrow> map_option (map_prod id Found) (find c s k)
     | MAdd c k v \<Rightarrow> map_option (map_prod id Did) (add c s k v)
     | MReplace c k v \<Rightarrow> map_option (map_prod id Did) (replace c s k v)
     | MDelete c k \<Rightarrow> map_option (map_prod id Did) (delete c s k)) = Some (s', snd (map_step eq dup m cmd))"
proof (cases cmd)
  case (MFind c k)
  obtain s' where "find c s k = Some (s', m k)" "repr s' n m" using find_ok [OF assms(1), of c k] by blast
  then show ?thesis using MFind by (intro exI [of _ s'] exI [of _ n]) simp
next
  case (MAdd c k v)
  show ?thesis
  proof (cases "m k = None")
    case True
    obtain s' where "add c s k v = Some (s', True)" "repr s' (n + 1) (upd eq m k (Some (dup v)))"
      using add_new [OF assms True, of c v] by blast
    then show ?thesis using MAdd True by (intro exI [of _ s'] exI [of _ "n + 1"]) simp
  next
    case False
    obtain s' where "add c s k v = Some (s', False)" "repr s' n m" using add_old [OF assms False, of c v] by blast
    then show ?thesis using MAdd False by (intro exI [of _ s'] exI [of _ n]) simp
  qed
next
  case (MReplace c k v)
  obtain s' where "replace c s k v = Some (s', m k = None)"
    "repr s' (if m k = None then n + 1 else n) (upd eq m k (Some (dup v)))"
    using replace_ok [OF assms, of c k v] by blast
  then show ?thesis using MReplace by (intro exI [of _ s'] exI [of _ "if m k = None then n + 1 else n"]) simp
next
  case (MDelete c k)
  obtain s' where "delete c s k = Some (s', m k \<noteq> None)" "repr s' (if m k = None then n else n - 1) (upd eq m k None)"
    using delete_ok [OF assms(1), of c k] by blast
  then show ?thesis using MDelete by (intro exI [of _ s'] exI [of _ "if m k = None then n else n - 1"]) auto
qed

lemma run_refines:
  "repr s n m \<Longrightarrow> n + length cmds < cap \<Longrightarrow>
   \<exists>s' n'. run_store find add replace delete s cmds = Some (s', snd (run_map eq dup m cmds)) \<and>
           repr s' n' (fst (run_map eq dup m cmds))"
proof (induction cmds arbitrary: s n m)
  case Nil
  then show ?case by auto
next
  case (Cons cmd cmds)
  obtain s1 n1 where s1: "n1 \<le> n + 1" "repr s1 n1 (fst (map_step eq dup m cmd))"
    "(case cmd of
       MFind c k \<Rightarrow> map_option (map_prod id Found) (find c s k)
     | MAdd c k v \<Rightarrow> map_option (map_prod id Did) (add c s k v)
     | MReplace c k v \<Rightarrow> map_option (map_prod id Did) (replace c s k v)
     | MDelete c k \<Rightarrow> map_option (map_prod id Did) (delete c s k)) = Some (s1, snd (map_step eq dup m cmd))"
    using step_refines [OF Cons.prems(1), of cmd] Cons.prems(2) by auto
  obtain s' n' where s': "run_store find add replace delete s1 cmds = Some (s', snd (run_map eq dup (fst (map_step eq dup m cmd)) cmds))"
    "repr s' n' (fst (run_map eq dup (fst (map_step eq dup m cmd)) cmds))"
    using Cons.IH [OF s1(2)] s1(1) Cons.prems(2) by auto
  then show ?case using s1(3) by (auto simp: Let_def split: prod.split)
qed

end

end
