(* ===== verification/Dict_Map.thy ===== *)
theory Dict_Map
  imports Dict_Ops Map_Store
begin

text \<open>
  The whole operations of the hash table, each with the rehashing and resizing it triggers, and their refinement of the
  operations of a map.
\<close>

section \<open>Adding\<close>

lemma type_ok_env: "same_env d d' \<Longrightarrow> dtype d' = dtype d"
  by (simp add: same_env_def)

text \<open>The state after a rehashing step and the bucket index computed before it fit together.\<close>

lemma step_index:
  assumes "dict_ok eq d" "rehash_step eq d d'"
  shows "rehashidx d' \<le> 0 \<or> dict_idx d 0 h = dict_idx d' 0 h"
  using assms by (auto simp: rehash_step_def dict_idx_def)

lemma has_none_bag:
  assumes "dict_ok eq d" "has_none d 0"
  shows "dict_bag d = {#}"
proof -
  have "rehashidx d = -1" using has_none_not_rehashing [OF assms] by (simp add: dictIsRehashing_def)
  then have "has_none d 1" using assms(1) by (simp add: dict_ok_def)
  then show ?thesis using assms(2) by (simp add: dict_bag_def bag_simps)
qed

lemma dictFindPositionForInsert_ok:
  assumes "dict_ok eq d" "pauseAutoResize d \<le> 0"
  obtains (existing) d' r x where "dictFindPositionForInsert cr d k = Some (d', Inl r)" "keeps eq d d'" "in_table d' r x"
      "eq k (dictGetKey x)"
  | (new) d' t where "dictFindPositionForInsert cr d k = Some (d', Inr (t, dict_idx d' t (hashFunction (dtype d) k)))"
      "keeps eq d d'" "absent eq k (dict_bag d)" "t = (if dictIsRehashing d' then 1 else 0)" "\<not> has_none d' 0"
proof -
  let ?h = "hashFunction (dtype d) k"
  have hk: "dictHashKey d k (useStoredKeyApi d) = ?h" using assms(1) dictHashKey_eq by (auto simp: dict_ok_def)
  obtain d1 where d1: "dictRehashStepIfNeeded cr d (dict_idx d 0 ?h) = Some d1" "rehash_step eq d d1"
    using dictRehashStepIfNeeded_ok [OF assms(1) refl] by blast
  have k1: "keeps eq d d1" "dict_ok eq d1" "pauseAutoResize d1 \<le> 0"
    using d1(2) assms(2) by (auto simp: rehash_step_def keeps_def same_env_def)
  obtain d2 where d2: "priv_dictExpandIfNeeded cr d1 = Some d2" "resize_step eq d1 d2" "\<not> has_none d2 0"
    using priv_dictExpandIfNeeded_ok [OF k1(2)] k1(3) by blast
  have k2: "keeps eq d d2" "dict_ok eq d2" using keeps_trans [OF k1(1)] d2(2) by (auto simp: resize_step_def keeps_def)
  have T: "dtype d2 = dtype d" "type_ok (dtype d2) eq" using k2 by (auto simp: keeps_def same_env_def dict_ok_def)
  have idx: "rehashidx d2 \<le> 0 \<or> dict_idx d 0 ?h = dict_idx d2 0 ?h"
    using step_index [OF assms(1) d1(2), of ?h] d2(2) by (auto simp: resize_step_def)
  have un: "dictFindPositionForInsert cr d k =
      do { r \<leftarrow> search_tables (key_eq d2 k) d2 ?h (dict_idx d 0 ?h);
           Some (d2, case r of Inl existing \<Rightarrow> Inl existing | Inr idx \<Rightarrow> Inr (if dictIsRehashing d2 then 1 else 0, idx)) }"
    by (simp add: dictFindPositionForInsert_def hk d1(1) d2(1) Let_def)
  have h2: "?h = hashFunction (dtype d2) k" using T(1) by simp
  show thesis
  proof (cases rule: search_tables_ok [OF k2(2) d2(3) h2 key_eq_eq(1) [OF T(2)] idx])
    case (1 r x)
    then show thesis using existing [of d2 r x] un k2(1) by simp
  next
    case 2
    moreover have "absent eq k (dict_bag d)" using 2(2) k2(1) by (simp add: keeps_def)
    ultimately show thesis using new [of d2] un k2(1) d2(3) by simp
  qed
qed

lemma dictAddRaw_ok:
  assumes "dict_ok eq d" "pauseAutoResize d \<le> 0" "size (dict_bag d) + 1 < 2 ^ 63"
  obtains (existing) d' r x where "dictAddRaw cr d k = Some (d', Inl r)" "keeps eq d d'" "in_table d' r x"
      "eq k (dictGetKey x)"
  | (new) d' r x k' where "dictAddRaw cr d k = Some (d', Inr r)" "dict_ok eq d'" "same_env d d'" "eq k k'"
      "dict_bag d' = add_mset (k', None) (dict_bag d)" "absent eq k (dict_bag d)" "in_table d' r x" "kv x = (k', None)"
      "no_value (dtype d) \<or> x = EntryNormal k' None"
proof (cases rule: dictFindPositionForInsert_ok [OF assms(1,2), of cr k])
  case (1 d1 r x)
  then show thesis using existing by (simp add: dictAddRaw_def)
next
  case (2 d1 t)
  define k' where "k' = (case keyDup (dtype d1) of Some f \<Rightarrow> f k | None \<Rightarrow> k)"
  have ok: "dict_ok eq d1" "dict_bag d1 = dict_bag d" "same_env d d1" "dtype d1 = dtype d"
    using 2(2) by (auto simp: keeps_def same_env_def)
  then have ty: "type_ok (dtype d) eq" "type_ok (dtype d1) eq" by (auto simp: dict_ok_def)
  then have kk: "eq k k'" using type_okD(1) [OF ty(2)] by (auto simp: k'_def type_ok_def split: option.split)
  have "hashFunction (dtype d) k = hashFunction (dtype d1) k'" using type_okD(4) [OF ty(1) kk] ok(4) by simp
  then have i: "dict_idx d1 t (hashFunction (dtype d) k) = dict_idx d1 t (hashFunction (dtype d1) k')" by simp
  have ab: "absent eq k' (dict_bag d1)"
    using 2(3) type_okD(2,3) [OF ty(1)] kk unfolding ok(2) absent_def by blast
  have sz: "size (dict_bag d1) + 1 < 2 ^ 63" using assms(3) ok(2) by simp
  obtain d2 x where d2: "dictInsertAtPosition d1 k' (t, dict_idx d1 t (hashFunction (dtype d) k)) =
      Some (d2, (t, dict_idx d1 t (hashFunction (dtype d) k), 0))" "dict_ok eq d2"
    "dict_bag d2 = add_mset (k', None) (dict_bag d1)" "same_env d1 d2"
    "in_table d2 (t, dict_idx d1 t (hashFunction (dtype d) k), 0) x" "kv x = (k', None)"
    "no_value (dtype d1) \<or> x = EntryNormal k' None"
    using dictInsertAtPosition_ok [OF ok(1) 2(5,4) i ab sz] .
  have "dictAddRaw cr d k = Some (d2, Inr (t, dict_idx d1 t (hashFunction (dtype d) k), 0))"
    using 2(1) d2(1) by (simp add: dictAddRaw_def Let_def k'_def)
  moreover have "same_env d d2" using ok(3) d2(4) by (simp add: same_env_def)
  ultimately show thesis using new kk d2 2(3) ok(2,4) by simp
qed

section \<open>Values and deletion\<close>

lemma in_tableE:
  assumes "in_table d r x"
  obtains t i p e tb where "r = (t, i, p)" "has d t e tb" "i < 2 ^ e" "i < length tb" "p < length (tb ! i)" "tb ! i ! p = x"
    "t = 0 \<or> t = 1 \<and> dictIsRehashing d" "chain_ok (dtype d) (tb ! i)"
    "\<forall>x \<in> set (tb ! i). unat (hashFunction (dtype d) (dictGetKey x)) mod 2 ^ e = i" "bucket d t i = Some (tb ! i)"
  using assms unfolding in_table_def has_def tb_ok_def bucket_def by (cases r) auto

lemma in_table_bag:
  assumes "dict_ok eq d" "in_table d r x"
  shows "kv x \<in># dict_bag d"
proof -
  obtain t i p e tb where r: "r = (t, i, p)" "has d t e tb" "i < 2 ^ e" "i < length tb" "p < length (tb ! i)" "tb ! i ! p = x"
    "t = 0 \<or> t = 1 \<and> dictIsRehashing d" "chain_ok (dtype d) (tb ! i)"
    "\<forall>x \<in> set (tb ! i). unat (hashFunction (dtype d) (dictGetKey x)) mod 2 ^ e = i" "bucket d t i = Some (tb ! i)"
    using in_tableE [OF assms(2)] .
  have "x \<in> set (concat tb)" using r(4-6) by (auto intro!: bexI [of _ "tb ! i"])
  then have "kv x \<in> kv ` set (concat tb)" by blast
  then show ?thesis using r(2,7) by (auto simp: dict_bag_def bag_simps simp del: set_concat)
qed

lemma bag_nth: "p < length c \<Longrightarrow> bag c = add_mset (kv (c ! p)) (bag (take p c @ drop (Suc p) c))"
  by (subst id_take_nth_drop [of p c]) simp_all

lemma dictSetVal_ok:
  assumes "dict_ok eq d" "in_table d r (EntryNormal k v)" "dict_bag d = add_mset (k, v) B"
  obtains d' where "dictSetVal d r val = Some d'" "dict_ok eq d'" "same_env d d'"
    "dict_bag d' = add_mset (k, Some (case valDup (dtype d) of Some f \<Rightarrow> f val | None \<Rightarrow> val)) B"
proof -
  obtain t i p e tb where r: "r = (t, i, p)" "has d t e tb" "i < 2 ^ e" "i < length tb" "p < length (tb ! i)"
    "tb ! i ! p = EntryNormal k v" "t = 0 \<or> t = 1 \<and> dictIsRehashing d" "chain_ok (dtype d) (tb ! i)"
    "\<forall>x \<in> set (tb ! i). unat (hashFunction (dtype d) (dictGetKey x)) mod 2 ^ e = i" "bucket d t i = Some (tb ! i)"
    using in_tableE [OF assms(2)] .
  define w where "w = (case valDup (dtype d) of Some f \<Rightarrow> f val | None \<Rightarrow> val)"
  define c where "c = (tb ! i)[p := EntryNormal k (Some w)]"
  define d' where "d' = put_bucket d t i tb c"
  have nv: "\<not> no_value (dtype d)" using r(5,6,8) by (auto simp: chain_ok_def) (metis entryIsNormal.simps(1) nth_mem)
  have ck: "chain_ok (dtype d) c" using r(8) nv set_update_subset_insert by (fastforce simp: chain_ok_def c_def)
  have hk: "unat (hashFunction (dtype d) k) mod 2 ^ e = i" using r(5,6,9) by (metis dictGetKey.simps(1) nth_mem)
  have ix: "\<forall>y \<in> set c. unat (hashFunction (dtype d) (dictGetKey y)) mod 2 ^ e = i"
    using r(9) hk set_update_subset_insert by (fastforce simp: c_def)
  have bc: "bag c = add_mset (k, Some w) (bag (take p (tb ! i) @ drop (Suc p) (tb ! i)))"
    using r(5) by (simp add: c_def upd_conv_take_nth_drop kv_def)
  have bi: "bag (tb ! i) = add_mset (k, v) (bag (take p (tb ! i) @ drop (Suc p) (tb ! i)))"
    using bag_nth [OF r(5)] r(6) by (simp add: kv_def)
  have ne: "c = [] \<or> tb ! i \<noteq> [] \<or> t = 1 \<or> \<not> dictIsRehashing d" using r(5) by auto
  have bg: "add_mset (k, Some w) B + bag (tb ! i) = dict_bag d + bag c" unfolding bc bi assms(3) by simp
  have kd: "keys_distinct eq (add_mset (k, Some w) B)"
    using assms(1,3) keys_distinct_val by (metis dict_ok_def)
  have sz: "size (add_mset (k, Some w) B) < 2 ^ 63" using assms(1,3) by (simp add: dict_ok_def)
  note p = put_bucket_ok [OF assms(1) r(2,7,3) ck ix ne bg kd sz, folded d'_def]
  have lc: "length (concat (tb[i := c])) = ht_used d t"
    using length_concat_update [OF r(4), of c] r(2) by (simp add: c_def has_def)
  have "dictSetVal d r val = set_bucket d t i c"
    using in_table_entry_at [OF assms(2)] r(10) by (simp add: dictSetVal_def r(1) entryHasValue_def c_def w_def)
  also have "\<dots> = Some d'"
    using r(2,4) lc by (simp add: set_bucket_def d'_def put_bucket_def has_def fun_upd_idem)
  finally show thesis using that p w_def by blast
qed

lemma unlink_ok:
  assumes "dict_ok eq d" "in_table d r x"
  obtains d1 d' where "unlink_at d r = Some d1" "used_dec (fst r) d1 = d'" "unlink_at (used_dec (fst r) d) r = Some d'"
    "dict_ok eq d'" "dict_bag d = add_mset (kv x) (dict_bag d')" "same_env d d'"
proof -
  obtain t i p e tb where r: "r = (t, i, p)" "has d t e tb" "i < 2 ^ e" "i < length tb" "p < length (tb ! i)" "tb ! i ! p = x"
    "t = 0 \<or> t = 1 \<and> dictIsRehashing d" "chain_ok (dtype d) (tb ! i)"
    "\<forall>x \<in> set (tb ! i). unat (hashFunction (dtype d) (dictGetKey x)) mod 2 ^ e = i" "bucket d t i = Some (tb ! i)"
    using in_tableE [OF assms(2)] .
  define c where "c = take p (tb ! i) @ drop (Suc p) (tb ! i)"
  define d' where "d' = put_bucket d t i tb c"
  obtain B where B: "dict_bag d = add_mset (kv x) B" using multi_member_split [OF in_table_bag [OF assms]] by blast
  have bi: "bag (tb ! i) = add_mset (kv x) (bag c)" using bag_nth [OF r(5)] r(6) by (simp add: c_def)
  have ck: "chain_ok (dtype d) c" unfolding c_def by (rule chain_ok_unlink [OF r(8)])
  have "set c \<subseteq> set (tb ! i)" by (auto simp: c_def dest: in_set_takeD in_set_dropD)
  then have ix: "\<forall>y \<in> set c. unat (hashFunction (dtype d) (dictGetKey y)) mod 2 ^ e = i" using r(9) by blast
  have ne: "c = [] \<or> tb ! i \<noteq> [] \<or> t = 1 \<or> \<not> dictIsRehashing d" using r(5) by auto
  have bg: "B + bag (tb ! i) = dict_bag d + bag c" unfolding bi B by simp
  have kd: "keys_distinct eq B" using assms(1) B keys_distinct_mono [of eq B "{#kv x#}"] by (simp add: dict_ok_def)
  have sz: "size B < 2 ^ 63" using assms(1) B by (simp add: dict_ok_def)
  note p = put_bucket_ok [OF assms(1) r(2,7,3) ck ix ne bg kd sz, folded d'_def]
  have lc: "length (concat (tb[i := c])) = ht_used d t - 1" "0 < ht_used d t"
    using length_concat_update [OF r(4), of c] r(2,4,5) by (auto simp: c_def has_def intro!: bexI [of _ "tb ! i"])
  have u: "ht_used d t < ULONG_WRAP" using used_le_bag(1) [OF assms(1)] assms(1) r(7) by (auto simp: dict_ok_def)
  have cu: "chain_unlink (tb ! i) p = Some c" unfolding c_def by (rule chain_unlink_eq [OF r(8,5)])
  let ?d1 = "d\<lparr>ht_table := (ht_table d)(t := Some (tb[i := c]))\<rparr>"
  have "unlink_at d r = Some ?d1" "used_dec (fst r) ?d1 = d'" "unlink_at (used_dec (fst r) d) r = Some d'"
    using r(1,2,4,10) cu lc u
    by (simp_all add: unlink_at_def set_bucket_def bucket_def has_def used_dec_def ul_dec_eq d'_def put_bucket_def)
  then show thesis using that p(1,2,4) B by blast
qed

lemma dictGenericDelete_ok:
  assumes "dict_ok eq d"
  obtains (none) d' where "dictGenericDelete cr d k = Some (d', None)" "keeps eq d d'" "absent eq k (dict_bag d)"
  | (removed) d' x where "dictGenericDelete cr d k = Some (d', Some x)" "eq k (dictGetKey x)" "dict_ok eq d'" "same_env d d'"
      "dict_bag d = add_mset (kv x) (dict_bag d')"
proof (cases "dict_bag d = {#}")
  case True
  then have "dictGenericDelete cr d k = Some (d, None)" using used_le_bag(2) [OF assms] by (simp add: dictGenericDelete_def)
  then show thesis using none keeps_refl [OF assms] True by (simp add: absent_def)
next
  case ne: False
  let ?h = "hashFunction (dtype d) k"
  have hk: "dictHashKey d k (useStoredKeyApi d) = ?h" using assms dictHashKey_eq by (auto simp: dict_ok_def)
  obtain d1 where d1: "dictRehashStepIfNeeded cr d (dict_idx d 0 ?h) = Some d1" "rehash_step eq d d1"
    using dictRehashStepIfNeeded_ok [OF assms refl] by blast
  have k1: "keeps eq d d1" "dict_ok eq d1" "dict_bag d1 = dict_bag d" "same_env d d1" using d1(2) by (auto simp: rehash_step_def keeps_def)
  have hn: "\<not> has_none d1 0" using has_none_bag [OF k1(2)] k1(3) ne by auto
  have T: "?h = hashFunction (dtype d1) k" "type_ok (dtype d1) eq" using k1(2,4) by (simp_all add: same_env_def dict_ok_def)
  have idx: "rehashidx d1 \<le> 0 \<or> dict_idx d 0 ?h = dict_idx d1 0 ?h" by (rule step_index [OF assms d1(2)])
  have "dictSize d \<noteq> 0" using used_le_bag(2) [OF assms] ne by simp
  then have un: "dictGenericDelete cr d k =
    do { r \<leftarrow> search_tables (key_eq d1 k) d1 ?h (dict_idx d 0 ?h);
         case r of
           Inr _ \<Rightarrow> Some (d1, None)
         | Inl r \<Rightarrow> do { he \<leftarrow> entry_at d1 r; d \<leftarrow> unlink_at d1 r; d \<leftarrow> priv_dictShrinkIfNeeded cr (used_dec (fst r) d);
                        Some (d, Some he) } }"
    by (simp add: dictGenericDelete_def hk d1(1) Let_def)
  show thesis
  proof (cases rule: search_tables_ok [OF k1(2) hn T(1) key_eq_eq(1) [OF T(2)] idx])
    case (1 r x)
    obtain d2 d3 where d3: "unlink_at d1 r = Some d2" "used_dec (fst r) d2 = d3" "unlink_at (used_dec (fst r) d1) r = Some d3"
      "dict_ok eq d3" "dict_bag d1 = add_mset (kv x) (dict_bag d3)" "same_env d1 d3"
      using unlink_ok [OF k1(2) 1(2)] .
    obtain d' where d': "priv_dictShrinkIfNeeded cr d3 = Some d'" "resize_step eq d3 d'" using priv_dictShrinkIfNeeded_ok [OF d3(4)] by blast
    have "dictGenericDelete cr d k = Some (d', Some x)"
      using un 1(1) in_table_entry_at [OF 1(2)] d3(1,2) d'(1) by simp
    moreover have "dict_ok eq d'" "dict_bag d' = dict_bag d3" "same_env d d'"
      using d'(2) k1(4) d3(6) by (auto simp: resize_step_def keeps_def same_env_def)
    ultimately show thesis using removed 1(3) d3(5) k1(3) by simp
  next
    case 2
    then show thesis using none [of d1] un k1 by simp
  qed
qed

lemma dictFind_ok:
  assumes "dict_ok eq d"
  obtains (none) d' where "dictFind cr d k = Some (d', None)" "keeps eq d d'" "absent eq k (dict_bag d)"
  | (found) d' r x where "dictFind cr d k = Some (d', Some r)" "keeps eq d d'" "in_table d' r x" "eq k (dictGetKey x)"
proof (cases "dict_bag d = {#}")
  case True
  then have "dictFind cr d k = Some (d, None)" using used_le_bag(2) [OF assms] by (simp add: dictFind_def)
  then show thesis using none keeps_refl [OF assms] True by (simp add: absent_def)
next
  case ne: False
  let ?h = "hashFunction (dtype d) k"
  have hk: "dictHashKey d k (useStoredKeyApi d) = ?h" using assms dictHashKey_eq by (auto simp: dict_ok_def)
  obtain d1 where d1: "dictRehashStepIfNeeded cr d (dict_idx d 0 ?h) = Some d1" "rehash_step eq d d1"
    using dictRehashStepIfNeeded_ok [OF assms refl] by blast
  have k1: "keeps eq d d1" "dict_ok eq d1" "dict_bag d1 = dict_bag d" "same_env d d1" using d1(2) by (auto simp: rehash_step_def keeps_def)
  have hn: "\<not> has_none d1 0" using has_none_bag [OF k1(2)] k1(3) ne by auto
  have T: "?h = hashFunction (dtype d1) k" "type_ok (dtype d1) eq" using k1(2,4) by (simp_all add: same_env_def dict_ok_def)
  have idx: "rehashidx d1 \<le> 0 \<or> dict_idx d 0 ?h = dict_idx d1 0 ?h" by (rule step_index [OF assms d1(2)])
  have "dictSize d \<noteq> 0" using used_le_bag(2) [OF assms] ne by simp
  then have un: "dictFind cr d k =
    do { r \<leftarrow> search_tables (key_eq_len d1 k) d1 ?h (dict_idx d 0 ?h); Some (d1, case r of Inl r \<Rightarrow> Some r | Inr _ \<Rightarrow> None) }"
    by (simp add: dictFind_def dictFindByHash_def hk d1(1) Let_def)
  show thesis
  proof (cases rule: search_tables_ok [OF k1(2) hn T(1) key_eq_eq(2) [OF T(2)] idx])
    case (1 r x)
    then show thesis using found [of d1 r x] un k1(1) by simp
  next
    case 2
    then show thesis using none [of d1] un k1 by simp
  qed
qed

section \<open>Refinement of a map\<close>

definition dict_holds :: "('k, 'v) dictType \<Rightarrow> ('k \<Rightarrow> 'k \<Rightarrow> bool) \<Rightarrow> ('k, 'v) dict \<Rightarrow> nat \<Rightarrow> ('k \<rightharpoonup> 'v) \<Rightarrow> bool" where
  "dict_holds T eq d n m \<longleftrightarrow>
     dict_ok eq d \<and> dtype d = T \<and> \<not> no_value T \<and> pauseAutoResize d \<le> 0 \<and> n = size (dict_bag d) \<and>
     (\<forall>p \<in># dict_bag d. snd p \<noteq> None) \<and>
     (\<forall>k v. m k = Some v \<longleftrightarrow> (\<exists>k'. (k', Some v) \<in># dict_bag d \<and> eq k k'))"

definition dup_val :: "('k, 'v) dictType \<Rightarrow> 'v \<Rightarrow> 'v" where
  "dup_val T v = (case valDup T of Some f \<Rightarrow> f v | None \<Rightarrow> v)"

definition dict_add :: "dictResizeEnable \<Rightarrow> ('k, 'v) dict \<Rightarrow> 'k \<Rightarrow> 'v \<Rightarrow> (('k, 'v) dict \<times> bool) option" where
  "dict_add cr d k v = map_option (map_prod id (\<lambda>r. r = DICT_OK)) (dictAdd cr d k v)"

definition dict_delete :: "dictResizeEnable \<Rightarrow> ('k, 'v) dict \<Rightarrow> 'k \<Rightarrow> (('k, 'v) dict \<times> bool) option" where
  "dict_delete cr d k = map_option (map_prod id (\<lambda>r. r = DICT_OK)) (dictDelete cr d k)"

lemma keys_unique:
  assumes "keys_distinct eq (add_mset p B)" "eq k (fst p)" "q \<in># B"
  shows "\<not> eq k (fst q)"
proof -
  have "size (filter_mset (\<lambda>p. eq k (fst p)) (add_mset p B)) \<le> 1" using assms(1) unfolding keys_distinct_def by blast
  then show ?thesis using assms(2,3) by (cases q) auto
qed

lemma holds_absent: "dict_holds T eq d n m \<Longrightarrow> m k = None \<longleftrightarrow> absent eq k (dict_bag d)"
  unfolding dict_holds_def absent_def by (cases "m k") force+

lemma holds_iff: "dict_holds T eq d n m \<Longrightarrow> m k = Some v \<longleftrightarrow> (\<exists>k'. (k', Some v) \<in># dict_bag d \<and> eq k k')"
  unfolding dict_holds_def by blast

lemma holds_keeps: "dict_holds T eq d n m \<Longrightarrow> keeps eq d d' \<Longrightarrow> dict_holds T eq d' n m"
  by (simp add: dict_holds_def keeps_def same_env_def)

lemma holds_entry:
  assumes "dict_holds T eq d n m" "in_table d r x" "eq k (dictGetKey x)"
  obtains k' v where "x = EntryNormal k' (Some v)" "m k = Some v" "eq k k'" "(k', Some v) \<in># dict_bag d"
proof -
  have x: "kv x \<in># dict_bag d" using in_table_bag [of eq, OF _ assms(2)] assms(1) by (simp add: dict_holds_def)
  obtain t i p e tb where r: "r = (t, i, p)" "has d t e tb" "i < 2 ^ e" "i < length tb" "p < length (tb ! i)" "tb ! i ! p = x"
    "t = 0 \<or> t = 1 \<and> dictIsRehashing d" "chain_ok (dtype d) (tb ! i)"
    "\<forall>x \<in> set (tb ! i). unat (hashFunction (dtype d) (dictGetKey x)) mod 2 ^ e = i" "bucket d t i = Some (tb ! i)"
    using in_tableE [OF assms(2)] .
  have "entryIsNormal x" using assms(1) r(5,6,8) nth_mem by (fastforce simp: dict_holds_def chain_ok_def)
  then obtain k' w where e: "x = EntryNormal k' w" by (cases x) auto
  then obtain v where "w = Some v" using x assms(1) by (auto simp: dict_holds_def kv_def)
  then show thesis using that [of k' v] e x assms by (auto simp: dict_holds_def kv_def)
qed

text \<open>The map after a binding is added to, changed in or removed from the contents.\<close>

lemma holds_add:
  assumes "dict_holds T eq d n m" "dict_ok eq d'" "same_env d d'" "dict_bag d' = add_mset (k', Some w) (dict_bag d)"
    "eq k k'" "absent eq k (dict_bag d)"
  shows "dict_holds T eq d' (n + 1) (upd eq m k (Some w))"
proof -
  have ty: "type_ok T eq" using assms(1) by (auto simp: dict_holds_def dict_ok_def)
  note E = type_okD(1-3) [OF ty]
  have "upd eq m k (Some w) k0 = Some v \<longleftrightarrow> (\<exists>k''. (k'', Some v) \<in># dict_bag d' \<and> eq k0 k'')" for k0 v
  proof (cases "eq k k0")
    case True
    have e: "eq k0 k'" using True E assms(5) by blast
    have "\<not> eq k0 k''" if "(k'', Some u) \<in># dict_bag d" for k'' u
      using assms(6) that E(3) [OF True, of k''] unfolding absent_def by fastforce
    then show ?thesis by (simp add: upd_def True assms(4)) (use e in blast)
  next
    case False
    then have "\<not> eq k0 k'" using E assms(5) by blast
    then show ?thesis by (simp add: upd_def False assms(4) holds_iff [OF assms(1)]) blast
  qed
  then show ?thesis using assms by (simp add: dict_holds_def same_env_def)
qed

lemma holds_remove:
  assumes "dict_holds T eq d n m" "dict_ok eq d'" "same_env d d'" "dict_bag d = add_mset p (dict_bag d')" "eq k (fst p)"
  shows "dict_holds T eq d' (n - 1) (upd eq m k None)"
proof -
  have ty: "type_ok T eq" and kd: "keys_distinct eq (add_mset p (dict_bag d'))"
    using assms(1,4) by (auto simp: dict_holds_def dict_ok_def)
  note E = type_okD(1-3) [OF ty]
  have "upd eq m k None k0 = Some v \<longleftrightarrow> (\<exists>k''. (k'', Some v) \<in># dict_bag d' \<and> eq k0 k'')" for k0 v
  proof (cases "eq k k0")
    case True
    then have "eq k0 (fst p)" using E assms(5) by blast
    then have "\<not> eq k0 k''" if "(k'', Some v) \<in># dict_bag d'" for k'' using keys_unique [OF kd _ that] by simp
    then show ?thesis by (simp add: upd_def True)
  next
    case False
    then have "\<not> eq k0 (fst p)" using E assms(5) by blast
    then show ?thesis by (auto simp: upd_def False assms(4) holds_iff [OF assms(1)])
  qed
  then show ?thesis using assms by (simp add: dict_holds_def same_env_def)
qed

lemma holds_change:
  assumes "dict_holds T eq d n m" "dict_ok eq d'" "same_env d d'" "dict_bag d = add_mset (k', v) B"
    "dict_bag d' = add_mset (k', Some w) B" "eq k k'"
  shows "dict_holds T eq d' n (upd eq m k (Some w))"
proof -
  have ty: "type_ok T eq" and kd: "keys_distinct eq (add_mset (k', v) B)"
    using assms(1,4) by (auto simp: dict_holds_def dict_ok_def)
  note E = type_okD(1-3) [OF ty]
  have "upd eq m k (Some w) k0 = Some u \<longleftrightarrow> (\<exists>k''. (k'', Some u) \<in># dict_bag d' \<and> eq k0 k'')" for k0 u
  proof (cases "eq k k0")
    case True
    then have e: "eq k0 k'" using E assms(6) by blast
    then have "\<not> eq k0 k''" if "(k'', Some u) \<in># B" for k'' using keys_unique [OF kd, of k0 "(k'', Some u)"] that by simp
    then show ?thesis by (simp add: upd_def True assms(5)) (use e in blast)
  next
    case False
    then have "\<not> eq k0 k'" using E assms(6) by blast
    then show ?thesis by (simp add: upd_def False assms(4,5) holds_iff [OF assms(1)]) blast
  qed
  then show ?thesis using assms by (simp add: dict_holds_def same_env_def)
qed

lemma dict_find_step:
  assumes "dict_holds T eq d n m"
  shows "\<exists>d'. dictFetchValue cr d k = Some (d', m k) \<and> dict_holds T eq d' n m"
proof -
  have ok: "dict_ok eq d" using assms by (simp add: dict_holds_def)
  show ?thesis
  proof (cases rule: dictFind_ok [OF ok, of cr k])
    case (1 d')
    then have "m k = None" using holds_absent [OF assms] by simp
    then show ?thesis using 1(1) holds_keeps [OF assms 1(2)] by (simp add: dictFetchValue_def)
  next
    case (2 d' r x)
    note h = holds_keeps [OF assms 2(2)]
    obtain k' v where x: "x = EntryNormal k' (Some v)" "m k = Some v" using holds_entry [OF h 2(3,4)] by metis
    have "dictGetVal d' r = Some (Some v)"
      using in_table_entry_at [OF 2(3)] x(1) by (simp add: dictGetVal_def entryHasValue_def)
    then show ?thesis using 2(1) x(2) h by (simp add: dictFetchValue_def)
  qed
qed

lemma dict_add_step:
  assumes "dict_holds T eq d n m" "n + 1 < 2 ^ 63"
  shows "m k = None \<Longrightarrow> \<exists>d'. dict_add cr d k v = Some (d', True) \<and> dict_holds T eq d' (n + 1) (upd eq m k (Some (dup_val T v)))"
    "m k \<noteq> None \<Longrightarrow> \<exists>d'. dict_add cr d k v = Some (d', False) \<and> dict_holds T eq d' n m"
    "\<exists>d'. dictReplace cr d k v = Some (d', m k = None) \<and>
      dict_holds T eq d' (if m k = None then n + 1 else n) (upd eq m k (Some (dup_val T v)))"
proof -
  have ok: "dict_ok eq d" "pauseAutoResize d \<le> 0" "size (dict_bag d) + 1 < 2 ^ 63" "dtype d = T" "\<not> no_value T"
    using assms by (auto simp: dict_holds_def)
  have "(m k = None \<longrightarrow> (\<exists>d'. dict_add cr d k v = Some (d', True) \<and> dict_holds T eq d' (n + 1) (upd eq m k (Some (dup_val T v))))) \<and>
    (m k \<noteq> None \<longrightarrow> (\<exists>d'. dict_add cr d k v = Some (d', False) \<and> dict_holds T eq d' n m)) \<and>
    (\<exists>d'. dictReplace cr d k v = Some (d', m k = None) \<and>
      dict_holds T eq d' (if m k = None then n + 1 else n) (upd eq m k (Some (dup_val T v))))"
  proof (cases rule: dictAddRaw_ok [OF ok(1-3), of cr k])
    case (1 d1 r x)
    note h = holds_keeps [OF assms(1) 1(2)]
    obtain k' w where x: "x = EntryNormal k' (Some w)" "m k = Some w" "eq k k'" "(k', Some w) \<in># dict_bag d1"
      using holds_entry [OF h 1(3,4)] .
    obtain B where B: "dict_bag d1 = add_mset (k', Some w) B" using multi_member_split [OF x(4)] by blast
    have d1: "dict_ok eq d1" "dtype d1 = T" using h by (simp_all add: dict_holds_def)
    obtain d2 where d2: "dictSetVal d1 r v = Some d2" "dict_ok eq d2" "same_env d1 d2"
      "dict_bag d2 = add_mset (k', Some (case valDup (dtype d1) of Some f \<Rightarrow> f v | None \<Rightarrow> v)) B"
      using dictSetVal_ok [OF d1(1) 1(3) [unfolded x(1)] B] .
    have "dict_holds T eq d2 n (upd eq m k (Some (dup_val T v)))"
      using holds_change [OF h d2(2,3) B d2(4) x(3)] by (simp add: dup_val_def d1(2))
    moreover have "dictGetVal d1 r = Some (Some w)"
      using in_table_entry_at [OF 1(3)] x(1) by (simp add: dictGetVal_def entryHasValue_def)
    ultimately show ?thesis using 1(1) x(2) h d2(1) by (simp add: dict_add_def dictAdd_def dictReplace_def)
  next
    case (2 d1 r x k')
    then have mk: "m k = None" using holds_absent [OF assms(1)] by simp
    have T1: "dtype d1 = T" using 2(3) ok(4) by (simp add: same_env_def)
    have x: "x = EntryNormal k' None" using 2(9) ok(4,5) by simp
    obtain d2 where d2: "dictSetVal d1 r v = Some d2" "dict_ok eq d2" "same_env d1 d2"
      "dict_bag d2 = add_mset (k', Some (case valDup (dtype d1) of Some f \<Rightarrow> f v | None \<Rightarrow> v)) (dict_bag d)"
      using dictSetVal_ok [OF 2(2) 2(7) [unfolded x] 2(5)] .
    have env: "same_env d d2" using 2(3) d2(3) by (simp add: same_env_def)
    have "dict_holds T eq d2 (n + 1) (upd eq m k (Some (dup_val T v)))"
      using holds_add [OF assms(1) d2(2) env d2(4) 2(4,6)] by (simp add: dup_val_def T1)
    then show ?thesis using 2(1) mk d2(1) ok(5) T1 by (simp add: dict_add_def dictAdd_def dictReplace_def)
  qed
  then show "m k = None \<Longrightarrow> \<exists>d'. dict_add cr d k v = Some (d', True) \<and> dict_holds T eq d' (n + 1) (upd eq m k (Some (dup_val T v)))"
    "m k \<noteq> None \<Longrightarrow> \<exists>d'. dict_add cr d k v = Some (d', False) \<and> dict_holds T eq d' n m"
    "\<exists>d'. dictReplace cr d k v = Some (d', m k = None) \<and>
      dict_holds T eq d' (if m k = None then n + 1 else n) (upd eq m k (Some (dup_val T v)))"
    by blast+
qed

lemma dict_delete_step:
  assumes "dict_holds T eq d n m"
  shows "\<exists>d'. dict_delete cr d k = Some (d', m k \<noteq> None) \<and>
    dict_holds T eq d' (if m k = None then n else n - 1) (upd eq m k None)"
proof -
  have ok: "dict_ok eq d" "type_ok T eq" using assms by (auto simp: dict_holds_def dict_ok_def)
  show ?thesis
  proof (cases rule: dictGenericDelete_ok [OF ok(1), of cr k])
    case (1 d')
    then have mk: "m k = None" using holds_absent [OF assms] by simp
    have "m k' = None" if "eq k k'" for k'
      using 1(3) holds_absent [OF assms, of k'] type_okD(3) [OF ok(2) that] by (auto simp: absent_def)
    then have "upd eq m k None = m" by (auto simp: upd_def)
    then show ?thesis using 1(1) mk holds_keeps [OF assms 1(2)] by (simp add: dict_delete_def dictDelete_def)
  next
    case (2 d' x)
    have p: "eq k (fst (kv x))" using 2(2) by (simp add: kv_def)
    have "\<not> absent eq k (dict_bag d)" using 2(5) p by (simp add: absent_def)
    then have "m k \<noteq> None" using holds_absent [OF assms] by simp
    then show ?thesis using 2(1) holds_remove [OF assms 2(3-5) p] by (auto simp: dict_delete_def dictDelete_def)
  qed
qed

interpretation dm: map_store "dict_holds T eq" eq "dup_val T" "2 ^ 63" dictFetchValue dict_add dictReplace dict_delete for T eq
  by unfold_locales
    (erule dict_find_step, erule (2) dict_add_step(1), erule (2) dict_add_step(2), erule (1) dict_add_step(3), erule dict_delete_step)

lemma dict_holds_create:
  assumes "type_ok T eq" "\<not> no_value T"
  shows "dict_holds T eq (dictCreate T) 0 Map.empty"
  using assms
  by (simp add: dict_holds_def dict_ok_def dictCreate_def dict_bag_def tbl_def has_none_def keys_distinct_def)

end
