(* ===== verification/Dict_Props.thy ===== *)
theory Dict_Props
  imports Dict_Map
begin

text \<open>
  Deletion in two phases and clearing of the hash table, and the properties of the hash table as a whole.
\<close>

section \<open>Two-phase deletion, clearing\<close>

lemma pause_parts:
  "has (d\<lparr>pauserehash := n\<rparr>) = has d" "has_none (d\<lparr>pauserehash := n\<rparr>) t = has_none d t"
  "tbl (d\<lparr>pauserehash := n\<rparr>) t = tbl d t" "dictIsRehashing (d\<lparr>pauserehash := n\<rparr>) = dictIsRehashing d"
  by (simp_all add: has_def has_none_def tbl_def dictIsRehashing_def fun_eq_iff)

lemma pause_same:
  "dict_bag (d\<lparr>pauserehash := n\<rparr>) = dict_bag d" "rehash_ok (d\<lparr>pauserehash := n\<rparr>) = rehash_ok d"
  "in_table (d\<lparr>pauserehash := n\<rparr>) r x = in_table d r x"
  by (simp_all add: dict_bag_def rehash_ok_def in_table_def pause_parts)

lemma pause_ok: "dict_ok eq (d\<lparr>pauserehash := n\<rparr>) = dict_ok eq d"
  by (simp add: dict_ok_def pause_parts pause_same)

lemma two_phase_ok:
  assumes "dict_ok eq d" "pauserehash d < 2 ^ 15 - 1"
  shows "\<exists>d1 he d'. dictTwoPhaseUnlinkFind cr d k = Some (d1, he) \<and> dictTwoPhaseUnlinkFree cr d1 he = Some d' \<and>
    dict_ok eq d' \<and> same_env d d' \<and>
    (case he of
       None \<Rightarrow> absent eq k (dict_bag d) \<and> dict_bag d' = dict_bag d
     | Some r \<Rightarrow> pauserehash d1 = pauserehash d + 1 \<and>
         (\<exists>x. in_table d1 r x \<and> eq k (dictGetKey x) \<and> dict_bag d = add_mset (kv x) (dict_bag d')))"
proof (cases "dict_bag d = {#}")
  case True
  then have "dictTwoPhaseUnlinkFind cr d k = Some (d, None)" using used_le_bag(2) [OF assms(1)] by (simp add: dictTwoPhaseUnlinkFind_def)
  then show ?thesis using assms(1) True
    by (intro exI [of _ d] exI [of _ None]) (simp add: dictTwoPhaseUnlinkFree_def absent_def same_env_def)
next
  case ne: False
  obtain d1 where d1: "(if dictIsRehashing d then dictRehashStep cr d else Some d) = Some d1" "rehash_step eq d d1"
    using dictRehashStep_ok [OF assms(1), of cr] rehash_step_refl [OF assms(1)]
    by (cases "dictIsRehashing d") auto
  have k1: "dict_ok eq d1" "dict_bag d1 = dict_bag d" "same_env d d1" "type_ok (dtype d1) eq" "pauserehash d1 = pauserehash d"
    using d1(2) by (auto simp: rehash_step_def keeps_def dict_ok_def same_env_def)
  have hn: "\<not> has_none d1 0" using has_none_bag [OF k1(1)] k1(2) ne by auto
  let ?h = "hashFunction (dtype d1) k"
  have sz: "dictSize d \<noteq> 0" using used_le_bag(2) [OF assms(1)] ne by simp
  have un: "dictTwoPhaseUnlinkFind cr d k =
    do { r \<leftarrow> search_tables (key_eq d1 k) d1 ?h (dict_idx d1 0 ?h);
         Some (case r of Inl r \<Rightarrow> (d1\<lparr>pauserehash := (pauserehash d1 + 1) mod 2 ^ 15\<rparr>, Some r) | Inr _ \<Rightarrow> (d1, None)) }"
    using sz dictHashKey_eq [OF k1(4)] by (simp add: dictTwoPhaseUnlinkFind_def d1(1) Let_def)
  show ?thesis
  proof (cases rule: search_tables_ok [where k = k and idx = "dict_idx d1 0 ?h", OF k1(1) hn refl key_eq_eq(1) [OF k1(4)] disjI2 [OF refl]])
    case (1 r x)
    let ?d2 = "d1\<lparr>pauserehash := pauserehash d + 1\<rparr>"
    have f: "dictTwoPhaseUnlinkFind cr d k = Some (?d2, Some r)" using un 1(1) assms(2) k1(5) by simp
    have ok2: "dict_ok eq ?d2" "dict_bag ?d2 = dict_bag d" "in_table ?d2 r x"
      using k1(1,2) 1(2) by (simp_all add: pause_ok pause_same)
    obtain d3 d4 where d4: "unlink_at ?d2 r = Some d3" "used_dec (fst r) d3 = d4" "unlink_at (used_dec (fst r) ?d2) r = Some d4"
      "dict_ok eq d4" "dict_bag ?d2 = add_mset (kv x) (dict_bag d4)" "same_env ?d2 d4"
      using unlink_ok [OF ok2(1,3)] .
    obtain d5 where d5: "priv_dictShrinkIfNeeded cr d4 = Some d5" "resize_step eq d4 d5" using priv_dictShrinkIfNeeded_ok [OF d4(4)] by blast
    have k5: "dict_ok eq d5" "dict_bag d5 = dict_bag d4" "same_env ?d2 d5" "pauserehash d5 = pauserehash d + 1"
      using d5(2) d4(6) by (auto simp: resize_step_def keeps_def same_env_def)
    let ?d6 = "d5\<lparr>pauserehash := pauserehash d\<rparr>"
    have "(pauserehash d + 1 + (2 ^ 15 - 1)) mod 2 ^ 15 = pauserehash d" using assms(2) by simp
    then have "dictTwoPhaseUnlinkFree cr ?d2 (Some r) = Some ?d6"
      using d4(3) d5(1) k5(4) by (simp add: dictTwoPhaseUnlinkFree_def)
    moreover have "dict_ok eq ?d6" "dict_bag ?d6 = dict_bag d5"
      using k5(1) by (simp_all add: pause_ok pause_same)
    moreover have "same_env d ?d6" using k5(3) k1(3) by (simp add: same_env_def)
    ultimately show ?thesis using f ok2 1(3) d4(5) k5(2)
      by (intro exI [of _ ?d2] exI [of _ "Some r"] exI [of _ ?d6]) auto
  next
    case 2
    then show ?thesis using un k1(1-3)
      by (intro exI [of _ d1] exI [of _ None] exI [of _ d1]) (simp add: dictTwoPhaseUnlinkFree_def)
  qed
qed

lemma dictClear_loop_all:
  "\<forall>c \<in> set cs. chain_ok T c \<Longrightarrow> used = length (concat cs) \<Longrightarrow> used < ULONG_WRAP \<Longrightarrow> dictClear_loop cs used = concat cs"
proof (induction cs arbitrary: used)
  case (Cons c cs)
  have cn: "chain_nodes c = c" using Cons.prems(1) chain_nodes_eq by auto
  show ?case
  proof (cases "used > 0")
    case True
    have "(ul_dec ^^ n) used = used - n" if "n \<le> used" for n
      using that by (induction n) (use Cons.prems(3) ul_dec_eq in auto)
    then have "(ul_dec ^^ length c) used = length (concat cs)" using Cons.prems(2) by simp
    then show ?thesis using Cons True cn by simp
  next
    case False
    then show ?thesis using Cons.prems(2) by simp
  qed
qed simp

lemma table_cases:
  assumes "dict_ok eq d" "t = 0 \<or> t = 1"
  shows "has_none d t \<or> (\<exists>e tb. has d t e tb)"
proof (cases "dictIsRehashing d")
  case True
  obtain e0 tb0 e1 tb1 where "has d 0 e0 tb0" "has d 1 e1 tb1" "e0 \<noteq> e1" "0 \<le> rehashidx d" "rehashidx d \<le> 2 ^ e0"
    "\<forall>i < nat (rehashidx d). tb0 ! i = []"
    using rehash_okD [OF assms(1) True] .
  then show ?thesis using assms(2) by blast
next
  case False
  then have "has_none d 1" "has_none d 0 \<or> (\<exists>e tb. has d 0 e tb)" using assms(1) by (simp_all add: dict_ok_def dictIsRehashing_def)
  then show ?thesis using assms(2) by blast
qed

lemma dictClear_ok:
  assumes "dict_ok eq d" "t = 0 \<or> t = 1"
  shows "dictClear d t = Some (dictReset d t, concat (tbl d t))"
proof (cases "has_none d t")
  case True
  then show ?thesis by (simp add: dictClear_def has_none_def tbl_def Let_def)
next
  case False
  then obtain e tb where h: "has d t e tb" using table_cases [OF assms] by blast
  have "size (dict_bag d) < 2 ^ 63" using assms(1) by (simp add: dict_ok_def)
  then have "ht_used d t < ULONG_WRAP" using used_le_bag(1) [OF assms(1)] assms(2) by auto
  moreover have "\<forall>c \<in> set tb. chain_ok (dtype d) c" using h by (auto simp: has_def tb_ok_def in_set_conv_nth)
  moreover have "ht_used d t = length (concat tb)" using h by (simp add: has_def)
  ultimately have "dictClear_loop tb (ht_used d t) = concat tb" using dictClear_loop_all by blast
  then show ?thesis using h by (simp add: dictClear_def has_def tb_ok_def DICTHT_SIZE_def tbl_def)
qed

section \<open>Properties of the hash table\<close>

text \<open>A type for the examples: numbers as keys and values.\<close>

definition type_nat :: "(nat, nat) dictType" where
  "type_nat = \<lparr>hashFunction = of_nat, keyDup = None, valDup = None, keyCompare = None, resizeAllowed = None, no_value = False,
     keys_are_odd = False, force_full_rehash = False, storedHashFunction = None, storedKeyCompare = None, keyLen = None,
     keyCompareWithLen = None, key_addr = (\<lambda>_. 0)\<rparr>"

lemma type_nat_ok: "type_ok type_nat (=)" "\<not> no_value type_nat"
  by (auto simp: type_ok_def type_nat_def identity_equivp)

lemma dict_ok_create: "type_ok T eq \<Longrightarrow> dict_ok eq (dictCreate T)"
  by (simp add: dict_ok_def dictCreate_def dict_bag_def tbl_def has_none_def keys_distinct_def)

text \<open>(C1) Any sequence of lookups, insertions, replacements and deletions on a new hash table gives the answers of a
  finite map, whatever resizing and rehashing happens on the way and however the resize policy changes between the
  operations; no assertion fails and no access is out of bounds.\<close>

theorem dict_refines_map:
  assumes "type_ok T eq" "\<not> no_value T" "length cmds < 2 ^ 63"
  shows "\<exists>d n. run_store dictFetchValue dict_add dictReplace dict_delete (dictCreate T) cmds =
      Some (d, snd (run_map eq (dup_val T) Map.empty cmds)) \<and>
    dict_holds T eq d n (fst (run_map eq (dup_val T) Map.empty cmds))"
  using dm.run_refines [OF dict_holds_create [OF assms(1,2)], of cmds] assms(3) by simp

theorem dict_refines_map_witness:
  "\<exists>d. run_store dictFetchValue dict_add dictReplace dict_delete (dictCreate type_nat)
      [MAdd DICT_RESIZE_ENABLE 1 10, MReplace DICT_RESIZE_AVOID 1 11, MFind DICT_RESIZE_FORBID 1, MDelete DICT_RESIZE_ENABLE 2] =
    Some (d, [Did True, Did False, Found (Some 11), Did False])"
  using dict_refines_map [OF type_nat_ok, of "[MAdd DICT_RESIZE_ENABLE 1 10, MReplace DICT_RESIZE_AVOID 1 11,
    MFind DICT_RESIZE_FORBID 1, MDelete DICT_RESIZE_ENABLE 2]"]
  by (auto simp: upd_def dup_val_def type_nat_def Let_def)

text \<open>(C20) Incremental rehashing never loses, duplicates or changes a binding: any number of rehashing steps in any
  state of a well-formed table returns a well-formed table with the same contents, and the result says whether keys
  remain in the old table.\<close>

theorem dictRehash_preserves:
  assumes "dict_ok eq d"
  shows "\<exists>d' more. dictRehash cr d n = Some (d', more) \<and> dict_ok eq d' \<and> dict_bag d' = dict_bag d \<and>
    (more \<longrightarrow> dictIsRehashing d') \<and> (\<not> rehash_avoided cr d \<and> \<not> more \<longrightarrow> \<not> dictIsRehashing d')"
  using dictRehash_ok [OF assms, of cr n]
  by (auto simp: rehash_step_def keeps_def dictIsRehashing_def split: if_splits)

text \<open>(C21) The loop that rehashes a table to the end terminates, with the same contents and, unless the resize policy
  forbids the move, with a single table.\<close>

theorem dictRehashAll_terminates:
  assumes "dict_ok eq d" "dictIsRehashing d"
  shows "\<exists>d'. dictRehashAll cr d = Some d' \<and> dict_ok eq d' \<and> dict_bag d' = dict_bag d \<and>
    (\<not> rehash_avoided cr d \<longrightarrow> \<not> dictIsRehashing d')"
  using dictRehashAll_ok [OF assms, of cr] by (auto simp: keeps_def dictIsRehashing_def split: if_splits)

text \<open>A table in the middle of a rehash from four to eight buckets.\<close>

definition dict_moving :: "(nat, nat) dict" where
  "dict_moving = \<lparr>dtype = type_nat,
     ht_table = (\<lambda>t. if t = 0 then Some [[], [EntryNormal 5 (Some 7)], [], []]
                    else Some [[EntryNormal 8 (Some 9)], [], [], [], [], [], [], []]),
     ht_used = (\<lambda>t. 1), rehashidx = 1, pauserehash = 0, useStoredKeyApi = False,
     ht_size_exp = (\<lambda>t. if t = 0 then 2 else 3), pauseAutoResize = 0\<rparr>"

lemma all_less_4: "(\<forall>i < (4 :: nat). P i) \<longleftrightarrow> P 0 \<and> P 1 \<and> P 2 \<and> P 3"
  by (simp add: All_less_Suc numeral_eq_Suc ac_simps)

lemma all_less_8: "(\<forall>i < (8 :: nat). P i) \<longleftrightarrow> P 0 \<and> P 1 \<and> P 2 \<and> P 3 \<and> P 4 \<and> P 5 \<and> P 6 \<and> P 7"
  by (simp add: All_less_Suc numeral_eq_Suc ac_simps)

lemma dict_moving_ok: "dict_ok (=) dict_moving" "dictIsRehashing dict_moving"
proof -
  let ?t0 = "[[], [EntryNormal 5 (Some 7)], [], []] :: (nat, nat) chain list"
  let ?t1 = "[[EntryNormal 8 (Some 9)], [], [], [], [], [], [], []] :: (nat, nat) chain list"
  have "tb_ok type_nat 2 ?t0" by (simp add: tb_ok_def type_nat_def chain_ok_def all_less_4)
  moreover have "tb_ok type_nat 3 ?t1" by (simp add: tb_ok_def type_nat_def chain_ok_def all_less_8)
  ultimately have h: "has dict_moving 0 2 ?t0" "has dict_moving 1 3 ?t1" by (simp_all add: has_def dict_moving_def)
  have "rehash_ok dict_moving" unfolding rehash_ok_def
    by (intro exI [of _ 2] exI [of _ ?t0] exI [of _ 3] exI [of _ ?t1]) (use h in \<open>simp add: dict_moving_def\<close>)
  moreover have "dict_bag dict_moving = {#(5, Some 7), (8, Some 9)#}" using dict_bag_two(1) [OF h] by (simp add: kv_def)
  ultimately show "dict_ok (=) dict_moving"
    using type_nat_ok(1) by (auto simp: dict_ok_def keys_distinct_def dict_moving_def)
  show "dictIsRehashing dict_moving" by (simp add: dictIsRehashing_def dict_moving_def)
qed

theorem dictRehash_preserves_witness:
  "\<exists>d' more. dictRehash DICT_RESIZE_ENABLE dict_moving 1 = Some (d', more) \<and> dict_ok (=) d' \<and>
    dict_bag d' = dict_bag dict_moving \<and> more = dictIsRehashing d'"
proof -
  have "\<not> rehash_avoided DICT_RESIZE_ENABLE dict_moving" using dict_moving_ok(2) by (simp add: rehash_avoided_def)
  then show ?thesis using dictRehash_preserves [OF dict_moving_ok(1), of DICT_RESIZE_ENABLE 1] by blast
qed

theorem dictRehashAll_terminates_witness:
  "\<exists>d'. dictRehashAll DICT_RESIZE_ENABLE dict_moving = Some d' \<and> dict_bag d' = dict_bag dict_moving \<and> \<not> dictIsRehashing d'"
proof -
  have "\<not> rehash_avoided DICT_RESIZE_ENABLE dict_moving" using dict_moving_ok(2) by (simp add: rehash_avoided_def)
  then show ?thesis using dictRehashAll_terminates [OF dict_moving_ok, of DICT_RESIZE_ENABLE] by blast
qed

text \<open>(C23) Deletion in two phases: the entry found by the first call is the one removed by the second, nothing else
  changes, and rehashing is paused exactly in between.\<close>

theorem dictTwoPhaseUnlink_correct:
  assumes "dict_ok eq d" "pauserehash d < 2 ^ 15 - 1"
  shows "\<exists>d1 he d'. dictTwoPhaseUnlinkFind cr d k = Some (d1, he) \<and> dictTwoPhaseUnlinkFree cr d1 he = Some d' \<and>
    dict_ok eq d' \<and> pauserehash d' = pauserehash d \<and>
    (case he of
       None \<Rightarrow> (\<forall>p \<in># dict_bag d. \<not> eq k (fst p)) \<and> dict_bag d' = dict_bag d
     | Some r \<Rightarrow> pauserehash d1 = pauserehash d + 1 \<and>
         (\<exists>x. entry_at d1 r = Some x \<and> eq k (dictGetKey x) \<and> dict_bag d = add_mset (kv x) (dict_bag d')))"
proof -
  obtain d1 he d' where h: "dictTwoPhaseUnlinkFind cr d k = Some (d1, he)" "dictTwoPhaseUnlinkFree cr d1 he = Some d'"
    "dict_ok eq d'" "same_env d d'"
    "case he of None \<Rightarrow> absent eq k (dict_bag d) \<and> dict_bag d' = dict_bag d
     | Some r \<Rightarrow> pauserehash d1 = pauserehash d + 1 \<and>
         (\<exists>x. in_table d1 r x \<and> eq k (dictGetKey x) \<and> dict_bag d = add_mset (kv x) (dict_bag d'))"
    using two_phase_ok [OF assms, of cr k] by blast
  show ?thesis
  proof (intro exI conjI)
    show "dictTwoPhaseUnlinkFind cr d k = Some (d1, he)" "dictTwoPhaseUnlinkFree cr d1 he = Some d'" "dict_ok eq d'" by fact+
    show "pauserehash d' = pauserehash d" using h(4) by (simp add: same_env_def)
    show "case he of None \<Rightarrow> (\<forall>p \<in># dict_bag d. \<not> eq k (fst p)) \<and> dict_bag d' = dict_bag d
     | Some r \<Rightarrow> pauserehash d1 = pauserehash d + 1 \<and>
         (\<exists>x. entry_at d1 r = Some x \<and> eq k (dictGetKey x) \<and> dict_bag d = add_mset (kv x) (dict_bag d'))"
      using h(5) in_table_entry_at by (cases he) (fastforce simp: absent_def)+
  qed
qed

theorem dictTwoPhaseUnlink_correct_witness:
  "\<exists>d1 he d'. dictTwoPhaseUnlinkFind DICT_RESIZE_ENABLE dict_moving 8 = Some (d1, he) \<and>
    dictTwoPhaseUnlinkFree DICT_RESIZE_ENABLE d1 he = Some d' \<and> dict_ok (=) d'"
  using dictTwoPhaseUnlink_correct [OF dict_moving_ok(1), of DICT_RESIZE_ENABLE 8]
  by (fastforce simp: dict_moving_def)

lemma dictEmpty_ok:
  assumes "dict_ok eq d"
  shows "\<exists>d' freed. dictEmpty d = Some (d', freed) \<and> image_mset kv (mset freed) = dict_bag d \<and>
    dict_ok eq d' \<and> dict_bag d' = {#} \<and> dictSize d' = 0 \<and> dtype d' = dtype d \<and> pauserehash d' = 0 \<and> pauseAutoResize d' = 0"
proof -
  let ?d1 = "dictReset d 0"
  let ?d2 = "(dictReset ?d1 1)\<lparr>rehashidx := -1, pauserehash := 0, pauseAutoResize := 0\<rparr>"
  have c0: "dictClear d 0 = Some (?d1, concat (tbl d 0))" "dictClear d 1 = Some (dictReset d 1, concat (tbl d 1))"
    using dictClear_ok [OF assms] by simp_all
  then have c1: "dictClear ?d1 1 = Some (dictReset ?d1 1, concat (tbl d 1))"
    by (auto simp: dictClear_def dictReset_def Let_def split: option.splits if_splits)
  have "dictEmpty d = Some (?d2, concat (tbl d 0) @ concat (tbl d 1))" using c0(1) c1 by (simp add: dictEmpty_def)
  moreover have h: "has_none ?d2 0" "has_none ?d2 1" "dtype ?d2 = dtype d" by (simp_all add: has_none_def dictReset_def)
  moreover have "dict_bag ?d2 = {#}" using h by (simp add: dict_bag_def bag_simps)
  moreover from this h have "dict_ok eq ?d2" using assms by (simp add: dict_ok_def keys_distinct_def)
  moreover have "dictSize ?d2 = 0" by (simp add: dictSize_def dictReset_def)
  ultimately show ?thesis by (simp add: dict_bag_def)
qed

text \<open>(C27) \<open>dictEmpty\<close> releases every entry of both tables exactly once and leaves an empty, well-formed table.\<close>

theorem dictEmpty_correct:
  assumes "dict_ok eq d"
  shows "\<exists>d' freed. dictEmpty d = Some (d', freed) \<and> image_mset kv (mset freed) = dict_bag d \<and>
    dict_ok eq d' \<and> dict_bag d' = {#} \<and> dictSize d' = 0"
  using dictEmpty_ok [OF assms] by blast

theorem dictEmpty_correct_witness:
  "\<exists>d' freed. dictEmpty dict_moving = Some (d', freed) \<and> image_mset kv (mset freed) = dict_bag dict_moving"
  using dictEmpty_correct [OF dict_moving_ok(1)] by blast

text \<open>The size chosen for a table is the smallest power of two that is at least 4 and has room for the requested
  number of elements, below the limit of the address space.\<close>

lemma dictNextExp_correct:
  assumes "sz < LONG_MAX"
  shows "\<exists>e. dictNextExp sz = int e \<and> 2 \<le> e \<and> sz \<le> DICTHT_SIZE (int e) \<and> (\<forall>e'. 2 \<le> e' \<and> sz \<le> 2 ^ e' \<longrightarrow> e \<le> e')"
proof -
  obtain e where e: "dictNextExp sz = int e" "2 \<le> e" "sz \<le> 2 ^ e" "2 ^ e \<le> max 4 (2 * sz)" "if sz \<le> 4 then e = 2 else 2 ^ e < 2 * sz"
    using dictNextExp_size [OF assms] .
  have "e \<le> e'" if e': "2 \<le> e'" "sz \<le> 2 ^ e'" for e'
  proof (rule ccontr)
    assume "\<not> e \<le> e'"
    then have "(2 :: nat) ^ Suc e' \<le> 2 ^ e" by (intro power_increasing) auto
    moreover have "(4 :: nat) \<le> 2 ^ e'" using power_increasing [OF e'(1), of "2 :: nat"] by simp
    ultimately show False using e' e(5) by (auto split: if_splits)
  qed
  then show ?thesis using e(1-3) by (auto simp: DICTHT_SIZE_def)
qed

end
