(* ===== verification/Dict_Scan.thy ===== *)
theory Dict_Scan
  imports Dict_Props
begin

text \<open>
  The stateless iterator \<open>dictScan\<close>: the cursor is a bucket index that is incremented from its most significant bit.
  The main result is its promise that a full iteration returns every element that is in the table all the time, even
  when the table is resized or rehashed between the calls.
\<close>

section \<open>The cursor\<close>

function rev_loop :: "nat \<Rightarrow> 64 word \<Rightarrow> 64 word \<Rightarrow> 64 word" where
  "rev_loop s msk v =
     (if s div 2 > 0 then
        (let s = s div 2;
             msk = msk XOR push_bit s msk;
             v = (drop_bit s v AND msk) OR (push_bit s v AND NOT msk)
         in rev_loop s msk v)
      else v)"
  by auto
termination
  by (relation "measure (\<lambda>(s, _, _). s)") auto

declare rev_loop.simps [simp del]

definition dict_rev :: "64 word \<Rightarrow> 64 word" where
  "dict_rev v = rev_loop 64 (NOT 0) v"

text \<open>Setting the unmasked bits and incrementing the reversed cursor.\<close>

definition scan_next :: "64 word \<Rightarrow> 64 word \<Rightarrow> 64 word" where
  "scan_next m v = dict_rev (dict_rev (v OR NOT m) + 1)"

section \<open>One call\<close>

text \<open>
  The entries are those passed to the callback, in order. The defragmentation callbacks are NULL. Rehashing is paused
  during the call and resumed at its end, so the table does not change.
\<close>

partial_function (option) dictScan_loop ::
  "('k, 'v) dict \<Rightarrow> nat \<Rightarrow> 64 word \<Rightarrow> 64 word \<Rightarrow> 64 word \<Rightarrow> (64 word \<times> ('k, 'v) dictEntry list) option" where
  "dictScan_loop d htidx1 m0 m1 v =
     do { de \<leftarrow> bucket d htidx1 (unat (v AND m1));
          let v = scan_next m1 v;
          if v AND (m0 XOR m1) \<noteq> 0 then
            do { (v, es) \<leftarrow> dictScan_loop d htidx1 m0 m1 v; Some (v, chain_nodes de @ es) }
          else Some (v, chain_nodes de) }"

definition dictScan :: "('k, 'v) dict \<Rightarrow> 64 word \<Rightarrow> (64 word \<times> ('k, 'v) dictEntry list) option" where
  "dictScan d v =
     (if dictSize d = 0 then Some (0, [])
      else if \<not> dictIsRehashing d then
        do { let m0 = DICTHT_SIZE_MASK (ht_size_exp d 0);
             de \<leftarrow> bucket d 0 (unat (v AND m0));
             Some (scan_next m0 v, chain_nodes de) }
      else
        do { let (htidx0, htidx1) =
               (if DICTHT_SIZE (ht_size_exp d 0) > DICTHT_SIZE (ht_size_exp d 1) then (1, 0) else (0, 1));
             let m0 = DICTHT_SIZE_MASK (ht_size_exp d htidx0);
             let m1 = DICTHT_SIZE_MASK (ht_size_exp d htidx1);
             de \<leftarrow> bucket d htidx0 (unat (v AND m0));
             (v, es) \<leftarrow> dictScan_loop d htidx1 m0 m1 v;
             Some (v, chain_nodes de @ es) })"

section \<open>Bit reversal\<close>

definition swap_step :: "nat \<Rightarrow> 64 word \<Rightarrow> 64 word \<Rightarrow> 64 word" where
  "swap_step s m v = (drop_bit s v AND m) OR (push_bit s v AND NOT m)"

definition swap_idx :: "nat \<Rightarrow> nat \<Rightarrow> nat" where
  "swap_idx s n = (if even (n div s) then n + s else n - s)"

lemma swap_step_bit:
  assumes "\<forall>n < 64. bit m n \<longleftrightarrow> even (n div s)" "n < 64"
  shows "bit (swap_step s m v) n = bit v (swap_idx s n)"
proof (cases "even (n div s)")
  case True
  then show ?thesis using assms by (simp add: swap_step_def swap_idx_def bit_simps add.commute)
next
  case False
  then have "s \<le> n" by (metis div_less even_zero leI)
  then show ?thesis using False assms by (simp add: swap_step_def swap_idx_def bit_simps)
qed

lemma rev_loop_step:
  assumes "t = 2 * s" "0 < s" "m' = m XOR push_bit s m"
  shows "rev_loop t m v = rev_loop s m' (swap_step s m' v)"
  using assms by (subst rev_loop.simps) (simp add: Let_def swap_step_def)

lemma rev_masks:
  "(0xFFFFFFFF :: 64 word) = NOT 0 XOR push_bit 32 (NOT 0)"
  "(0xFFFF0000FFFF :: 64 word) = 0xFFFFFFFF XOR push_bit 16 0xFFFFFFFF"
  "(0xFF00FF00FF00FF :: 64 word) = 0xFFFF0000FFFF XOR push_bit 8 0xFFFF0000FFFF"
  "(0xF0F0F0F0F0F0F0F :: 64 word) = 0xFF00FF00FF00FF XOR push_bit 4 0xFF00FF00FF00FF"
  "(0x3333333333333333 :: 64 word) = 0xF0F0F0F0F0F0F0F XOR push_bit 2 0xF0F0F0F0F0F0F0F"
  "(0x5555555555555555 :: 64 word) = 0x3333333333333333 XOR push_bit 1 0x3333333333333333"
  by code_simp+

lemma dict_rev_eq_steps:
  "dict_rev v = swap_step 1 0x5555555555555555 (swap_step 2 0x3333333333333333 (swap_step 4 0xF0F0F0F0F0F0F0F
    (swap_step 8 0xFF00FF00FF00FF (swap_step 16 0xFFFF0000FFFF (swap_step 32 0xFFFFFFFF v)))))"
proof -
  have "rev_loop 1 m w = w" for m w by (subst rev_loop.simps) simp
  then show ?thesis unfolding dict_rev_def
    by (simp only: rev_loop_step [OF _ _ rev_masks(1), of 64] rev_loop_step [OF _ _ rev_masks(2), of 32]
      rev_loop_step [OF _ _ rev_masks(3), of 16] rev_loop_step [OF _ _ rev_masks(4), of 8]
      rev_loop_step [OF _ _ rev_masks(5), of 4] rev_loop_step [OF _ _ rev_masks(6), of 2]
      mult_numeral_left numeral_mult num.simps mult_1_right arith_simps rel_simps zero_less_one)
qed

lemma bits_64: "(\<forall>n < (64 :: nat). P n) \<longleftrightarrow> list_all P [0..<64]"
  by (auto simp: list_all_iff)

lemma swap_masks:
  "\<forall>n < 64. bit (0xFFFFFFFF :: 64 word) n \<longleftrightarrow> even (n div 32)"
  "\<forall>n < 64. bit (0xFFFF0000FFFF :: 64 word) n \<longleftrightarrow> even (n div 16)"
  "\<forall>n < 64. bit (0xFF00FF00FF00FF :: 64 word) n \<longleftrightarrow> even (n div 8)"
  "\<forall>n < 64. bit (0xF0F0F0F0F0F0F0F :: 64 word) n \<longleftrightarrow> even (n div 4)"
  "\<forall>n < 64. bit (0x3333333333333333 :: 64 word) n \<longleftrightarrow> even (n div 2)"
  "\<forall>n < 64. bit (0x5555555555555555 :: 64 word) n \<longleftrightarrow> even (n div 1)"
  unfolding bits_64 by code_simp+

lemma swap_idx_xor: "swap_idx (2 ^ k) n = n XOR 2 ^ k"
proof -
  have "swap_idx (2 ^ k) n = flip_bit k n"
  proof (cases "bit n k")
    case True
    then have "int (unset_bit k n) = int n - int (2 ^ k)"
      unfolding of_nat_unset_bit_eq unset_bit_eq by (simp add: bit_simps)
    then have "unset_bit k n = n - 2 ^ k" by linarith
    then show ?thesis using True by (simp add: swap_idx_def flip_bit_eq_if bit_iff_odd)
  next
    case False
    then show ?thesis by (simp add: swap_idx_def flip_bit_eq_if set_bit_eq bit_iff_odd)
  qed
  then show ?thesis by (simp add: flip_bit_eq_xor push_bit_eq_mult)
qed

lemma xor_lt_64: "n < 64 \<Longrightarrow> m < 64 \<Longrightarrow> n XOR m < (64 :: nat)"
  using take_bit_xor [of 6 n m] by (simp add: take_bit_nat_eq_self_iff [of 6, simplified, symmetric])

lemma xor_63: "n < 64 \<Longrightarrow> n XOR 63 = 63 - (n :: nat)"
proof -
  assume n: "n < 64"
  have "int (n XOR 63) = take_bit 6 (int n XOR 63)"
    using take_bit_nat_eq_self [of n 6] n by (simp add: of_nat_xor_eq flip: of_nat_take_bit)
  also have "\<dots> = take_bit 6 (NOT (int n))"
  proof -
    have "bit (63 :: int) i \<longleftrightarrow> i < 6" for i
      using bit_mask_iff [where 'a = int, of 6 i] by (simp add: mask_eq_exp_minus_1)
    then show ?thesis by (intro bit_eqI) (auto simp: bit_simps)
  qed
  also have "\<dots> = 63 - int n" using n by (simp add: take_bit_not_eq_mask_diff take_bit_int_eq_self mask_eq_exp_minus_1)
  finally show ?thesis using n by linarith
qed

lemma dict_rev_eq: "dict_rev v = word_reverse v"
proof (rule bit_word_eqI)
  fix n
  assume "n < LENGTH(64)"
  then have n: "n < 64" by simp
  note x = swap_idx_xor [of 0] swap_idx_xor [of 1] swap_idx_xor [of 2] swap_idx_xor [of 3] swap_idx_xor [of 4] swap_idx_xor [of 5]
  have lt: "swap_idx 1 m < 64" "swap_idx 2 m < 64" "swap_idx 4 m < 64" "swap_idx 8 m < 64" "swap_idx 16 m < 64" "swap_idx 32 m < 64"
    if "m < 64" for m
    using x that by (simp_all add: xor_lt_64)
  have "bit (dict_rev v) n = bit v (swap_idx 32 (swap_idx 16 (swap_idx 8 (swap_idx 4 (swap_idx 2 (swap_idx 1 n))))))"
    unfolding dict_rev_eq_steps using n lt by (simp only: swap_step_bit [OF swap_masks(1)] swap_step_bit [OF swap_masks(2)]
      swap_step_bit [OF swap_masks(3)] swap_step_bit [OF swap_masks(4)] swap_step_bit [OF swap_masks(5)] swap_step_bit [OF swap_masks(6)])
  moreover have "swap_idx 32 (swap_idx 16 (swap_idx 8 (swap_idx 4 (swap_idx 2 (swap_idx 1 n))))) = n XOR 63"
    using x by (simp add: xor.assoc)
  ultimately show "bit (dict_rev v) n = bit (word_reverse v) n"
    using n xor_63 by (simp add: bit_word_reverse_iff)
qed

section \<open>The order of the cursors\<close>

text \<open>Cursors and hashes are ordered by their reversed bits.\<close>

definition rank :: "64 word \<Rightarrow> nat" where
  "rank v = unat (word_reverse v)"

lemma rank_less: "rank v < 2 ^ 64"
  using unsigned_less [of "word_reverse v"] by (simp add: rank_def)

lemma rank_0: "rank v = 0 \<longleftrightarrow> v = 0"
proof -
  have "word_reverse (0 :: 64 word) = 0" by (rule bit_word_eqI) (simp add: bit_simps)
  then have "word_reverse v = 0 \<longleftrightarrow> v = 0" by (metis word_rev_rev)
  then show ?thesis by (simp add: rank_def unsigned_eq_0_iff)
qed

lemma reverse_or_mask: "e \<le> 64 \<Longrightarrow> word_reverse (v OR NOT (mask e)) = word_reverse v OR mask (64 - e)" for v :: "64 word"
  by (rule bit_word_eqI) (auto simp: bit_simps)

lemma nat_or_mask: "(m :: nat) OR mask k = m div 2 ^ k * 2 ^ k + (2 ^ k - 1)"
proof -
  have "m OR mask k = push_bit k (drop_bit k m) OR mask k" by (rule bit_eqI) (auto simp: bit_simps)
  also have "\<dots> = push_bit k (drop_bit k m) + mask k" by (rule disjunctive_add [symmetric]) (auto simp: bit_simps)
  finally show ?thesis by (simp add: push_bit_eq_mult drop_bit_eq_div mask_eq_exp_minus_1)
qed

lemma rank_scan_next:
  assumes "e \<le> 64"
  shows "rank (scan_next (mask e) v) = (rank v div 2 ^ (64 - e) + 1) * 2 ^ (64 - e) mod 2 ^ 64"
proof -
  let ?k = "64 - e"
  have "unat (mask ?k :: 64 word) = mask ?k" by (simp add: unat_eq_nat_uint uint_mask_eq nat_mask_eq)
  then have "unat (word_reverse v OR mask ?k) = rank v div 2 ^ ?k * 2 ^ ?k + (2 ^ ?k - 1)"
    by (simp add: unsigned_or_eq rank_def nat_or_mask)
  then have "unat (word_reverse v OR mask ?k) + 1 = (rank v div 2 ^ ?k + 1) * 2 ^ ?k" by simp
  moreover have "rank (scan_next (mask e) v) = (unat (word_reverse v OR mask ?k) + 1) mod 2 ^ 64"
    unfolding rank_def scan_next_def dict_rev_eq word_rev_rev reverse_or_mask [OF assms]
    by (simp add: unat_word_ariths)
  ultimately show ?thesis by simp
qed

lemma same_bucket:
  assumes "e \<le> 64"
  shows "v AND mask e = h AND mask e \<longleftrightarrow> rank v div 2 ^ (64 - e) = rank h div 2 ^ (64 - e)"
proof -
  have r: "rank w div 2 ^ k = unat (drop_bit k (word_reverse w))" for w k
    unfolding rank_def unat_drop_bit_eq by (simp add: drop_bit_eq_div)
  have "v AND mask e = h AND mask e \<longleftrightarrow> (\<forall>n < e. bit v n = bit h n)"
    using assms by (auto simp: bit_eq_iff bit_simps) (metis order_less_le_trans)+
  moreover have "drop_bit (64 - e) (word_reverse v) = drop_bit (64 - e) (word_reverse h) \<longleftrightarrow> (\<forall>n < e. bit v n = bit h n)"
  proof (rule iffI, intro allI impI)
    fix n
    assume d: "drop_bit (64 - e) (word_reverse v) = drop_bit (64 - e) (word_reverse h)" and n: "n < e"
    have "64 - e + (e - Suc n) = 63 - n" using n assms by simp
    then have "bit (word_reverse v) (63 - n) = bit (word_reverse h) (63 - n)"
      using arg_cong [OF d, of "\<lambda>x. bit x (e - Suc n)"] by (simp only: bit_drop_bit_eq comp_def)
    moreover have "63 - n < 64" by linarith
    ultimately show "bit v n = bit h n" using n assms by (simp add: bit_word_reverse_iff)
  qed (use assms in \<open>auto simp: bit_eq_iff bit_simps\<close>)
  ultimately show ?thesis unfolding r word_unat_eq_iff [symmetric] by simp
qed

text \<open>The first multiple of \<open>K\<close> above \<open>r\<close>.\<close>

definition next_mult :: "nat \<Rightarrow> nat \<Rightarrow> nat" where
  "next_mult K r = (r div K + 1) * K"

lemma next_mult_gt: "0 < K \<Longrightarrow> r < next_mult K r"
  by (simp add: next_mult_def) (metis add.commute dividend_less_div_times mult.commute)

lemma next_mult_le: "0 < K \<Longrightarrow> K dvd M \<Longrightarrow> r < M \<Longrightarrow> next_mult K r \<le> M"
proof -
  assume "0 < K" "K dvd M" "r < M"
  then obtain q where "M = q * K" by (metis dvdE mult.commute)
  then have "r div K < q" using \<open>r < M\<close> \<open>0 < K\<close> by (simp add: div_less_iff_less_mult)
  then show ?thesis using \<open>M = q * K\<close> by (simp add: next_mult_def) (metis Suc_leI mult_Suc mult_le_mono1)
qed

lemma next_mult_same: "0 < K \<Longrightarrow> r \<le> h \<Longrightarrow> h < next_mult K r \<Longrightarrow> h div K = r div K"
  by (metis next_mult_def div_le_mono le_antisym less_Suc_eq_le Suc_eq_plus1 div_less_iff_less_mult)

lemma div_same_bounds: "0 < K \<Longrightarrow> h div K = r div K \<Longrightarrow> h < next_mult K r"
  using next_mult_gt [of K h] by (simp add: next_mult_def)

section \<open>What one call returns\<close>

lemma size_mask: "DICTHT_SIZE_MASK (int e) = mask e"
  by (simp add: DICTHT_SIZE_MASK_def DICTHT_SIZE_def mask_eq_exp_minus_1)

lemma scan_bucket:
  assumes "has d t e tb"
  obtains c where "bucket d t (unat (v AND mask e)) = Some c" "chain_nodes c = c" "set c \<subseteq> set (concat tb)"
    "\<And>x. x \<in> set (concat tb) \<Longrightarrow> rank (hashFunction (dtype d) (dictGetKey x)) div 2 ^ (64 - e) = rank v div 2 ^ (64 - e) \<Longrightarrow> x \<in> set c"
proof -
  have h: "ht_table d t = Some tb" "tb_ok (dtype d) e tb" "e \<le> 60" using assms by (auto simp: has_def)
  have u: "unat (w AND mask e) = unat w mod 2 ^ e" for w :: "64 word"
    unfolding take_bit_eq_mask [symmetric] unsigned_take_bit_eq by (simp add: take_bit_eq_mod)
  have i: "unat (v AND mask e) < length tb" unfolding u using h(2) by (simp add: tb_ok_def)
  have mem: "x \<in> set (tb ! unat (v AND mask e))" if "x \<in> set (concat tb)"
    "rank (hashFunction (dtype d) (dictGetKey x)) div 2 ^ (64 - e) = rank v div 2 ^ (64 - e)" for x
    using in_bucket [OF h(2) that(1)] same_bucket [of e v "hashFunction (dtype d) (dictGetKey x)"] that(2) h(3) by (simp add: u)
  have ck: "chain_ok (dtype d) (tb ! unat (v AND mask e))" using h(2) i by (simp add: tb_ok_def)
  have "bucket d t (unat (v AND mask e)) = Some (tb ! unat (v AND mask e))" using h(1) i by (simp add: bucket_def)
  moreover have "set (tb ! unat (v AND mask e)) \<subseteq> set (concat tb)" using nth_mem [OF i] by auto
  ultimately show thesis using that chain_nodes_eq [OF ck] mem by blast
qed

lemma take_bit_zero: "take_bit k w = 0 \<longleftrightarrow> (\<forall>n < k. \<not> bit w n)" for w :: "64 word"
proof
  assume a: "take_bit k w = 0"
  show "\<forall>n < k. \<not> bit w n"
  proof (intro allI impI)
    fix n assume "n < k"
    then have "bit w n = bit (take_bit k w) n" by (simp add: bit_take_bit_iff)
    then show "\<not> bit w n" using a by simp
  qed
qed (rule bit_eqI, auto simp: bit_take_bit_iff)

lemma rank_mod_zero: "rank v mod 2 ^ k = 0 \<longleftrightarrow> (\<forall>n < k. \<not> bit (word_reverse v) n)"
proof -
  have "rank v mod 2 ^ k = unat (take_bit k (word_reverse v))"
    unfolding rank_def unsigned_take_bit_eq by (simp add: take_bit_eq_mod)
  then have "rank v mod 2 ^ k = 0 \<longleftrightarrow> take_bit k (word_reverse v) = 0" by (simp add: unsigned_eq_0_iff)
  also have "\<dots> \<longleftrightarrow> (\<forall>n < k. \<not> bit (word_reverse v) n)" by (rule take_bit_zero)
  finally show ?thesis .
qed

lemma mask_diff_zero:
  assumes "e0 < e1" "e1 \<le> 60" "rank v mod 2 ^ (64 - e1) = 0"
  shows "v AND (mask e0 XOR mask e1) = 0 \<longleftrightarrow> rank v mod 2 ^ (64 - e0) = 0"
proof -
  note r = rank_mod_zero [of v]
  have low: "\<forall>n < 64 - e1. \<not> bit (word_reverse v) n" using assms(3) r [of "64 - e1"] by simp
  have b: "bit (v AND (mask e0 XOR mask e1)) n \<longleftrightarrow> bit v n \<and> e0 \<le> n \<and> n < e1" for n
    using assms(1,2) bit_imp_le_length [of v n] unfolding bit_and_iff bit_xor_iff bit_mask_iff by auto
  have "v AND (mask e0 XOR mask e1) = 0 \<longleftrightarrow> (\<forall>n. e0 \<le> n \<and> n < e1 \<longrightarrow> \<not> bit v n)"
  proof
    assume "v AND (mask e0 XOR mask e1) = 0"
    then have "\<not> bit (v AND (mask e0 XOR mask e1)) n" for n by simp
    then show "\<forall>n. e0 \<le> n \<and> n < e1 \<longrightarrow> \<not> bit v n" using b by blast
  next
    assume a: "\<forall>n. e0 \<le> n \<and> n < e1 \<longrightarrow> \<not> bit v n"
    show "v AND (mask e0 XOR mask e1) = 0"
    proof (rule bit_eqI)
      fix n
      have "\<not> bit (v AND (mask e0 XOR mask e1)) n" using a b [of n] by blast
      then show "bit (v AND (mask e0 XOR mask e1)) n = bit 0 n" by simp
    qed
  qed
  also have "\<dots> \<longleftrightarrow> (\<forall>n < 64 - e0. \<not> bit (word_reverse v) n)"
  proof (intro iffI allI impI)
    fix n
    assume a: "\<forall>n. e0 \<le> n \<and> n < e1 \<longrightarrow> \<not> bit v n" "n < 64 - e0"
    show "\<not> bit (word_reverse v) n"
    proof (cases "n < 64 - e1")
      case True
      then show ?thesis using low by simp
    next
      case False
      then have "e0 \<le> 63 - n \<and> 63 - n < e1" using a(2) assms(1,2) by linarith
      then have "\<not> bit v (63 - n)" using a(1) by blast
      then show ?thesis by (simp add: bit_word_reverse_iff)
    qed
  next
    fix n
    assume a: "\<forall>n < 64 - e0. \<not> bit (word_reverse v) n" "e0 \<le> n \<and> n < e1"
    have "63 - n < 64 - e0" using a(2) assms(1,2) by linarith
    then have "\<not> bit (word_reverse v) (63 - n)" using a(1) by blast
    then show "\<not> bit v n" using a(2) assms(2) by (simp add: bit_word_reverse_iff)
  qed
  finally show ?thesis using r [of "64 - e0"] by simp
qed

abbreviation hrank :: "('k, 'v) dict \<Rightarrow> ('k, 'v) dictEntry \<Rightarrow> nat" where
  "hrank d x \<equiv> rank (hashFunction (dtype d) (dictGetKey x))"

abbreviation blk :: "nat \<Rightarrow> nat" where
  "blk e \<equiv> 2 ^ (64 - e)"

lemma next_mult_64:
  assumes "e \<le> 64"
  shows "next_mult (blk e) (rank v) \<le> 2 ^ 64" "next_mult (blk e) (rank v) mod 2 ^ 64 mod blk e = 0"
proof -
  have d: "blk e dvd (2 :: nat) ^ 64" by (rule le_imp_power_dvd) simp
  then show "next_mult (blk e) (rank v) \<le> 2 ^ 64" using next_mult_le [OF _ d] rank_less by simp
  show "next_mult (blk e) (rank v) mod 2 ^ 64 mod blk e = 0"
    unfolding mod_mod_cancel [OF d] by (simp add: next_mult_def)
qed

lemma dictScan_loop_ok:
  assumes "has d t e1 tb" "e0 < e1"
  shows "\<exists>v' es. dictScan_loop d t (mask e0) (mask e1) v = Some (v', es) \<and> set es \<subseteq> set (concat tb) \<and>
    rank v' = next_mult (blk e0) (rank v) mod 2 ^ 64 \<and>
    (\<forall>x \<in> set (concat tb). rank v \<le> hrank d x \<and> hrank d x div blk e0 = rank v div blk e0 \<longrightarrow> x \<in> set es)"
proof (induction "next_mult (blk e0) (rank v) - rank v" arbitrary: v rule: less_induct)
  case less
  have e1: "e1 \<le> 60" "e1 \<le> 64" "e0 \<le> 64" using assms by (auto simp: has_def)
  let ?N = "next_mult (blk e0) (rank v)" and ?n1 = "next_mult (blk e1) (rank v)"
  define v1 where "v1 = scan_next (mask e1) v"
  obtain c where c: "bucket d t (unat (v AND mask e1)) = Some c" "chain_nodes c = c" "set c \<subseteq> set (concat tb)"
    "\<And>x. x \<in> set (concat tb) \<Longrightarrow> hrank d x div blk e1 = rank v div blk e1 \<Longrightarrow> x \<in> set c"
    using scan_bucket [OF assms(1), of v] by blast
  have step: "dictScan_loop d t (mask e0) (mask e1) v =
    (if v1 AND (mask e0 XOR mask e1) \<noteq> 0
     then do { (w, es) \<leftarrow> dictScan_loop d t (mask e0) (mask e1) v1; Some (w, c @ es) } else Some (v1, c))"
    by (subst dictScan_loop.simps) (simp add: c(1,2) v1_def)
  have r1: "rank v1 = ?n1 mod 2 ^ 64" unfolding v1_def rank_scan_next [OF e1(2)] by (simp add: next_mult_def)
  have low: "rank v1 mod blk e1 = 0" unfolding r1 by (rule next_mult_64(2) [OF e1(2)])
  have dv: "blk e1 dvd (blk e0 :: nat)" using assms(2) by (intro le_imp_power_dvd) simp
  have "blk e1 dvd ?N" unfolding next_mult_def using dv by simp
  then have n1N: "?n1 \<le> ?N" by (intro next_mult_le next_mult_gt) simp_all
  have gt: "rank v < ?n1" "rank v < ?N" by (simp_all add: next_mult_gt)
  note z = mask_diff_zero [OF assms(2) e1(1) low]
  have near: "x \<in> set c" if "x \<in> set (concat tb)" "rank v \<le> hrank d x" "hrank d x < ?n1" for x
    by (rule c(4) [OF that(1) next_mult_same [OF _ that(2,3)]]) simp
  show ?case
  proof (cases "?n1 = ?N")
    case True
    then have "rank v1 mod blk e0 = 0" unfolding r1 using next_mult_64(2) [OF e1(3), of v] by simp
    then have "dictScan_loop d t (mask e0) (mask e1) v = Some (v1, c)" using step z by simp
    moreover have "x \<in> set c" if "x \<in> set (concat tb)" "rank v \<le> hrank d x" "hrank d x div blk e0 = rank v div blk e0" for x
      using near [OF that(1,2)] div_same_bounds [OF _ that(3)] True by simp
    ultimately show ?thesis using r1 c(3) unfolding True by blast
  next
    case False
    then have lt: "?n1 < ?N" using n1N by simp
    then have r1': "rank v1 = ?n1" using r1 next_mult_64(1) [OF e1(3), of v] by simp
    have sd: "?n1 div blk e0 = rank v div blk e0" using next_mult_same [OF _ less_imp_le [OF gt(1)] lt] by simp
    then have N1: "next_mult (blk e0) (rank v1) = ?N" unfolding r1' by (simp add: next_mult_def)
    have "rank v1 mod blk e0 \<noteq> 0"
    proof
      assume "rank v1 mod blk e0 = 0"
      then have "blk e0 dvd ?n1" using r1' by (simp add: dvd_eq_mod_eq_0)
      then show False using next_mult_le [of "blk e0", OF _ _ gt(1)] lt by simp
    qed
    then have st: "dictScan_loop d t (mask e0) (mask e1) v =
        do { (w, es) \<leftarrow> dictScan_loop d t (mask e0) (mask e1) v1; Some (w, c @ es) }" using step z by simp
    have "next_mult (blk e0) (rank v1) - rank v1 < ?N - rank v" unfolding N1 unfolding r1' using gt(1) lt by linarith
    from less [OF this] obtain v' es where IH: "dictScan_loop d t (mask e0) (mask e1) v1 = Some (v', es)"
      "set es \<subseteq> set (concat tb)" "rank v' = ?N mod 2 ^ 64"
      "\<forall>x \<in> set (concat tb). ?n1 \<le> hrank d x \<and> hrank d x div blk e0 = rank v div blk e0 \<longrightarrow> x \<in> set es"
      unfolding N1 unfolding r1' sd by blast
    have "dictScan_loop d t (mask e0) (mask e1) v = Some (v', c @ es)" using st IH(1) by simp
    moreover have "x \<in> set (c @ es)" if "x \<in> set (concat tb)" "rank v \<le> hrank d x" "hrank d x div blk e0 = rank v div blk e0" for x
      using near [OF that(1,2)] IH(4) that by (cases "hrank d x < ?n1") auto
    moreover have "set (c @ es) \<subseteq> set (concat tb)" using c(3) IH(2) by simp
    ultimately show ?thesis using IH(3) by blast
  qed
qed

text \<open>
  One call from the cursor \<open>v\<close> returns only entries of the table, among them all that rank between \<open>v\<close> and the new
  cursor; the new cursor ranks higher, or is 0.
\<close>

lemma dictScan_full:
  assumes "dict_ok eq d"
  shows "\<exists>v' es. dictScan d v = Some (v', es) \<and> (\<exists>e \<le> 64. int e \<le> max 0 (ht_size_exp d 0) \<and> rank v' mod blk e = 0) \<and>
    set es \<subseteq> set (concat (tbl d 0)) \<union> set (concat (tbl d 1)) \<and> (v' = 0 \<or> rank v < rank v') \<and>
    (\<forall>x \<in> set (concat (tbl d 0)) \<union> set (concat (tbl d 1)).
       rank v \<le> hrank d x \<and> (v' = 0 \<or> hrank d x < rank v') \<longrightarrow> x \<in> set es)"
proof (cases "dict_bag d = {#}")
  case True
  then have "dictScan d v = Some (0, [])" using used_le_bag(2) [OF assms] by (simp add: dictScan_def)
  moreover have "concat (tbl d 0) = []" "concat (tbl d 1) = []" using True by (auto simp: dict_bag_def)
  moreover have "\<exists>e \<le> 64. int e \<le> max 0 (ht_size_exp d 0) \<and> rank 0 mod blk e = 0" using rank_0 [of 0] by (intro exI [of _ 0]) simp
  ultimately show ?thesis by (simp del: concat_eq_Nil_conv set_concat)
next
  case ne: False
  then have sz: "dictSize d \<noteq> 0" using used_le_bag(2) [OF assms] by simp
  have fin: "v' = 0 \<or> rank v < rank v'"
    "rank v \<le> h \<Longrightarrow> v' = 0 \<or> h < rank v' \<Longrightarrow> h < 2 ^ 64 \<Longrightarrow> h div blk e = rank v div blk e"
    if e: "e \<le> 64" and r: "rank v' = next_mult (blk e) (rank v) mod 2 ^ 64" for v' e h
  proof -
    note gt = next_mult_gt [of "blk e" "rank v"] and le = next_mult_64(1) [OF e, of v]
    have v': "v' = 0 \<and> next_mult (blk e) (rank v) = 2 ^ 64 \<or> v' \<noteq> 0 \<and> rank v' = next_mult (blk e) (rank v)"
      using r gt le rank_0 [of v'] by (cases "next_mult (blk e) (rank v) = 2 ^ 64") auto
    then show "v' = 0 \<or> rank v < rank v'" using gt by auto
    show "h div blk e = rank v div blk e" if "rank v \<le> h" "v' = 0 \<or> h < rank v'" "h < 2 ^ 64"
      by (rule next_mult_same [OF _ that(1)]) (use v' that(2,3) in auto)
  qed
  show ?thesis
  proof (cases "dictIsRehashing d")
    case False
    then have "has_none d 1" "has_none d 0 \<or> (\<exists>e tb. has d 0 e tb)" using assms by (auto simp: dict_ok_def dictIsRehashing_def)
    then obtain e tb where h: "has d 0 e tb" "has_none d 1" using has_none_bag [OF assms] ne by blast
    have e: "ht_size_exp d 0 = int e" "e \<le> 64" using h(1) by (auto simp: has_def)
    obtain c where c: "bucket d 0 (unat (v AND mask e)) = Some c" "chain_nodes c = c" "set c \<subseteq> set (concat tb)"
      "\<And>x. x \<in> set (concat tb) \<Longrightarrow> hrank d x div blk e = rank v div blk e \<Longrightarrow> x \<in> set c"
      using scan_bucket [OF h(1), of v] by blast
    have un: "set (concat (tbl d 0)) \<union> set (concat (tbl d 1)) = set (concat tb)"
      using bag_simps(1) [OF h(1)] bag_simps(2) [OF h(2)] by simp
    have r: "rank (scan_next (mask e) v) = next_mult (blk e) (rank v) mod 2 ^ 64"
      unfolding rank_scan_next [OF e(2)] by (simp add: next_mult_def)
    show ?thesis unfolding un
    proof (intro exI [of _ "scan_next (mask e) v"] exI [of _ c] conjI ballI impI)
      show "dictScan d v = Some (scan_next (mask e) v, c)" using sz False c(1,2) by (simp add: dictScan_def e(1) size_mask)
      have "rank (scan_next (mask e) v) mod blk e = 0" unfolding r by (rule next_mult_64(2) [OF e(2)])
      then show "\<exists>e' \<le> 64. int e' \<le> max 0 (ht_size_exp d 0) \<and> rank (scan_next (mask e) v) mod blk e' = 0"
        using e by (intro exI [of _ e]) simp
      show "set c \<subseteq> set (concat tb)" by (rule c(3))
      show "scan_next (mask e) v = 0 \<or> rank v < rank (scan_next (mask e) v)" using fin(1) [OF e(2) r] .
    next
      fix x
      assume "x \<in> set (concat tb)" "rank v \<le> hrank d x \<and> (scan_next (mask e) v = 0 \<or> hrank d x < rank (scan_next (mask e) v))"
      then show "x \<in> set c" using c(4) fin(2) [OF e(2) r _ _ rank_less] by blast
    qed
  next
    case re: True
    obtain e0 tb0 e1 tb1 where h: "has d 0 e0 tb0" "has d 1 e1 tb1" "e0 \<noteq> e1" "0 \<le> rehashidx d" "rehashidx d \<le> 2 ^ e0"
      "\<forall>i < nat (rehashidx d). tb0 ! i = []"
      using rehash_okD [OF assms re] .
    define s b es eb tbs tbb where "s = (if e1 < e0 then 1 else 0 :: nat)" and "b = 1 - s"
      and "es = min e0 e1" and "eb = max e0 e1" and "tbs = tbl d s" and "tbb = tbl d b"
    have hs: "has d s es tbs" "has d b eb tbb" "es < eb"
      using h(1-3) bag_simps(1) [OF h(1)] bag_simps(1) [OF h(2)] by (auto simp: s_def b_def es_def eb_def tbs_def tbb_def)
    have e: "ht_size_exp d s = int es" "ht_size_exp d b = int eb" "es \<le> 64" using hs by (auto simp: has_def)
    have un: "set (concat (tbl d 0)) \<union> set (concat (tbl d 1)) = set (concat tbs) \<union> set (concat tbb)"
      by (auto simp: tbs_def tbb_def b_def s_def)
    have sb: "(if DICTHT_SIZE (ht_size_exp d 0) > DICTHT_SIZE (ht_size_exp d 1) then (1, 0) else (0, 1)) = (s, b)"
      using h(1,2) by (simp add: has_def DICTHT_SIZE_def s_def b_def)
    obtain c where c: "bucket d s (unat (v AND mask es)) = Some c" "chain_nodes c = c" "set c \<subseteq> set (concat tbs)"
      "\<And>x. x \<in> set (concat tbs) \<Longrightarrow> hrank d x div blk es = rank v div blk es \<Longrightarrow> x \<in> set c"
      using scan_bucket [OF hs(1), of v] by blast
    obtain v' xs where l: "dictScan_loop d b (mask es) (mask eb) v = Some (v', xs)" "set xs \<subseteq> set (concat tbb)"
      "rank v' = next_mult (blk es) (rank v) mod 2 ^ 64"
      "\<forall>x \<in> set (concat tbb). rank v \<le> hrank d x \<and> hrank d x div blk es = rank v div blk es \<longrightarrow> x \<in> set xs"
      using dictScan_loop_ok [OF hs(2,3), of v] by blast
    show ?thesis unfolding un
    proof (intro exI [of _ v'] exI [of _ "c @ xs"] conjI ballI impI)
      have "rank v' mod blk es = 0" unfolding l(3) by (rule next_mult_64(2) [OF e(3)])
      then show "\<exists>e \<le> 64. int e \<le> max 0 (ht_size_exp d 0) \<and> rank v' mod blk e = 0"
        using e(3) h(1) by (intro exI [of _ es]) (simp add: has_def es_def)
      show "dictScan d v = Some (v', c @ xs)"
        unfolding dictScan_def sb Let_def prod.case e size_mask using sz re c(1,2) l(1) by simp
      show "set (c @ xs) \<subseteq> set (concat tbs) \<union> set (concat tbb)" using c(3) l(2) unfolding set_append by blast
      show "v' = 0 \<or> rank v < rank v'" using fin(1) [OF e(3) l(3)] .
    next
      fix x
      assume x: "x \<in> set (concat tbs) \<union> set (concat tbb)" "rank v \<le> hrank d x \<and> (v' = 0 \<or> hrank d x < rank v')"
      then have "hrank d x div blk es = rank v div blk es" using fin(2) [OF e(3) l(3) _ _ rank_less] by blast
      then show "x \<in> set (c @ xs)" using x c(4) l(4) unfolding set_append by blast
    qed
  qed
qed

lemma dictScan_ok:
  assumes "dict_ok eq d"
  shows "\<exists>v' es. dictScan d v = Some (v', es) \<and>
    set es \<subseteq> set (concat (tbl d 0)) \<union> set (concat (tbl d 1)) \<and> (v' = 0 \<or> rank v < rank v') \<and>
    (\<forall>x \<in> set (concat (tbl d 0)) \<union> set (concat (tbl d 1)).
       rank v \<le> hrank d x \<and> (v' = 0 \<or> hrank d x < rank v') \<longrightarrow> x \<in> set es)"
proof -
  obtain v' es where "dictScan d v = Some (v', es)" "set es \<subseteq> set (concat (tbl d 0)) \<union> set (concat (tbl d 1))" "v' = 0 \<or> rank v < rank v'"
    "\<forall>x \<in> set (concat (tbl d 0)) \<union> set (concat (tbl d 1)). rank v \<le> hrank d x \<and> (v' = 0 \<or> hrank d x < rank v') \<longrightarrow> x \<in> set es"
    using dictScan_full [OF assms, of v] by blast
  then show ?thesis by blast
qed

text \<open>The new cursor has no more bits than the table in use has index bits.\<close>

lemma dictScan_cursor:
  assumes "dict_ok eq d" "dictScan d v = Some (v', es)" "ht_size_exp d 0 \<le> int B" "n \<ge> B"
  shows "\<not> bit v' n"
proof (cases "n < 64")
  case True
  obtain w xs e where w: "dictScan d v = Some (w, xs)" and e: "e \<le> 64" "int e \<le> max 0 (ht_size_exp d 0)" "rank w mod blk e = 0"
    using dictScan_full [OF assms(1), of v] by (elim exE conjE) rule
  have "w = v'" using w assms(2) by simp
  have "63 - n < 64 - e" using e(1,2) assms(3,4) True by linarith
  then have "\<not> bit (word_reverse v') (63 - n)" using e(3) \<open>w = v'\<close> unfolding rank_mod_zero by blast
  then show ?thesis using True by (simp add: bit_word_reverse_iff)
next
  case False
  then show ?thesis using bit_imp_le_length [of v' n] by auto
qed

section \<open>Full iterations\<close>

text \<open>
  The calls of an iteration, each with the state of the table at that moment and the entries it returned. Between the
  calls the table may change in any way.
\<close>

inductive scan_trace :: "64 word \<Rightarrow> (('k, 'v) dict \<times> ('k, 'v) dictEntry list) list \<Rightarrow> bool" where
  scan_end: "dictScan d v = Some (0, es) \<Longrightarrow> scan_trace v [(d, es)]"
| scan_more: "dictScan d v = Some (v', es) \<Longrightarrow> v' \<noteq> 0 \<Longrightarrow> scan_trace v' tr \<Longrightarrow> scan_trace v ((d, es) # tr)"

inductive_cases scan_trace_Nil: "scan_trace v []"

definition holds_key :: "('k \<Rightarrow> 'k \<Rightarrow> bool) \<Rightarrow> 'k \<Rightarrow> ('k, 'v) dict \<Rightarrow> bool" where
  "holds_key eq k d \<longleftrightarrow> (\<exists>p \<in># dict_bag d. eq k (fst p))"

lemma holds_key_entry:
  assumes "holds_key eq k d"
  obtains x where "x \<in> set (concat (tbl d 0)) \<union> set (concat (tbl d 1))" "eq k (dictGetKey x)"
proof -
  have "\<exists>x \<in> set (concat (tbl d 0)) \<union> set (concat (tbl d 1)). eq k (dictGetKey x)"
    using assms unfolding holds_key_def dict_bag_def kv_def by (auto simp del: set_concat)
  then show thesis using that by blast
qed

lemma scan_trace_covers:
  assumes "scan_trace v tr" "\<forall>(d, es) \<in> set tr. dict_ok eq d \<and> dtype d = T \<and> holds_key eq k d" "rank v \<le> rank (hashFunction T k)"
  shows "\<exists>(d, es) \<in> set tr. \<exists>x \<in> set es. eq k (dictGetKey x)"
  using assms
proof (induction rule: scan_trace.induct)
  case (scan_end d v es)
  then have d: "dict_ok eq d" "dtype d = T" "holds_key eq k d" by auto
  obtain x where x: "x \<in> set (concat (tbl d 0)) \<union> set (concat (tbl d 1))" "eq k (dictGetKey x)" using holds_key_entry [OF d(3)] .
  have "hashFunction T (dictGetKey x) = hashFunction T k" using d(1,2) x(2) type_okD(4) by (metis dict_ok_def)
  then have "x \<in> set es" using dictScan_ok [OF d(1), of v] scan_end(1,3) x(1) d(2) by auto
  then show ?case using x(2) by auto
next
  case (scan_more d v v' es tr)
  then have d: "dict_ok eq d" "dtype d = T" "holds_key eq k d" by auto
  obtain x where x: "x \<in> set (concat (tbl d 0)) \<union> set (concat (tbl d 1))" "eq k (dictGetKey x)" using holds_key_entry [OF d(3)] .
  have h: "hashFunction T (dictGetKey x) = hashFunction T k" using d(1,2) x(2) type_okD(4) by (metis dict_ok_def)
  show ?case
  proof (cases "rank (hashFunction T k) < rank v'")
    case True
    then have "x \<in> set es" using dictScan_ok [OF d(1), of v] scan_more.hyps(1) scan_more.prems(2) x(1) d(2) h by auto
    then show ?thesis using x(2) by auto
  next
    case False
    then show ?thesis using scan_more.IH scan_more.prems(1) by auto
  qed
qed

lemma scan_trace_exists:
  assumes "dict_ok eq d"
  shows "\<exists>tr. scan_trace v tr \<and> (\<forall>(d', es) \<in> set tr. d' = d)"
proof (induction "2 ^ 64 - rank v" arbitrary: v rule: less_induct)
  case less
  obtain v' es where s: "dictScan d v = Some (v', es)" "v' = 0 \<or> rank v < rank v'" using dictScan_ok [OF assms, of v] by blast
  show ?case
  proof (cases "v' = 0")
    case True
    then show ?thesis using s(1) by (intro exI [of _ "[(d, es)]"]) (simp add: scan_end)
  next
    case False
    then have "2 ^ 64 - rank v' < 2 ^ 64 - rank v" using s(2) rank_less [of v'] by linarith
    then obtain tr where "scan_trace v' tr" "\<forall>(d', es) \<in> set tr. d' = d" using less by blast
    then show ?thesis using s(1) False by (intro exI [of _ "(d, es) # tr"]) (simp add: scan_more)
  qed
qed

text \<open>(C2) The promise of \<open>dictScan\<close>: in every full iteration, from cursor 0 until cursor 0 comes back, each key that is
  in the table at every call is returned by some call, although the table may be resized, rehashed and changed in any
  way between the calls.\<close>

theorem dictScan_complete:
  assumes "scan_trace 0 tr" "\<forall>(d, es) \<in> set tr. dict_ok eq d \<and> dtype d = T \<and> holds_key eq k d"
  shows "\<exists>(d, es) \<in> set tr. \<exists>x \<in> set es. eq k (dictGetKey x)"
  using scan_trace_covers [OF assms] rank_0 [of 0] by simp

theorem dictScan_complete_witness:
  "\<exists>tr. scan_trace 0 tr \<and> (\<forall>(d, es) \<in> set tr. d = dict_moving) \<and> (\<exists>(d, es) \<in> set tr. \<exists>x \<in> set es. dictGetKey x = 8)"
proof -
  obtain tr where tr: "scan_trace 0 tr" "\<forall>(d, es) \<in> set tr. d = dict_moving" using scan_trace_exists [OF dict_moving_ok(1)] by blast
  have k: "holds_key (=) 8 dict_moving"
    by (simp add: holds_key_def dict_bag_def tbl_def dict_moving_def kv_def)
  have T: "dtype dict_moving = type_nat" by (simp add: dict_moving_def)
  have "\<forall>(d, es) \<in> set tr. dict_ok (=) d \<and> dtype d = type_nat \<and> holds_key (=) 8 d"
    using tr(2) dict_moving_ok(1) k T by auto
  from dictScan_complete [OF tr(1) this] tr show ?thesis by fastforce
qed

text \<open>(C22) Every call of \<open>dictScan\<close> returns, hands out only entries of the table and moves the cursor forward in the
  order of the reversed bits, or ends the iteration, so that an iteration cannot go on forever.\<close>

theorem dictScan_progress:
  assumes "dict_ok eq d"
  shows "\<exists>v' es. dictScan d v = Some (v', es) \<and> (\<forall>x \<in> set es. kv x \<in># dict_bag d) \<and> (v' = 0 \<or> rank v < rank v')"
proof -
  obtain v' es where "dictScan d v = Some (v', es)" "v' = 0 \<or> rank v < rank v'"
    "set es \<subseteq> set (concat (tbl d 0)) \<union> set (concat (tbl d 1))"
    using dictScan_ok [OF assms, of v] by blast
  moreover from this(3) have "\<forall>x \<in> set es. kv x \<in># dict_bag d" by (auto simp: dict_bag_def simp del: set_concat)
  ultimately show ?thesis by blast
qed

theorem dictScan_progress_witness:
  "\<exists>v' es. dictScan dict_moving 0 = Some (v', es) \<and> (\<forall>x \<in> set es. kv x \<in># dict_bag dict_moving)"
  using dictScan_progress [OF dict_moving_ok(1), of 0] by blast

end
