(* ===== verification/Fenwick.thy ===== *)
theory Fenwick
  imports Redis_Prelude
begin

text \<open>
  The binary indexed tree of \<^verbatim>\<open>kvstore.c\<close>, which keeps the number of keys of a range of hash tables in each cell of
  \<^verbatim>\<open>dict_size_index\<close>: reading the sum of a prefix, changing one count, and finding the table that holds the key of a
  given rank. The cells are 64-bit counters and the indices C \<^verbatim>\<open>int\<close>s; \<open>None\<close> is an access outside of the array, a
  failed assertion or a loop that does not end.

  \<open>bit_ok t f n\<close> says that the cell \<open>i\<close> holds the sum of the counts \<open>f\<close> over the \<open>lowbit i\<close> positions before \<open>i\<close>.
\<close>

unbundle bit_operations_syntax

section \<open>The loops\<close>

definition lowbit :: "int \<Rightarrow> int" where
  "lowbit idx = idx AND (- idx)"

definition cell :: "nat list \<Rightarrow> int \<Rightarrow> nat option" where
  "cell t idx = (if 0 \<le> idx \<and> nat idx < length t then Some (t ! nat idx) else None)"

partial_function (option) bit_read_loop :: "nat list \<Rightarrow> int \<Rightarrow> nat \<Rightarrow> nat option" where
  "bit_read_loop t idx acc =
     (if idx > 0 then do { v \<leftarrow> cell t idx; bit_read_loop t (idx - lowbit idx) ((acc + v) mod ULONG_WRAP) }
      else Some acc)"

partial_function (option) bit_add_loop :: "nat list \<Rightarrow> int \<Rightarrow> int \<Rightarrow> int \<Rightarrow> nat list option" where
  "bit_add_loop t num_dicts idx delta =
     (if idx \<le> num_dicts then
        do { v \<leftarrow> cell t idx;
             _ \<leftarrow> c_assert (delta < 0 \<longrightarrow> int v \<ge> \<bar>delta\<bar>);
             bit_add_loop (t[nat idx := nat ((int v + delta) mod int ULONG_WRAP)]) num_dicts (idx + lowbit idx) delta }
      else Some t)"

fun bit_find_loop :: "nat list \<Rightarrow> nat \<Rightarrow> int \<Rightarrow> nat \<Rightarrow> int option" where
  "bit_find_loop t i result target =
     (if i \<noteq> 0 then
        do { let current = result + int i;
             v \<leftarrow> cell t current;
             if target > v then bit_find_loop t (i div 2) current (target - v)
             else bit_find_loop t (i div 2) result target }
      else Some result)"

declare bit_find_loop.simps [simp del]

section \<open>The lowest bit\<close>

lemma lowbit_odd: "lowbit (2 * m + 1) = 1"
proof -
  have "- (2 * m + 1) div 2 = NOT m" by (simp add: not_int_def)
  moreover have "m AND NOT m = 0" by simp
  ultimately show ?thesis unfolding lowbit_def by (subst and_int_rec) simp
qed

lemma lowbit_even: "lowbit (2 * m) = 2 * lowbit m"
proof -
  have "- (2 * m) div 2 = - m" by simp
  then show ?thesis unfolding lowbit_def by (subst and_int_rec) simp
qed

lemma lowbit_pow: "lowbit (2 ^ k * (2 * m + 1)) = 2 ^ k"
proof (induction k)
  case (Suc k)
  have "lowbit (2 ^ Suc k * (2 * m + 1)) = 2 * lowbit (2 ^ k * (2 * m + 1))"
    using lowbit_even [of "2 ^ k * (2 * m + 1)"] by (simp add: mult.assoc)
  then show ?case using Suc by simp
qed (use lowbit_odd in simp)

text \<open>Every positive number is an odd multiple of its lowest bit.\<close>

lemma pow_oddE:
  assumes "0 < (i :: nat)"
  obtains k m where "i = 2 ^ k * (2 * m + 1)"
  using assms
proof (induction i arbitrary: thesis rule: less_induct)
  case (less i)
  show ?case
  proof (cases "even i")
    case True
    then obtain j where j: "i = 2 * j" "0 < j" "j < i" using less.prems(2) by (auto elim!: evenE)
    obtain k m where "j = 2 ^ k * (2 * m + 1)" using less.IH [OF j(3) _ j(2)] by blast
    then show ?thesis using less.prems(1) [of "Suc k" m] j(1) by simp
  next
    case False
    then obtain m where "i = 2 * m + 1" by (auto elim!: oddE)
    then show ?thesis using less.prems(1) [of 0 m] by simp
  qed
qed

definition lb :: "nat \<Rightarrow> nat" where
  "lb i = nat (lowbit (int i))"

lemma lowbit_eq: "i = 2 ^ k * (2 * m + 1) \<Longrightarrow> lowbit (int i) = 2 ^ k"
proof -
  assume "i = 2 ^ k * (2 * m + 1)"
  then have "int i = 2 ^ k * (2 * int m + 1)" by (simp add: algebra_simps)
  then show ?thesis using lowbit_pow [of k "int m"] by metis
qed

lemma lb_eq: "i = 2 ^ k * (2 * m + 1) \<Longrightarrow> lb i = 2 ^ k"
  using lowbit_eq [of i k m] by (simp add: lb_def nat_power_eq)

lemma lb_bounds:
  assumes "0 < i"
  shows "0 < lb i" "lb i \<le> i"
proof -
  obtain k m where i: "i = 2 ^ k * (2 * m + 1)" using pow_oddE [OF assms] .
  show "0 < lb i" "lb i \<le> i" using lb_eq [OF i] i by auto
qed

lemma lowbit_int: "0 < i \<Longrightarrow> lowbit (int i) = int (lb i)"
  by (metis lb_eq lowbit_eq of_nat_numeral of_nat_power pow_oddE)

text \<open>The cell \<open>x\<close> covers the position \<open>i\<close>.\<close>

definition covers :: "nat \<Rightarrow> nat \<Rightarrow> bool" where
  "covers x i \<longleftrightarrow> x - lb x < i \<and> i \<le> x"

lemma no_multiple_between: "(q :: nat) * a < j * a \<Longrightarrow> j * a < Suc q * a \<Longrightarrow> False"
  by (metis Suc_leI mult_le_mono1 not_le mult_less_cancel2)

lemma covers_next:
  assumes "0 < i" "0 < x"
  shows "covers x i \<longleftrightarrow> x = i \<or> covers x (i + lb i)"
proof -
  obtain k m where i: "i = 2 ^ k * (2 * m + 1)" using pow_oddE [OF assms(1)] .
  obtain q r where x: "x = 2 ^ q * (2 * r + 1)" using pow_oddE [OF assms(2)] .
  define nx where "nx = i + lb i"
  have nx: "nx = 2 ^ Suc k * (m + 1)" using lb_eq [OF i] by (simp add: nx_def i algebra_simps)
  have i2: "i = 2 ^ Suc k * m + 2 ^ k" by (simp add: i algebra_simps)
  have x2: "x - lb x = 2 ^ Suc q * r" "lb x = 2 ^ q" using lb_eq [OF x] by (simp_all add: x algebra_simps)
  have fwd: "covers x nx" if c: "covers x i" "x \<noteq> i"
  proof -
    have "k < q"
    proof (rule ccontr)
      assume "\<not> k < q"
      then obtain e where "k = q + e" using le_Suc_ex [of q k] by auto
      then have "i = (2 ^ e * (2 * m + 1)) * 2 ^ q" by (simp add: i power_add algebra_simps)
      moreover have "2 * r * 2 ^ q < i" "i < Suc (2 * r) * 2 ^ q" using c x2 x by (auto simp: covers_def algebra_simps)
      ultimately show False using no_multiple_between by metis
    qed
    then obtain e where e: "q = Suc k + e" using le_Suc_ex [of "Suc k" q] by auto
    have "x = 2 ^ Suc k * (2 ^ e * (2 * r + 1))" by (simp add: x e power_add algebra_simps)
    moreover have "2 ^ Suc k * m < x" using c i2 by (auto simp: covers_def)
    ultimately have "nx \<le> x" unfolding nx by (metis Suc_eq_plus1 Suc_leI mult_le_mono2 mult_less_cancel1)
    then show ?thesis using c lb_bounds(1) [OF assms(1)] by (auto simp: covers_def nx_def)
  qed
  have bwd: "covers x i" if c: "covers x nx"
  proof (rule ccontr)
    assume "\<not> covers x i"
    then have le: "i \<le> x - lb x" "x - lb x < nx" "nx \<le> x" using c lb_bounds(1) [OF assms(1)] by (auto simp: covers_def nx_def)
    show False
    proof (cases "k \<le> q")
      case True
      then obtain e where "q = k + e" using le_Suc_ex by blast
      then have "x - lb x = (2 ^ e * r) * 2 ^ Suc k" by (simp add: x2(1) power_add algebra_simps)
      moreover have "m * 2 ^ Suc k < x - lb x" "x - lb x < Suc m * 2 ^ Suc k" using le i2 nx by (auto simp: algebra_simps)
      ultimately show False using no_multiple_between by metis
    next
      case False
      then obtain e where "k = Suc q + e" using le_Suc_ex [of "Suc q" k] by auto
      then have "nx = (2 ^ Suc e * (m + 1)) * 2 ^ Suc q" by (simp add: nx power_add algebra_simps)
      moreover have "r * 2 ^ Suc q < nx" using le(2) x2(1) by (simp add: mult.commute)
      moreover have "nx < Suc r * 2 ^ Suc q"
      proof -
        have "x < 2 ^ Suc q * r + 2 ^ Suc q" by (simp add: x algebra_simps)
        then show ?thesis using le(3) by (simp add: mult.commute)
      qed
      ultimately show False using no_multiple_between by metis
    qed
  qed
  have "covers i i" using lb_bounds [OF assms(1)] by (simp add: covers_def)
  then show ?thesis using fwd bwd unfolding nx_def by auto
qed

section \<open>The tree\<close>

definition bit_ok :: "nat list \<Rightarrow> (nat \<Rightarrow> nat) \<Rightarrow> nat \<Rightarrow> bool" where
  "bit_ok t f n \<longleftrightarrow> length t = Suc n \<and> (\<forall>i. 0 < i \<and> i \<le> n \<longrightarrow> t ! i = sum f {i - lb i..<i})"

lemma bit_ok_cell: "bit_ok t f n \<Longrightarrow> 0 < i \<Longrightarrow> i \<le> n \<Longrightarrow> cell t (int i) = Some (sum f {i - lb i..<i})"
  by (simp add: bit_ok_def cell_def)

lemma bit_ok_zero: "bit_ok (replicate (Suc n) 0) (\<lambda>_. 0) n"
  by (simp add: bit_ok_def del: replicate_Suc)

lemma sum_split: "(i :: nat) \<le> j \<Longrightarrow> j \<le> k \<Longrightarrow> sum f {i..<k} = sum f {i..<j} + (sum f {j..<k} :: nat)"
  using sum.atLeastLessThan_concat [of i j k f] by simp

text \<open>Reading the sum of the first \<open>i\<close> counts.\<close>

lemma bit_read_loop_ok:
  assumes "bit_ok t f n" "i \<le> n" "acc + sum f {0..<i} < ULONG_WRAP"
  shows "bit_read_loop t (int i) acc = Some (acc + sum f {0..<i})"
  using assms(2,3)
proof (induction i arbitrary: acc rule: less_induct)
  case (less i)
  show ?case
  proof (cases "i = 0")
    case True
    then show ?thesis by (subst bit_read_loop.simps) simp
  next
    case False
    then have i: "0 < i" by simp
    note lbi = lb_bounds [OF i]
    have s: "sum f {0..<i} = sum f {0..<i - lb i} + sum f {i - lb i..<i}" using sum_split [of 0 "i - lb i" i f] by simp
    have e: "int i - lowbit (int i) = int (i - lb i)" using lowbit_int [OF i] lbi by simp
    have "bit_read_loop t (int i) acc = bit_read_loop t (int (i - lb i)) (acc + sum f {i - lb i..<i})"
      using i bit_ok_cell [OF assms(1) i less.prems(1)] less.prems(2) s
      by (subst bit_read_loop.simps) (simp add: e)
    also have "\<dots> = Some (acc + sum f {i - lb i..<i} + sum f {0..<i - lb i})"
      using less.IH [of "i - lb i" "acc + sum f {i - lb i..<i}"] less.prems i lbi s by simp
    finally show ?thesis using s by simp
  qed
qed

text \<open>Changing the count at position \<open>j\<close>.\<close>

lemma bit_add_loop_ok:
  assumes "length t = Suc n" "0 < i"
    "\<And>x. 0 < x \<Longrightarrow> x \<le> n \<Longrightarrow> covers x i \<Longrightarrow> 0 \<le> int (t ! x) + delta \<and> int (t ! x) + delta < int ULONG_WRAP"
  shows "\<exists>t'. bit_add_loop t (int n) (int i) delta = Some t' \<and> length t' = Suc n \<and>
    (\<forall>x. 0 < x \<and> x \<le> n \<longrightarrow> int (t' ! x) = int (t ! x) + (if covers x i then delta else 0))"
  using assms
proof (induction "n - i" arbitrary: i t rule: less_induct)
  case less
  note lbi = lb_bounds [OF less.prems(2)]
  have ii: "covers i i" using lbi less.prems(2) by (simp add: covers_def)
  show ?case
  proof (cases "i \<le> n")
    case False
    then have "\<not> covers x i" if "x \<le> n" for x using that by (simp add: covers_def)
    then show ?thesis using False less.prems(1) by (subst bit_add_loop.simps) simp
  next
    case True
    define t1 where "t1 = t[i := nat (int (t ! i) + delta)]"
    have r: "0 \<le> int (t ! i) + delta" "int (t ! i) + delta < int ULONG_WRAP" using less.prems(2,3) ii True by auto
    have nx: "int i + lowbit (int i) = int (i + lb i)" using lowbit_int [OF less.prems(2)] by simp
    have step: "bit_add_loop t (int n) (int i) delta = bit_add_loop t1 (int n) (int (i + lb i)) delta"
      using True r less.prems(1) by (subst bit_add_loop.simps) (simp add: cell_def nx t1_def)
    have t1: "length t1 = Suc n" "\<And>x. x \<le> n \<Longrightarrow> int (t1 ! x) = int (t ! x) + (if x = i then delta else 0)"
      using r less.prems(1) True by (auto simp: t1_def nth_list_update)
    have ni: "\<not> covers i (i + lb i)" using lbi by (simp add: covers_def)
    obtain t' where t': "bit_add_loop t1 (int n) (int (i + lb i)) delta = Some t'" "length t' = Suc n"
      "\<forall>x. 0 < x \<and> x \<le> n \<longrightarrow> int (t' ! x) = int (t1 ! x) + (if covers x (i + lb i) then delta else 0)"
    proof -
      have "n - (i + lb i) < n - i \<or> n = i" using True lbi by auto
      moreover have "0 \<le> int (t1 ! x) + delta \<and> int (t1 ! x) + delta < int ULONG_WRAP"
        if "0 < x" "x \<le> n" "covers x (i + lb i)" for x
        using less.prems(3) [of x] covers_next [OF less.prems(2) that(1)] t1(2) [of x] that ni by auto
      moreover have "bit_add_loop t1 (int n) (int (i + lb i)) delta = Some t1 \<and> (\<forall>x \<le> n. \<not> covers x (i + lb i))" if "n = i"
        using that lbi by (subst bit_add_loop.simps) (auto simp: covers_def)
      ultimately show thesis using less.hyps [of "i + lb i" t1] t1(1) less.prems(2) that
        by (cases "n = i") auto
    qed
    have "int (t' ! x) = int (t ! x) + (if covers x i then delta else 0)" if "0 < x" "x \<le> n" for x
      using t'(3) t1(2) [of x] covers_next [OF less.prems(2) that(1)] ni that by auto
    then show ?thesis using step t' by auto
  qed
qed

lemma bit_ok_add:
  assumes "bit_ok t f n" "j < n" "0 \<le> int (f j) + delta" "int (sum f {0..<n}) + delta < int ULONG_WRAP" "sum f {0..<n} < ULONG_WRAP"
  shows "\<exists>t'. bit_add_loop t (int n) (int j + 1) delta = Some t' \<and> bit_ok t' (f(j := nat (int (f j) + delta))) n"
proof -
  have cov: "covers x (Suc j) \<longleftrightarrow> j \<in> {x - lb x..<x}" if "0 < x" for x using that by (auto simp: covers_def)
  have sum: "int (sum (f(j := nat (int (f j) + delta))) A) = int (sum f A) + (if j \<in> A then delta else 0)" if "finite A" for A
  proof (cases "j \<in> A")
    case True
    have "sum (f(j := v)) (A - {j}) = sum f (A - {j})" for v by (rule sum.cong) auto
    then show ?thesis using True that assms(3) by (simp add: sum.remove [of A j])
  next
    case False
    then have "sum (f(j := v)) A = sum f A" for v by (intro sum.cong) auto
    then show ?thesis using False by simp
  qed
  have le: "sum f {x - lb x..<x} \<le> sum f {0..<n}" if "x \<le> n" for x using that by (intro sum_mono2) auto
  have mem: "f j \<le> sum f {x - lb x..<x}" if "j \<in> {x - lb x..<x}" for x using that by (intro member_le_sum) auto
  have "\<exists>t'. bit_add_loop t (int n) (int (Suc j)) delta = Some t' \<and> length t' = Suc n \<and>
      (\<forall>x. 0 < x \<and> x \<le> n \<longrightarrow> int (t' ! x) = int (t ! x) + (if covers x (Suc j) then delta else 0))"
  proof (rule bit_add_loop_ok)
    fix x assume x: "0 < x" "x \<le> n" "covers x (Suc j)"
    have "t ! x = sum f {x - lb x..<x}" using assms(1) x by (simp add: bit_ok_def)
    then show "0 \<le> int (t ! x) + delta \<and> int (t ! x) + delta < int ULONG_WRAP"
      using le [OF x(2)] mem [of x] cov [OF x(1)] x(3) assms(3-5) by (auto simp del: of_nat_sum)
  qed (use assms(1) in \<open>simp_all add: bit_ok_def\<close>)
  then obtain t' where t': "bit_add_loop t (int n) (int (Suc j)) delta = Some t'" "length t' = Suc n"
    "\<forall>x. 0 < x \<and> x \<le> n \<longrightarrow> int (t' ! x) = int (t ! x) + (if covers x (Suc j) then delta else 0)" by blast
  have "t' ! x = sum (f(j := nat (int (f j) + delta))) {x - lb x..<x}" if x: "0 < x" "x \<le> n" for x
  proof -
    have tx: "t ! x = sum f {x - lb x..<x}" using assms(1) x by (simp add: bit_ok_def)
    have "int (t' ! x) = int (t ! x) + (if j \<in> {x - lb x..<x} then delta else 0)"
      using t'(3) x unfolding cov [OF x(1), symmetric] by blast
    also have "\<dots> = int (sum (f(j := nat (int (f j) + delta))) {x - lb x..<x})"
      unfolding tx by (rule sum [symmetric]) simp
    finally show ?thesis by (simp only: of_nat_eq_iff)
  qed
  then show ?thesis using t'(1,2) by (auto simp: bit_ok_def add.commute)
qed

text \<open>Finding the position that holds the element of rank \<open>target\<close>.\<close>

lemma bit_find_loop_ok:
  "bit_ok t f n \<Longrightarrow> 2 ^ Suc b dvd r \<Longrightarrow> r + 2 ^ Suc b \<le> n \<Longrightarrow> 0 < target \<Longrightarrow> target \<le> sum f {r..<r + 2 ^ Suc b} \<Longrightarrow>
   \<exists>s. bit_find_loop t (2 ^ b) (int r) target = Some (int s) \<and> r \<le> s \<and> s < r + 2 ^ Suc b \<and>
     sum f {r..<s} < target \<and> target \<le> sum f {r..<Suc s}"
proof (induction b arbitrary: r target)
  case 0
  obtain q where q: "r = 2 * q" using "0.prems"(2) by auto
  have "lb (Suc r) = 1" using lb_eq [of "Suc r" 0 q] q by simp
  then have "cell t (int (Suc r)) = Some (f r)" using bit_ok_cell [OF "0.prems"(1), of "Suc r"] "0.prems"(3) by simp
  then have c: "cell t (int r + 1) = Some (f r)" by (simp add: add.commute)
  have z: "bit_find_loop t 0 x y = Some x" for x y by (subst bit_find_loop.simps) simp
  have "sum f {r..<r + 2} = f r + f (Suc r)" by (simp add: numeral_2_eq_2)
  then show ?case using c "0.prems" z
    by (intro exI [of _ "if target > f r then Suc r else r"]) (subst bit_find_loop.simps, auto)
next
  case (Suc b)
  define i :: nat where "i = 2 ^ Suc b"
  have i: "0 < i" "i div 2 = 2 ^ b" "2 ^ Suc (Suc b) = 2 * i" by (simp_all add: i_def)
  obtain q where q: "r = i * 2 * q" using Suc.prems(2) by (auto simp: i_def)
  have "r + i = 2 ^ Suc b * (2 * q + 1)" by (simp add: q i_def algebra_simps)
  then have lb: "lb (r + i) = i" using lb_eq i_def by blast
  have "cell t (int (r + i)) = Some (sum f {r..<r + i})"
    using bit_ok_cell [OF Suc.prems(1), of "r + i"] Suc.prems(3) lb i by simp
  then have step: "bit_find_loop t i (int r) target =
      (if target > sum f {r..<r + i} then bit_find_loop t (2 ^ b) (int (r + i)) (target - sum f {r..<r + i})
       else bit_find_loop t (2 ^ b) (int r) target)"
    using i by (subst bit_find_loop.simps) simp
  have sp: "sum f {r..<r + 2 * i} = sum f {r..<r + i} + sum f {r + i..<r + 2 * i}" by (rule sum_split) auto
  have dv: "2 ^ Suc b dvd r" "2 ^ Suc b dvd r + i" using q by (simp_all add: i_def)
  show ?case
  proof (cases "target > sum f {r..<r + i}")
    case True
    have p: "r + i + 2 ^ Suc b \<le> n" "0 < target - sum f {r..<r + i}"
      "target - sum f {r..<r + i} \<le> sum f {r + i..<r + i + 2 ^ Suc b}"
      using Suc.prems(3,5) True sp unfolding i(3) i_def [symmetric] by (simp_all add: mult_2 add.assoc)
    note Suc.IH [OF Suc.prems(1) dv(2) p]
    then obtain s where s: "bit_find_loop t (2 ^ b) (int (r + i)) (target - sum f {r..<r + i}) = Some (int s)" "r + i \<le> s"
      "s < r + i + 2 ^ Suc b" "sum f {r + i..<s} < target - sum f {r..<r + i}" "target - sum f {r..<r + i} \<le> sum f {r + i..<Suc s}"
      by blast
    have e: "sum f {r..<s} = sum f {r..<r + i} + sum f {r + i..<s}" by (rule sum_split) (use s(2) in simp_all)
    have e': "sum f {r..<Suc s} = sum f {r..<r + i} + sum f {r + i..<Suc s}" by (rule sum_split) (use s(2) in simp_all)
    have "bit_find_loop t i (int r) target = Some (int s)" using step True s(1) by simp
    moreover have "r \<le> s" "s < r + 2 * i" using s(2,3) unfolding i_def [symmetric] by simp_all
    moreover have "sum f {r..<s} < target" using e s(4) by linarith
    moreover have "target \<le> sum f {r..<Suc s}" using e' s(5) by linarith
    ultimately show ?thesis unfolding i(3) i_def [symmetric] by blast
  next
    case False
    have p: "r + 2 ^ Suc b \<le> n" "target \<le> sum f {r..<r + 2 ^ Suc b}"
      using Suc.prems(3) False unfolding i(3) i_def [symmetric] by simp_all
    obtain s where s: "bit_find_loop t (2 ^ b) (int r) target = Some (int s)" "r \<le> s" "s < r + 2 ^ Suc b"
      "sum f {r..<s} < target" "target \<le> sum f {r..<Suc s}"
      using Suc.IH [OF Suc.prems(1) dv(1) p(1) Suc.prems(4) p(2)] by blast
    have "bit_find_loop t i (int r) target = Some (int s)" using step False s(1) by simp
    moreover have "s < r + 2 * i" using s(3) unfolding i_def [symmetric] by simp
    ultimately show ?thesis using s(2,4,5) unfolding i(3) i_def [symmetric] by blast
  qed
qed

lemma bit_find_ok:
  assumes "bit_ok t f (2 ^ Suc b)" "0 < target" "target \<le> sum f {0..<2 ^ Suc b}"
  shows "\<exists>s. bit_find_loop t (2 ^ Suc b) 0 target = Some (int s) \<and> s < 2 ^ Suc b \<and>
    sum f {0..<s} < target \<and> target \<le> sum f {0..<Suc s}"
proof -
  have "lb (2 ^ Suc b) = 2 ^ Suc b" using lb_eq [of "2 ^ Suc b" "Suc b" 0] by simp
  then have "cell t (int (2 ^ Suc b)) = Some (sum f {0..<2 ^ Suc b})" using bit_ok_cell [OF assms(1), of "2 ^ Suc b"] by simp
  then have "bit_find_loop t (2 ^ Suc b) 0 target = bit_find_loop t (2 ^ b) 0 target"
    using assms(3) by (subst bit_find_loop.simps) simp
  then show ?thesis using bit_find_loop_ok [OF assms(1), of b 0 target] assms(2,3) by auto
qed

end
