(* ===== verification/Kvstore.thy ===== *)
theory Kvstore
  imports Fenwick Dict_Scan
begin

text \<open>
  The array of hash tables of \<^verbatim>\<open>kvstore.c\<close>: tables created on demand and freed when they become empty, the counts of
  keys and of non-empty tables, the tree of cumulative counts, lookups by the rank of a key, and the scan over all tables
  with the index of the table inside of the cursor.

  \<open>cr\<close> is the global \<^verbatim>\<open>dict_can_resize\<close> as in the hash table. The outer option is a failed assertion or an access out
  of bounds; a table that is NULL is \<open>None\<close> in \<open>dicts\<close>. The counters that the rehashing callbacks keep
  (\<^verbatim>\<open>rehashing\<close>, \<^verbatim>\<open>bucket_count\<close>, the overheads) and the metadata are left out.
\<close>

section \<open>State\<close>

record ('k, 'v) kvstore =
  flags :: "32 word"
  kdtype :: "('k, 'v) dictType"
  dicts :: "('k, 'v) dict option list"
  num_dicts :: int
  num_dicts_bits :: nat
  resize_cursor :: int
  allocated_dicts :: int
  non_empty_dicts :: int
  key_count :: nat
  dict_size_index :: "nat list option"

definition KVSTORE_ALLOCATE_DICTS_ON_DEMAND :: "32 word" where
  "KVSTORE_ALLOCATE_DICTS_ON_DEMAND = 1"

definition KVSTORE_FREE_EMPTY_DICTS :: "32 word" where
  "KVSTORE_FREE_EMPTY_DICTS = 2"

definition kvstoreGetDict :: "('k, 'v) kvstore \<Rightarrow> int \<Rightarrow> ('k, 'v) dict option option" where
  "kvstoreGetDict kvs didx =
     (if 0 \<le> didx \<and> nat didx < length (dicts kvs) then Some (dicts kvs ! nat didx) else None)"

text \<open>The store through the pointer to a table.\<close>

definition set_dict :: "('k, 'v) kvstore \<Rightarrow> int \<Rightarrow> ('k, 'v) dict option \<Rightarrow> ('k, 'v) kvstore" where
  "set_dict kvs didx d = kvs\<lparr>dicts := (dicts kvs)[nat didx := d]\<rparr>"

definition kvstoreDictIsRehashingPaused :: "('k, 'v) kvstore \<Rightarrow> int \<Rightarrow> bool option" where
  "kvstoreDictIsRehashingPaused kvs didx =
     do { d \<leftarrow> kvstoreGetDict kvs didx; Some (case d of Some d \<Rightarrow> pauserehash d > 0 | None \<Rightarrow> False) }"

definition kvstoreDictSize :: "('k, 'v) kvstore \<Rightarrow> int \<Rightarrow> nat option" where
  "kvstoreDictSize kvs didx =
     do { d \<leftarrow> kvstoreGetDict kvs didx; Some (case d of Some d \<Rightarrow> dictSize d | None \<Rightarrow> 0) }"

definition kvstoreSize :: "('k, 'v) kvstore \<Rightarrow> nat option" where
  "kvstoreSize kvs =
     (if num_dicts kvs \<noteq> 1 then Some (key_count kvs)
      else do { d \<leftarrow> kvstoreGetDict kvs 0; Some (case d of Some d \<Rightarrow> dictSize d | None \<Rightarrow> 0) })"

section \<open>The tree of counts\<close>

definition cumulativeKeyCountRead :: "('k, 'v) kvstore \<Rightarrow> int \<Rightarrow> nat option" where
  "cumulativeKeyCountRead kvs didx =
     (if num_dicts kvs = 1 then do { c_assert (didx = 0); kvstoreSize kvs }
      else do { t \<leftarrow> dict_size_index kvs; bit_read_loop t (didx + 1) 0 })"

definition cumulativeKeyCountAdd :: "('k, 'v) kvstore \<Rightarrow> int \<Rightarrow> int \<Rightarrow> ('k, 'v) kvstore option" where
  "cumulativeKeyCountAdd kvs didx delta =
     do { let kvs = kvs\<lparr>key_count := nat ((int (key_count kvs) + delta) mod int ULONG_WRAP)\<rparr>;
          d \<leftarrow> kvstoreGetDict kvs didx;
          d \<leftarrow> d;
          let dsize = dictSize d;
          let non_empty_dicts_delta = (if dsize = 1 \<and> delta > 0 then 1 else if dsize = 0 then -1 else 0);
          let kvs = kvs\<lparr>non_empty_dicts := non_empty_dicts kvs + non_empty_dicts_delta\<rparr>;
          if num_dicts kvs = 1 then Some kvs
          else do { t \<leftarrow> dict_size_index kvs;
                    t \<leftarrow> bit_add_loop t (num_dicts kvs) (didx + 1) delta;
                    Some (kvs\<lparr>dict_size_index := Some t\<rparr>) } }"

definition kvstoreFindDictIndexByKeyIndex :: "('k, 'v) kvstore \<Rightarrow> nat \<Rightarrow> int option" where
  "kvstoreFindDictIndexByKeyIndex kvs target =
     do { n \<leftarrow> kvstoreSize kvs;
          if num_dicts kvs = 1 \<or> n = 0 then Some 0
          else do { c_assert (target \<le> n);
                    t \<leftarrow> dict_size_index kvs;
                    bit_find_loop t (2 ^ num_dicts_bits kvs) 0 target } }"

definition kvstoreGetFirstNonEmptyDictIndex :: "('k, 'v) kvstore \<Rightarrow> int option" where
  "kvstoreGetFirstNonEmptyDictIndex kvs = kvstoreFindDictIndexByKeyIndex kvs 1"

definition kvstoreGetNextNonEmptyDictIndex :: "('k, 'v) kvstore \<Rightarrow> int \<Rightarrow> int option" where
  "kvstoreGetNextNonEmptyDictIndex kvs didx =
     (if num_dicts kvs = 1 then do { c_assert (didx = 0); Some (-1) }
      else do { c \<leftarrow> cumulativeKeyCountRead kvs didx;
                let next_key = (c + 1) mod ULONG_WRAP;
                n \<leftarrow> kvstoreSize kvs;
                if next_key \<le> n then kvstoreFindDictIndexByKeyIndex kvs next_key else Some (-1) })"

text \<open>\<open>r\<close> is the result of \<^verbatim>\<open>randomULong\<close>.\<close>

definition kvstoreGetFairRandomDictIndex :: "('k, 'v) kvstore \<Rightarrow> nat \<Rightarrow> int option" where
  "kvstoreGetFairRandomDictIndex kvs r =
     do { n \<leftarrow> kvstoreSize kvs; kvstoreFindDictIndexByKeyIndex kvs (if n \<noteq> 0 then r mod n + 1 else 0) }"

section \<open>Creation and release of tables\<close>

definition createDictIfNeeded :: "('k, 'v) kvstore \<Rightarrow> int \<Rightarrow> (('k, 'v) kvstore \<times> ('k, 'v) dict) option" where
  "createDictIfNeeded kvs didx =
     do { d \<leftarrow> kvstoreGetDict kvs didx;
          case d of
            Some d \<Rightarrow> Some (kvs, d)
          | None \<Rightarrow>
              (let d = dictCreate (kdtype kvs)
               in Some ((set_dict kvs didx (Some d))\<lparr>allocated_dicts := allocated_dicts kvs + 1\<rparr>, d)) }"

definition freeDictIfNeeded :: "('k, 'v) kvstore \<Rightarrow> int \<Rightarrow> ('k, 'v) kvstore option" where
  "freeDictIfNeeded kvs didx =
     (if flags kvs AND KVSTORE_FREE_EMPTY_DICTS = 0 then Some kvs
      else
        do { d \<leftarrow> kvstoreGetDict kvs didx;
             n \<leftarrow> kvstoreDictSize kvs didx;
             p \<leftarrow> kvstoreDictIsRehashingPaused kvs didx;
             if d = None \<or> n \<noteq> 0 \<or> p then Some kvs
             else Some ((set_dict kvs didx None)\<lparr>allocated_dicts := allocated_dicts kvs - 1\<rparr>) })"

fun create_loop :: "('k, 'v) kvstore \<Rightarrow> int \<Rightarrow> nat \<Rightarrow> ('k, 'v) kvstore option" where
  "create_loop kvs i 0 = Some kvs"
| "create_loop kvs i (Suc n) = do { (kvs, _) \<leftarrow> createDictIfNeeded kvs i; create_loop kvs (i + 1) n }"

definition kvstoreCreate :: "('k, 'v) dictType \<Rightarrow> nat \<Rightarrow> 32 word \<Rightarrow> ('k, 'v) kvstore option" where
  "kvstoreCreate T bits fl =
     do { c_assert (bits \<le> 16);
          let kvs = \<lparr>flags = fl, kdtype = T, dicts = replicate (2 ^ bits) None, num_dicts = 2 ^ bits, num_dicts_bits = bits,
                resize_cursor = 0, allocated_dicts = 0, non_empty_dicts = 0, key_count = 0, dict_size_index = None\<rparr>;
          kvs \<leftarrow> (if fl AND KVSTORE_ALLOCATE_DICTS_ON_DEMAND = 0 then create_loop kvs 0 (2 ^ bits) else Some kvs);
          Some (kvs\<lparr>key_count := 0, non_empty_dicts := 0, resize_cursor := 0,
            dict_size_index := (if num_dicts kvs > 1 then Some (replicate (2 ^ bits + 1) 0) else None)\<rparr>) }"

fun empty_loop :: "('k, 'v) kvstore \<Rightarrow> int \<Rightarrow> nat \<Rightarrow> ('k, 'v) kvstore option" where
  "empty_loop kvs didx 0 = Some kvs"
| "empty_loop kvs didx (Suc n) =
     do { d \<leftarrow> kvstoreGetDict kvs didx;
          case d of
            None \<Rightarrow> empty_loop kvs (didx + 1) n
          | Some d \<Rightarrow>
              do { (d, _) \<leftarrow> dictEmpty d;
                   kvs \<leftarrow> freeDictIfNeeded (set_dict kvs didx (Some d)) didx;
                   empty_loop kvs (didx + 1) n } }"

definition kvstoreEmpty :: "('k, 'v) kvstore \<Rightarrow> ('k, 'v) kvstore option" where
  "kvstoreEmpty kvs =
     do { kvs \<leftarrow> empty_loop kvs 0 (nat (num_dicts kvs));
          Some (kvs\<lparr>key_count := 0, non_empty_dicts := 0, resize_cursor := 0,
            dict_size_index := map_option (\<lambda>t. replicate (nat (num_dicts kvs) + 1) 0) (dict_size_index kvs)\<rparr>) }"

section \<open>Operations on one table\<close>

definition kvstoreDictFetchValue ::
  "dictResizeEnable \<Rightarrow> ('k, 'v) kvstore \<Rightarrow> int \<Rightarrow> 'k \<Rightarrow> (('k, 'v) kvstore \<times> 'v option) option" where
  "kvstoreDictFetchValue cr kvs didx key =
     do { d \<leftarrow> kvstoreGetDict kvs didx;
          case d of
            None \<Rightarrow> Some (kvs, None)
          | Some d \<Rightarrow> do { (d, v) \<leftarrow> dictFetchValue cr d key; Some (set_dict kvs didx (Some d), v) } }"

definition kvstoreDictFind ::
  "dictResizeEnable \<Rightarrow> ('k, 'v) kvstore \<Rightarrow> int \<Rightarrow> 'k \<Rightarrow> (('k, 'v) kvstore \<times> entry_ref option) option" where
  "kvstoreDictFind cr kvs didx key =
     do { d \<leftarrow> kvstoreGetDict kvs didx;
          case d of
            None \<Rightarrow> Some (kvs, None)
          | Some d \<Rightarrow> do { (d, r) \<leftarrow> dictFind cr d key; Some (set_dict kvs didx (Some d), r) } }"

definition kvstoreDictAddRaw ::
  "dictResizeEnable \<Rightarrow> ('k, 'v) kvstore \<Rightarrow> int \<Rightarrow> 'k \<Rightarrow> (('k, 'v) kvstore \<times> (entry_ref + entry_ref)) option" where
  "kvstoreDictAddRaw cr kvs didx key =
     do { (kvs, d) \<leftarrow> createDictIfNeeded kvs didx;
          (d, ret) \<leftarrow> dictAddRaw cr d key;
          let kvs = set_dict kvs didx (Some d);
          case ret of
            Inl _ \<Rightarrow> Some (kvs, ret)
          | Inr _ \<Rightarrow> do { kvs \<leftarrow> cumulativeKeyCountAdd kvs didx 1; Some (kvs, ret) } }"

definition kvstoreDictSetVal :: "('k, 'v) kvstore \<Rightarrow> int \<Rightarrow> entry_ref \<Rightarrow> 'v \<Rightarrow> ('k, 'v) kvstore option" where
  "kvstoreDictSetVal kvs didx de val =
     do { d \<leftarrow> kvstoreGetDict kvs didx; d \<leftarrow> d; d \<leftarrow> dictSetVal d de val; Some (set_dict kvs didx (Some d)) }"

definition kvstoreDictTwoPhaseUnlinkFind ::
  "dictResizeEnable \<Rightarrow> ('k, 'v) kvstore \<Rightarrow> int \<Rightarrow> 'k \<Rightarrow> (('k, 'v) kvstore \<times> entry_ref option) option" where
  "kvstoreDictTwoPhaseUnlinkFind cr kvs didx key =
     do { d \<leftarrow> kvstoreGetDict kvs didx;
          case d of
            None \<Rightarrow> Some (kvs, None)
          | Some d \<Rightarrow> do { (d, r) \<leftarrow> dictTwoPhaseUnlinkFind cr d key; Some (set_dict kvs didx (Some d), r) } }"

definition kvstoreDictTwoPhaseUnlinkFree ::
  "dictResizeEnable \<Rightarrow> ('k, 'v) kvstore \<Rightarrow> int \<Rightarrow> entry_ref option \<Rightarrow> ('k, 'v) kvstore option" where
  "kvstoreDictTwoPhaseUnlinkFree cr kvs didx he =
     do { d \<leftarrow> kvstoreGetDict kvs didx;
          d \<leftarrow> d;
          d \<leftarrow> dictTwoPhaseUnlinkFree cr d he;
          kvs \<leftarrow> cumulativeKeyCountAdd (set_dict kvs didx (Some d)) didx (-1);
          freeDictIfNeeded kvs didx }"

definition kvstoreDictDelete ::
  "dictResizeEnable \<Rightarrow> ('k, 'v) kvstore \<Rightarrow> int \<Rightarrow> 'k \<Rightarrow> (('k, 'v) kvstore \<times> dict_ret) option" where
  "kvstoreDictDelete cr kvs didx key =
     do { d \<leftarrow> kvstoreGetDict kvs didx;
          case d of
            None \<Rightarrow> Some (kvs, DICT_ERR)
          | Some d \<Rightarrow>
              do { (d, ret) \<leftarrow> dictDelete cr d key;
                   let kvs = set_dict kvs didx (Some d);
                   kvs \<leftarrow> (if ret = DICT_OK then
                            do { kvs \<leftarrow> cumulativeKeyCountAdd kvs didx (-1); freeDictIfNeeded kvs didx }
                          else Some kvs);
                   Some (kvs, ret) } }"

definition kvstoreDictExpand ::
  "dictResizeEnable \<Rightarrow> ('k, 'v) kvstore \<Rightarrow> int \<Rightarrow> nat \<Rightarrow> (('k, 'v) kvstore \<times> dict_ret) option" where
  "kvstoreDictExpand cr kvs didx sz =
     do { d \<leftarrow> kvstoreGetDict kvs didx;
          case d of
            None \<Rightarrow> Some (kvs, DICT_ERR)
          | Some d \<Rightarrow> do { (d, r) \<leftarrow> dictExpand cr d sz; Some (set_dict kvs didx (Some d), r) } }"

section \<open>Operations on all tables\<close>

text \<open>\<open>try_expand\<close> comes with the answers of the allocator for \<open>dictTryExpand\<close>. The result is false after a failure.\<close>

fun expand_loop ::
  "dictResizeEnable \<Rightarrow> ('k, 'v) kvstore \<Rightarrow> nat \<Rightarrow> (nat \<Rightarrow> bool) option \<Rightarrow> (int \<Rightarrow> bool) option \<Rightarrow> int \<Rightarrow> nat \<Rightarrow>
   (('k, 'v) kvstore \<times> bool) option" where
  "expand_loop cr kvs newsize try_expand skip_cb i 0 = Some (kvs, True)"
| "expand_loop cr kvs newsize try_expand skip_cb i (Suc n) =
     do { d \<leftarrow> kvstoreGetDict kvs i;
          case d of
            None \<Rightarrow> expand_loop cr kvs newsize try_expand skip_cb (i + 1) n
          | Some d \<Rightarrow>
              if (case skip_cb of Some f \<Rightarrow> f i | None \<Rightarrow> False) then expand_loop cr kvs newsize try_expand skip_cb (i + 1) n
              else
                do { (d, r) \<leftarrow> (case try_expand of Some fails \<Rightarrow> dictTryExpand cr d newsize fails | None \<Rightarrow> dictExpand cr d newsize);
                     let kvs = set_dict kvs i (Some d);
                     if try_expand \<noteq> None \<and> r = DICT_ERR then Some (kvs, False)
                     else expand_loop cr kvs newsize try_expand skip_cb (i + 1) n } }"

definition kvstoreExpand ::
  "dictResizeEnable \<Rightarrow> ('k, 'v) kvstore \<Rightarrow> nat \<Rightarrow> (nat \<Rightarrow> bool) option \<Rightarrow> (int \<Rightarrow> bool) option \<Rightarrow> (('k, 'v) kvstore \<times> bool) option" where
  "kvstoreExpand cr kvs newsize try_expand skip_cb = expand_loop cr kvs newsize try_expand skip_cb 0 (nat (num_dicts kvs))"

fun resize_loop :: "dictResizeEnable \<Rightarrow> ('k, 'v) kvstore \<Rightarrow> nat \<Rightarrow> ('k, 'v) kvstore option" where
  "resize_loop cr kvs 0 = Some kvs"
| "resize_loop cr kvs (Suc n) =
     do { let didx = resize_cursor kvs;
          d \<leftarrow> kvstoreGetDict kvs didx;
          kvs \<leftarrow> (case d of
                    None \<Rightarrow> Some kvs
                  | Some d \<Rightarrow>
                      do { (d, r) \<leftarrow> dictShrinkIfNeeded cr d;
                           d \<leftarrow> (if r = DICT_ERR then map_option fst (dictExpandIfNeeded cr d) else Some d);
                           Some (set_dict kvs didx (Some d)) });
          resize_loop cr (kvs\<lparr>resize_cursor := (didx + 1) mod num_dicts kvs\<rparr>) n }"

definition kvstoreTryResizeDicts :: "dictResizeEnable \<Rightarrow> ('k, 'v) kvstore \<Rightarrow> int \<Rightarrow> ('k, 'v) kvstore option" where
  "kvstoreTryResizeDicts cr kvs limit =
     resize_loop cr kvs (nat (if limit > num_dicts kvs then num_dicts kvs else limit))"

section \<open>Scanning\<close>

definition addDictIndexToCursor :: "('k, 'v) kvstore \<Rightarrow> int \<Rightarrow> 64 word \<Rightarrow> 64 word" where
  "addDictIndexToCursor kvs didx cursor =
     (if num_dicts kvs = 1 then cursor
      else if didx < 0 then cursor
      else push_bit (num_dicts_bits kvs) cursor OR word_of_int didx)"

definition getAndClearDictIndexFromCursor :: "('k, 'v) kvstore \<Rightarrow> 64 word \<Rightarrow> int \<times> 64 word" where
  "getAndClearDictIndexFromCursor kvs cursor =
     (if num_dicts kvs = 1 then (0, cursor)
      else (uint (cursor AND word_of_int (num_dicts kvs - 1)), drop_bit (num_dicts_bits kvs) cursor))"

text \<open>The result has the new cursor and the entries given to the callback. The callback is taken to run after
  the call; one that deletes entries during the call, as the source permits, is not covered.\<close>

definition kvstoreScan ::
  "('k, 'v) kvstore \<Rightarrow> 64 word \<Rightarrow> int \<Rightarrow> (('k, 'v) dict \<Rightarrow> bool) option \<Rightarrow>
   (('k, 'v) kvstore \<times> 64 word \<times> ('k, 'v) dictEntry list) option" where
  "kvstoreScan kvs cursor onlydidx skip_cb =
     do { let (didx, cursor) = getAndClearDictIndexFromCursor kvs cursor;
          if onlydidx \<ge> 0 \<and> didx > onlydidx then Some (kvs, 0, [])
          else
            do { (didx, cursor) \<leftarrow>
                   (if onlydidx \<ge> 0 \<and> didx < onlydidx then
                      do { c_assert (onlydidx < num_dicts kvs); Some (onlydidx, 0) }
                    else Some (didx, cursor));
                 d \<leftarrow> kvstoreGetDict kvs didx;
                 (kvs, cursor', es, skip) \<leftarrow>
                   (case d of
                      None \<Rightarrow> Some (kvs, 0, [], True)
                    | Some d \<Rightarrow>
                        if (case skip_cb of Some f \<Rightarrow> f d | None \<Rightarrow> False) then Some (kvs, 0, [], True)
                        else do { (c, es) \<leftarrow> dictScan d cursor;
                                  kvs \<leftarrow> freeDictIfNeeded kvs didx;
                                  Some (kvs, c, es, False) });
                 if cursor' = 0 \<or> skip then
                   (if onlydidx \<ge> 0 then Some (kvs, 0, es)
                    else do { didx \<leftarrow> kvstoreGetNextNonEmptyDictIndex kvs didx;
                              if didx = -1 then Some (kvs, 0, es)
                              else Some (kvs, addDictIndexToCursor kvs didx cursor', es) })
                 else Some (kvs, addDictIndexToCursor kvs didx cursor', es) } }"

end
