(* ===== verification/Kvstore_Inv.thy ===== *)
theory Kvstore_Inv
  imports Kvstore
begin

text \<open>
  The invariant of the array of hash tables: every table is well-formed, the counters agree with the contents, and the
  tree of counts is the one of the current sizes. Each operation keeps it and changes the contents of one table only.
\<close>

section \<open>The invariant\<close>

definition kbag :: "('k, 'v) kvstore \<Rightarrow> nat \<Rightarrow> ('k \<times> 'v option) multiset" where
  "kbag kvs i =
     (if i < length (dicts kvs) then (case dicts kvs ! i of None \<Rightarrow> {#} | Some d \<Rightarrow> dict_bag d) else {#})"

abbreviation counts :: "('k, 'v) kvstore \<Rightarrow> nat \<Rightarrow> nat" where
  "counts kvs i \<equiv> size (kbag kvs i)"

definition key_total :: "('k, 'v) kvstore \<Rightarrow> nat" where
  "key_total kvs = sum (counts kvs) {0..<length (dicts kvs)}"

definition dict_inv :: "('k \<Rightarrow> 'k \<Rightarrow> bool) \<Rightarrow> ('k, 'v) dictType \<Rightarrow> ('k, 'v) dict \<Rightarrow> bool" where
  "dict_inv eq T d \<longleftrightarrow> dict_ok eq d \<and> dtype d = T \<and> pauserehash d < 2 ^ 15 - 1 \<and> pauseAutoResize d \<le> 0"

definition tree_ok :: "('k, 'v) kvstore \<Rightarrow> bool" where
  "tree_ok kvs \<longleftrightarrow>
     (if num_dicts kvs = 1 then dict_size_index kvs = None
      else \<exists>t. dict_size_index kvs = Some t \<and> bit_ok t (counts kvs) (length (dicts kvs)))"

definition kvs_shape :: "('k \<Rightarrow> 'k \<Rightarrow> bool) \<Rightarrow> ('k, 'v) kvstore \<Rightarrow> bool" where
  "kvs_shape eq kvs \<longleftrightarrow>
     num_dicts_bits kvs \<le> 16 \<and> num_dicts kvs = 2 ^ num_dicts_bits kvs \<and> length (dicts kvs) = 2 ^ num_dicts_bits kvs \<and>
     type_ok (kdtype kvs) eq \<and> (\<forall>d. Some d \<in> set (dicts kvs) \<longrightarrow> dict_inv eq (kdtype kvs) d) \<and>
     0 \<le> resize_cursor kvs \<and> resize_cursor kvs < num_dicts kvs \<and>
     allocated_dicts kvs = int (length (filter (\<lambda>d. d \<noteq> None) (dicts kvs)))"

definition kvs_ok :: "('k \<Rightarrow> 'k \<Rightarrow> bool) \<Rightarrow> ('k, 'v) kvstore \<Rightarrow> bool" where
  "kvs_ok eq kvs \<longleftrightarrow>
     kvs_shape eq kvs \<and> key_total kvs < 2 ^ 63 \<and> key_count kvs = key_total kvs \<and>
     non_empty_dicts kvs = int (card {i. counts kvs i \<noteq> 0}) \<and> tree_ok kvs"

lemma kvs_ok_len: "kvs_ok eq kvs \<Longrightarrow> num_dicts kvs = int (length (dicts kvs))"
  by (simp add: kvs_ok_def kvs_shape_def)

lemma kbag_set_dict [simp]:
  "nat didx < length (dicts kvs) \<Longrightarrow> kbag (set_dict kvs didx (Some d)) = (kbag kvs)(nat didx := dict_bag d)"
  "nat didx < length (dicts kvs) \<Longrightarrow> kbag (set_dict kvs didx None) = (kbag kvs)(nat didx := {#})"
  by (auto simp: kbag_def set_dict_def fun_eq_iff nth_list_update)

lemma set_dict_fields [simp]:
  "length (dicts (set_dict kvs didx d)) = length (dicts kvs)" "num_dicts (set_dict kvs didx d) = num_dicts kvs"
  "num_dicts_bits (set_dict kvs didx d) = num_dicts_bits kvs" "key_count (set_dict kvs didx d) = key_count kvs"
  "non_empty_dicts (set_dict kvs didx d) = non_empty_dicts kvs" "kdtype (set_dict kvs didx d) = kdtype kvs"
  "allocated_dicts (set_dict kvs didx d) = allocated_dicts kvs" "resize_cursor (set_dict kvs didx d) = resize_cursor kvs"
  "dict_size_index (set_dict kvs didx d) = dict_size_index kvs" "flags (set_dict kvs didx d) = flags kvs"
  by (simp_all add: set_dict_def)

lemma kvstoreGetDict_in:
  "0 \<le> didx \<Longrightarrow> nat didx < length (dicts kvs) \<Longrightarrow> kvstoreGetDict kvs didx = Some (dicts kvs ! nat didx)"
  by (simp add: kvstoreGetDict_def)

lemma finite_nonempty: "finite {i. counts kvs i \<noteq> 0}"
  by (rule finite_subset [of _ "{0..<length (dicts kvs)}"]) (auto simp: kbag_def split: if_splits)

lemma dict_inv_keeps: "dict_inv eq T d \<Longrightarrow> keeps eq d d' \<Longrightarrow> dict_inv eq T d'"
  by (simp add: dict_inv_def keeps_def same_env_def)

lemma dict_inv_env: "dict_inv eq T d \<Longrightarrow> dict_ok eq d' \<Longrightarrow> same_env d d' \<Longrightarrow> dict_inv eq T d'"
  by (simp add: dict_inv_def same_env_def)

lemma dict_inv_create: "type_ok T eq \<Longrightarrow> dict_inv eq T (dictCreate T)" "dict_bag (dictCreate T) = {#}"
  using dict_ok_create by (simp_all add: dict_inv_def dictCreate_def dict_bag_def tbl_def)

lemma kvs_ok_dict:
  assumes "kvs_ok eq kvs" "i < length (dicts kvs)" "dicts kvs ! i = Some d"
  shows "dict_inv eq (kdtype kvs) d" "kbag kvs i = dict_bag d"
proof -
  have "Some d \<in> set (dicts kvs)" using assms(2,3) by (metis nth_mem)
  then show "dict_inv eq (kdtype kvs) d" using assms(1) by (simp add: kvs_ok_def kvs_shape_def)
qed (use assms in \<open>simp add: kbag_def\<close>)

lemma filter_length_update:
  "i < length xs \<Longrightarrow> int (length (filter P (xs[i := y]))) =
     int (length (filter P xs)) - (if P (xs ! i) then 1 else 0) + (if P y then 1 else 0)"
proof (induction xs arbitrary: i)
  case (Cons x xs)
  show ?case
  proof (cases i)
    case (Suc j)
    then show ?thesis using Cons.IH [of j] Cons.prems by (auto split: if_splits)
  qed simp
qed simp

lemmas filter_some_update = filter_length_update [where P = "\<lambda>d. d \<noteq> None"]

lemma kbag_cong: "dicts kvs = dicts kvs' \<Longrightarrow> kbag kvs = kbag kvs'"
  by (simp add: kbag_def fun_eq_iff)

text \<open>A table in place of another one.\<close>

lemma shape_set_dict:
  assumes "kvs_shape eq kvs" "nat didx < length (dicts kvs)" "dict_inv eq (kdtype kvs) d" "dicts kvs ! nat didx \<noteq> None"
  shows "kvs_shape eq (set_dict kvs didx (Some d))"
proof -
  have "dict_inv eq (kdtype kvs) d'" if "Some d' \<in> set (dicts (set_dict kvs didx (Some d)))" for d'
  proof -
    have "Some d' \<in> insert (Some d) (set (dicts kvs))"
      using that set_update_subset_insert [of "dicts kvs" "nat didx" "Some d"] by (auto simp: set_dict_def)
    then show ?thesis using assms(1,3) by (auto simp: kvs_shape_def)
  qed
  then show ?thesis using assms filter_some_update [OF assms(2), of "Some d"]
    by (simp add: kvs_shape_def) (simp add: set_dict_def)
qed

lemma kvs_ok_replace:
  assumes "kvs_ok eq kvs" "nat didx < length (dicts kvs)" "dict_inv eq (kdtype kvs) d" "dicts kvs ! nat didx \<noteq> None"
    "dict_bag d = kbag kvs (nat didx)"
  shows "kvs_ok eq (set_dict kvs didx (Some d))" "kbag (set_dict kvs didx (Some d)) = kbag kvs"
proof -
  show b: "kbag (set_dict kvs didx (Some d)) = kbag kvs" using assms(2,5) by simp
  have "kvs_shape eq (set_dict kvs didx (Some d))" using shape_set_dict [OF _ assms(2-4)] assms(1) by (simp add: kvs_ok_def)
  then show "kvs_ok eq (set_dict kvs didx (Some d))" using assms(1) b by (simp add: kvs_ok_def key_total_def tree_ok_def)
qed

section \<open>Creation and release\<close>

definition same_counters :: "('k, 'v) kvstore \<Rightarrow> ('k, 'v) kvstore \<Rightarrow> bool" where
  "same_counters kvs kvs' \<longleftrightarrow>
     length (dicts kvs') = length (dicts kvs) \<and> num_dicts kvs' = num_dicts kvs \<and> num_dicts_bits kvs' = num_dicts_bits kvs \<and>
     key_count kvs' = key_count kvs \<and> non_empty_dicts kvs' = non_empty_dicts kvs \<and>
     dict_size_index kvs' = dict_size_index kvs \<and> kdtype kvs' = kdtype kvs \<and> flags kvs' = flags kvs \<and>
     resize_cursor kvs' = resize_cursor kvs"

lemma kvs_ok_same:
  "kvs_ok eq kvs \<Longrightarrow> kvs_shape eq kvs' \<Longrightarrow> kbag kvs' = kbag kvs \<Longrightarrow> same_counters kvs kvs' \<Longrightarrow> kvs_ok eq kvs'"
  by (simp add: kvs_ok_def key_total_def tree_ok_def same_counters_def)

text \<open>A table that comes into being or goes away.\<close>

lemma shape_alloc:
  assumes "kvs_shape eq kvs" "nat didx < length (dicts kvs)" "\<And>d'. d = Some d' \<Longrightarrow> dict_inv eq (kdtype kvs) d'"
    "n = allocated_dicts kvs - (if dicts kvs ! nat didx \<noteq> None then 1 else 0) + (if d \<noteq> None then 1 else 0)"
  shows "kvs_shape eq ((set_dict kvs didx d)\<lparr>allocated_dicts := n\<rparr>)"
proof -
  have "dict_inv eq (kdtype kvs) d'" if "Some d' \<in> set (dicts (set_dict kvs didx d))" for d'
  proof -
    have "Some d' \<in> insert d (set (dicts kvs))"
      using that set_update_subset_insert [of "dicts kvs" "nat didx" d] by (auto simp: set_dict_def)
    then show ?thesis using assms(1,3) by (auto simp: kvs_shape_def)
  qed
  moreover have "n = int (length (filter (\<lambda>d. d \<noteq> None) ((dicts kvs)[nat didx := d])))"
    unfolding filter_some_update [OF assms(2)] assms(4) using assms(1) by (simp only: kvs_shape_def)
  ultimately show ?thesis using assms(1) by (simp add: kvs_shape_def) (simp add: set_dict_def)
qed

lemma shape_len: "kvs_shape eq kvs \<Longrightarrow> num_dicts kvs = int (length (dicts kvs))"
  by (simp add: kvs_shape_def)

lemma createDictIfNeeded_shape:
  assumes "kvs_shape eq kvs" "0 \<le> didx" "didx < num_dicts kvs"
  obtains kvs' d where "createDictIfNeeded kvs didx = Some (kvs', d)" "kvs_shape eq kvs'" "kbag kvs' = kbag kvs"
    "same_counters kvs kvs'" "dicts kvs' ! nat didx = Some d"
proof -
  have i: "nat didx < length (dicts kvs)" using assms shape_len by fastforce
  show thesis
  proof (cases "dicts kvs ! nat didx")
    case (Some d)
    then show thesis using that [of kvs d] assms i by (simp add: createDictIfNeeded_def kvstoreGetDict_in same_counters_def)
  next
    case None
    define d where "d = dictCreate (kdtype kvs)"
    define kvs' where "kvs' = (set_dict kvs didx (Some d))\<lparr>allocated_dicts := allocated_dicts kvs + 1\<rparr>"
    have di: "dict_inv eq (kdtype kvs) d" "dict_bag d = {#}" using assms(1) dict_inv_create by (auto simp: kvs_shape_def d_def)
    have "kbag kvs (nat didx) = {#}" using None i by (simp add: kbag_def)
    then have "kbag (set_dict kvs didx (Some d)) = kbag kvs" using i di(2) by (simp add: fun_eq_iff)
    then have b: "kbag kvs' = kbag kvs" using kbag_cong [of kvs' "set_dict kvs didx (Some d)"] by (simp add: kvs'_def)
    have "kvs_shape eq kvs'" unfolding kvs'_def by (rule shape_alloc [OF assms(1) i]) (use di(1) None in auto)
    then show thesis using that [of kvs' d] b i None assms(2)
      by (simp add: createDictIfNeeded_def kvstoreGetDict_in kvs'_def d_def Let_def same_counters_def) (simp add: set_dict_def)
  qed
qed

lemma createDictIfNeeded_ok:
  assumes "kvs_ok eq kvs" "0 \<le> didx" "didx < num_dicts kvs"
  obtains kvs' d where "createDictIfNeeded kvs didx = Some (kvs', d)" "kvs_ok eq kvs'" "kbag kvs' = kbag kvs"
    "nat didx < length (dicts kvs')" "dicts kvs' ! nat didx = Some d" "num_dicts kvs' = num_dicts kvs"
proof -
  have sh: "kvs_shape eq kvs" using assms(1) by (simp add: kvs_ok_def)
  obtain kvs' d where k: "createDictIfNeeded kvs didx = Some (kvs', d)" "kvs_shape eq kvs'" "kbag kvs' = kbag kvs"
    "same_counters kvs kvs'" "dicts kvs' ! nat didx = Some d" using createDictIfNeeded_shape [OF sh assms(2,3)] .
  have "nat didx < length (dicts kvs')" using k(4) assms shape_len [OF sh] by (simp add: same_counters_def)
  then show thesis using that k kvs_ok_same [OF assms(1) k(2-4)] by (simp add: same_counters_def)
qed

lemma freeDictIfNeeded_shape:
  assumes "kvs_shape eq kvs" "0 \<le> didx" "didx < num_dicts kvs"
  obtains kvs' where "freeDictIfNeeded kvs didx = Some kvs'" "kvs_shape eq kvs'" "kbag kvs' = kbag kvs" "same_counters kvs kvs'"
    "\<forall>i. i \<noteq> nat didx \<longrightarrow> dicts kvs' ! i = dicts kvs ! i"
proof -
  have i: "nat didx < length (dicts kvs)" using assms shape_len by fastforce
  show thesis
  proof (cases "flags kvs AND KVSTORE_FREE_EMPTY_DICTS = 0 \<or> dicts kvs ! nat didx = None \<or>
      (\<exists>d. dicts kvs ! nat didx = Some d \<and> (dictSize d \<noteq> 0 \<or> pauserehash d > 0))")
    case True
    then have "freeDictIfNeeded kvs didx = Some kvs" using assms(2) i
      by (auto simp: freeDictIfNeeded_def kvstoreGetDict_in kvstoreDictSize_def kvstoreDictIsRehashingPaused_def)
    then show thesis using that assms(1) by (simp add: same_counters_def)
  next
    case False
    then obtain d where d: "dicts kvs ! nat didx = Some d" "dictSize d = 0" "pauserehash d = 0"
      "flags kvs AND KVSTORE_FREE_EMPTY_DICTS \<noteq> 0" by auto
    define kvs' where "kvs' = (set_dict kvs didx None)\<lparr>allocated_dicts := allocated_dicts kvs - 1\<rparr>"
    have fr: "freeDictIfNeeded kvs didx = Some kvs'" using d assms(2) i
      by (simp add: freeDictIfNeeded_def kvstoreGetDict_in kvstoreDictSize_def kvstoreDictIsRehashingPaused_def kvs'_def)
    have "Some d \<in> set (dicts kvs)" using i d(1) by (metis nth_mem)
    then have "dict_ok eq d" using assms(1) by (simp add: kvs_shape_def dict_inv_def)
    then have "kbag kvs (nat didx) = {#}" using i d used_le_bag(2) [of eq d] by (simp add: kbag_def)
    then have "kbag (set_dict kvs didx None) = kbag kvs" using i by (simp add: fun_eq_iff)
    then have b: "kbag kvs' = kbag kvs" using kbag_cong [of kvs' "set_dict kvs didx None"] by (simp add: kvs'_def)
    have "kvs_shape eq kvs'" unfolding kvs'_def by (rule shape_alloc [OF assms(1) i]) (use d(1) in auto)
    then show thesis using that [of kvs'] fr b by (simp add: kvs'_def same_counters_def) (simp add: set_dict_def)
  qed
qed

lemma freeDictIfNeeded_ok:
  assumes "kvs_ok eq kvs" "0 \<le> didx" "didx < num_dicts kvs"
  obtains kvs' where "freeDictIfNeeded kvs didx = Some kvs'" "kvs_ok eq kvs'" "kbag kvs' = kbag kvs"
    "num_dicts kvs' = num_dicts kvs"
proof -
  have sh: "kvs_shape eq kvs" using assms(1) by (simp add: kvs_ok_def)
  obtain kvs' where "freeDictIfNeeded kvs didx = Some kvs'" "kvs_shape eq kvs'" "kbag kvs' = kbag kvs" "same_counters kvs kvs'"
    "\<forall>i. i \<noteq> nat didx \<longrightarrow> dicts kvs' ! i = dicts kvs ! i" using freeDictIfNeeded_shape [OF sh assms(2,3)] .
  then show thesis using that kvs_ok_same [OF assms(1)] by (simp add: same_counters_def)
qed

section \<open>Counting\<close>

lemma total_update:
  assumes "nat didx < length (dicts kvs)"
  shows "int (key_total (set_dict kvs didx (Some d))) =
    int (key_total kvs) - int (counts kvs (nat didx)) + int (size (dict_bag d))"
proof -
  let ?i = "nat didx" and ?N = "{0..<length (dicts kvs)}"
  have i: "?i \<in> ?N" using assms by simp
  have "sum (counts (set_dict kvs didx (Some d))) (?N - {?i}) = sum (counts kvs) (?N - {?i})"
    by (rule sum.cong) (use assms in auto)
  then show ?thesis using sum.remove [OF _ i, of "counts kvs"] sum.remove [OF _ i, of "counts (set_dict kvs didx (Some d))"] assms
    by (simp add: key_total_def)
qed

lemma count_le_total: "i < length (dicts kvs) \<Longrightarrow> counts kvs i \<le> key_total kvs"
  unfolding key_total_def by (rule member_le_sum) auto

lemma nonempty_update:
  assumes "nat didx < length (dicts kvs)"
  shows "int (card {i. counts (set_dict kvs didx (Some d)) i \<noteq> 0}) =
    int (card {i. counts kvs i \<noteq> 0}) - (if counts kvs (nat didx) \<noteq> 0 then 1 else 0) + (if dict_bag d \<noteq> {#} then 1 else 0)"
proof -
  let ?A = "{i. counts kvs i \<noteq> 0}" and ?B = "{i. counts (set_dict kvs didx (Some d)) i \<noteq> 0}"
  define C where "C = ?A - {nat didx}"
  have C: "finite C" "nat didx \<notin> C" using finite_nonempty by (auto simp: C_def)
  have "?B = (if dict_bag d \<noteq> {#} then insert (nat didx) C else C)" using assms by (auto simp: C_def)
  then have B: "card ?B = card C + (if dict_bag d \<noteq> {#} then 1 else 0)" using C by simp
  have "?A = (if counts kvs (nat didx) \<noteq> 0 then insert (nat didx) C else C)" by (auto simp: C_def)
  then have A: "card ?A = card C + (if counts kvs (nat didx) \<noteq> 0 then 1 else 0)"
    using C by (cases "counts kvs (nat didx) = 0") simp_all
  show ?thesis unfolding A B by simp
qed

text \<open>The counters after one key was added to or removed from a table.\<close>

lemma cumulativeKeyCountAdd_ok:
  assumes ok: "kvs_ok eq kvs" and i: "0 \<le> didx" "didx < num_dicts kvs" and old: "dicts kvs ! nat didx \<noteq> None"
    and d: "dict_inv eq (kdtype kvs) d" and delta: "delta = 1 \<or> delta = -1"
    and sz: "int (size (dict_bag d)) = int (counts kvs (nat didx)) + delta" and le: "int (key_total kvs) + delta < 2 ^ 63"
  obtains kvs' where "cumulativeKeyCountAdd (set_dict kvs didx (Some d)) didx delta = Some kvs'" "kvs_ok eq kvs'"
    "kbag kvs' = (kbag kvs)(nat didx := dict_bag d)" "num_dicts kvs' = num_dicts kvs"
proof -
  let ?k = "set_dict kvs didx (Some d)"
  have il: "nat didx < length (dicts kvs)" using i kvs_ok_len [OF ok] by linarith
  have sh: "kvs_shape eq ?k" using shape_set_dict [OF _ il d old] ok by (simp add: kvs_ok_def)
  have b: "kbag ?k = (kbag kvs)(nat didx := dict_bag d)" using il by simp
  have tot: "int (key_total ?k) = int (key_total kvs) + delta" using total_update [OF il, of d] sz by simp
  have kc: "nat ((int (key_count kvs) + delta) mod int ULONG_WRAP) = key_total ?k"
  proof -
    have "0 \<le> int (key_total ?k)" "int (key_total ?k) < int ULONG_WRAP" using tot le by auto
    then show ?thesis using ok tot by (simp add: kvs_ok_def)
  qed
  have ds: "dictSize d = size (dict_bag d)" using d used_le_bag(2) by (auto simp: dict_inv_def)
  have get: "kvstoreGetDict (kvs'\<lparr>key_count := n\<rparr>) didx = Some (Some d)" if "dicts kvs' = dicts ?k" for kvs' :: "('a, 'b) kvstore" and n
    using that il i(1) by (simp add: kvstoreGetDict_def set_dict_def)
  define ne where "ne = (if dictSize d = 1 \<and> delta > 0 then 1 else if dictSize d = 0 then -1 else (0 :: int))"
  have ne: "non_empty_dicts kvs + ne = int (card {i. counts ?k i \<noteq> 0})"
    using nonempty_update [OF il, of d] ok sz delta by (auto simp: kvs_ok_def ne_def ds)
  define k1 where "k1 = ?k\<lparr>key_count := key_total ?k, non_empty_dicts := non_empty_dicts kvs + ne\<rparr>"
  have k1: "kbag k1 = kbag ?k" "kvs_shape eq k1" "num_dicts k1 = num_dicts kvs"
    using kbag_cong [of k1 ?k] sh by (simp_all add: k1_def kvs_shape_def)
  have t1: "key_total k1 = key_total ?k" using k1(1) by (simp add: key_total_def k1_def)
  have lt: "key_total ?k < 2 ^ 63" using tot le by (metis of_nat_less_iff of_nat_numeral of_nat_power)
  have call: "cumulativeKeyCountAdd ?k didx delta =
      (if num_dicts kvs = 1 then Some k1
       else do { t \<leftarrow> dict_size_index kvs; t \<leftarrow> bit_add_loop t (num_dicts kvs) (didx + 1) delta; Some (k1\<lparr>dict_size_index := Some t\<rparr>) })"
    using kc get by (simp add: cumulativeKeyCountAdd_def Let_def k1_def ne_def)
  show thesis
  proof (cases "num_dicts kvs = 1")
    case True
    have "kvs_ok eq k1"
      using k1 t1 lt ne ok True by (simp add: kvs_ok_def tree_ok_def) (simp add: k1_def)
    then show thesis using that [of k1] call True k1 b by simp
  next
    case False
    then obtain t where t: "dict_size_index kvs = Some t" "bit_ok t (counts kvs) (length (dicts kvs))"
      using ok by (auto simp: kvs_ok_def tree_ok_def)
    have "\<exists>t'. bit_add_loop t (int (length (dicts kvs))) (int (nat didx) + 1) delta = Some t' \<and>
        bit_ok t' ((counts kvs)(nat didx := nat (int (counts kvs (nat didx)) + delta))) (length (dicts kvs))"
    proof (rule bit_ok_add [OF t(2) il])
      show "0 \<le> int (counts kvs (nat didx)) + delta" using sz by linarith
      have "sum (counts kvs) {0..<length (dicts kvs)} = key_total kvs" by (simp add: key_total_def)
      then show "int (sum (counts kvs) {0..<length (dicts kvs)}) + delta < int ULONG_WRAP"
        "sum (counts kvs) {0..<length (dicts kvs)} < ULONG_WRAP" using le ok by (simp_all add: kvs_ok_def)
    qed
    moreover have "(counts kvs)(nat didx := nat (int (counts kvs (nat didx)) + delta)) = counts ?k"
      using sz il by (auto simp: fun_eq_iff)
    ultimately obtain t' where t': "bit_add_loop t (num_dicts kvs) (didx + 1) delta = Some t'" "bit_ok t' (counts ?k) (length (dicts kvs))"
      using i(1) kvs_ok_len [OF ok] by auto
    define k2 where "k2 = k1\<lparr>dict_size_index := Some t'\<rparr>"
    have k2: "kbag k2 = kbag ?k" "kvs_shape eq k2" "num_dicts k2 = num_dicts kvs" "key_total k2 = key_total ?k"
      using kbag_cong [of k2 k1] k1 t1 by (simp_all add: k2_def kvs_shape_def key_total_def)
    have "kvs_ok eq k2" using k2 lt ne False t'(2) by (simp add: kvs_ok_def tree_ok_def) (simp add: k2_def k1_def)
    then show thesis using that [of k2] call False t(1) t'(1) k2 b by (simp add: k2_def)
  qed
qed

end
