(* ===== verification/Kvstore_Props.thy ===== *)
theory Kvstore_Props
  imports Kvstore_Inv
begin

text \<open>
  The contents of the array of hash tables as a family of sets of keys, and what the operations on one key do to them:
  addition, deletion in one and in two phases, and lookup. Each keeps the invariant and changes one set of the family.
\<close>

section \<open>Contents\<close>

definition present :: "('k \<Rightarrow> 'k \<Rightarrow> bool) \<Rightarrow> ('k \<times> 'v option) multiset \<Rightarrow> 'k set" where
  "present eq B = {k. \<not> absent eq k B}"

lemma present_empty [simp]: "present eq {#} = {}"
  by (simp add: present_def absent_def)

lemma present_add:
  assumes "type_ok T eq" "eq k k'"
  shows "present eq (add_mset (k', v) B) = present eq B \<union> {x. eq k x}"
proof -
  note E = type_okD(2,3) [OF assms(1)]
  have "eq x k' \<longleftrightarrow> eq k x" for x using E(1) [of k k'] E(1) [of x k'] E(1) [of k x] E(2) [of k k' x] E(2) [of x k k'] assms(2) by blast
  then show ?thesis by (auto simp: present_def absent_def)
qed

lemma present_entry: "kv x \<in># B \<Longrightarrow> eq k (dictGetKey x) \<Longrightarrow> k \<in> present eq B"
  by (auto simp: present_def absent_def kv_def intro!: bexI [of _ "kv x"])

lemma present_class:
  assumes "type_ok T eq" "eq k x"
  shows "x \<in> present eq B \<longleftrightarrow> k \<in> present eq B"
proof -
  note E = type_okD(2,3) [OF assms(1)]
  have "eq x y \<longleftrightarrow> eq k y" for y using E(1) [of k x] E(2) [of k x y] E(2) [of x k y] assms(2) by blast
  then show ?thesis by (simp add: present_def absent_def)
qed

lemma present_inD:
  assumes "type_ok T eq" "k \<in> present eq B"
  shows "present eq B \<union> {x. eq k x} = present eq B"
proof -
  have "x \<in> present eq B" if "eq k x" for x using present_class [OF assms(1) that, of B] assms(2) by simp
  then show ?thesis by auto
qed

lemma present_notinD:
  assumes "type_ok T eq" "k \<notin> present eq B"
  shows "present eq B - {x. eq k x} = present eq B"
proof -
  have "x \<notin> present eq B" if "eq k x" for x using present_class [OF assms(1) that, of B] assms(2) by simp
  then show ?thesis by auto
qed

lemma present_remove:
  assumes "type_ok T eq" "keys_distinct eq (add_mset p B)" "eq k (fst p)"
  shows "present eq B = present eq (add_mset p B) - {x. eq k x}"
proof (intro set_eqI iffI)
  note E = type_okD(2,3) [OF assms(1)]
  fix x
  {
    assume "x \<in> present eq B"
    then obtain q where q: "q \<in># B" "eq x (fst q)" by (auto simp: present_def absent_def)
    have "\<not> eq k x" using keys_unique [OF assms(2,3) q(1)] q(2) E(2) by blast
    then show "x \<in> present eq (add_mset p B) - {x. eq k x}" using q by (auto simp: present_def absent_def)
  next
    assume x: "x \<in> present eq (add_mset p B) - {x. eq k x}"
    then have "\<not> eq x (fst p)" using E assms(3) by blast
    then show "x \<in> present eq B" using x by (auto simp: present_def absent_def)
  }
qed

definition kv_abs :: "('k \<Rightarrow> 'k \<Rightarrow> bool) \<Rightarrow> ('k, 'v) kvstore \<Rightarrow> nat \<Rightarrow> 'k set" where
  "kv_abs eq kvs i = present eq (kbag kvs i)"

lemma kv_abs_cong: "kbag kvs' = kbag kvs \<Longrightarrow> kv_abs eq kvs' = kv_abs eq kvs"
  by (simp add: kv_abs_def fun_eq_iff)

lemma kv_abs_update: "kbag kvs' = (kbag kvs)(i := B) \<Longrightarrow> kv_abs eq kvs' = (kv_abs eq kvs)(i := present eq B)"
  by (simp add: kv_abs_def fun_eq_iff)

section \<open>Operations on one table\<close>

definition index_ok :: "('k, 'v) kvstore \<Rightarrow> int \<Rightarrow> bool" where
  "index_ok kvs didx \<longleftrightarrow> 0 \<le> didx \<and> didx < num_dicts kvs"

lemma index_okD: "kvs_ok eq kvs \<Longrightarrow> index_ok kvs didx \<Longrightarrow> 0 \<le> didx \<and> didx < num_dicts kvs \<and> nat didx < length (dicts kvs)"
  using kvs_ok_len by (fastforce simp: index_ok_def)

lemma kvstoreDictAddRaw_ok:
  assumes "kvs_ok eq kvs" "index_ok kvs didx" "key_total kvs + 1 < 2 ^ 63"
  shows "\<exists>kvs' r. kvstoreDictAddRaw cr kvs didx k = Some (kvs', r) \<and> kvs_ok eq kvs' \<and> num_dicts kvs' = num_dicts kvs \<and>
    key_total kvs' \<le> key_total kvs + 1 \<and> (isl r \<longleftrightarrow> k \<in> kv_abs eq kvs (nat didx)) \<and>
    kv_abs eq kvs' = (kv_abs eq kvs)(nat didx := kv_abs eq kvs (nat didx) \<union> {x. eq k x})"
proof -
  have i0: "0 \<le> didx" and i1: "didx < num_dicts kvs" using index_okD [OF assms(1,2)] by blast+
  obtain k1 d where c: "createDictIfNeeded kvs didx = Some (k1, d)" "kvs_ok eq k1" "kbag k1 = kbag kvs"
    "nat didx < length (dicts k1)" "dicts k1 ! nat didx = Some d" "num_dicts k1 = num_dicts kvs"
    using createDictIfNeeded_ok [OF assms(1) i0 i1] .
  have i1': "didx < num_dicts k1" using i1 c(6) by simp
  note d = kvs_ok_dict [OF c(2,4,5)]
  have len: "length (dicts k1) = length (dicts kvs)" using kvs_ok_len [OF c(2)] kvs_ok_len [OF assms(1)] c(6) by simp
  have tot: "key_total k1 = key_total kvs" using c(3) len by (simp add: key_total_def)
  have sz: "size (dict_bag d) + 1 < 2 ^ 63" using count_le_total [OF c(4)] d(2) tot assms(3) by simp
  have dok: "dict_ok eq d" "pauseAutoResize d \<le> 0" "type_ok (dtype d) eq" using d(1) by (auto simp: dict_inv_def dict_ok_def)
  have ab: "kv_abs eq kvs (nat didx) = present eq (dict_bag d)" using c(3) d(2) by (simp add: kv_abs_def)
  show ?thesis
  proof (cases rule: dictAddRaw_ok [OF dok(1,2) sz, of cr k])
    case (1 d' r x)
    have bag: "dict_bag d' = kbag k1 (nat didx)" using 1(2) d(2) by (simp add: keeps_def)
    note rp = kvs_ok_replace [OF c(2,4) dict_inv_keeps [OF d(1) 1(2)] _ bag]
    have "kv x \<in># dict_bag d'" using in_table_bag [of eq d' r x] 1(2,3) by (simp add: keeps_def)
    then have pr: "k \<in> present eq (dict_bag d)" using present_entry [of x "dict_bag d" eq k] 1(2,4) by (simp add: keeps_def)
    have "present eq (dict_bag d) \<union> {x. eq k x} = present eq (dict_bag d)" using present_inD [OF dok(3) pr] .
    then have "(kv_abs eq kvs)(nat didx := kv_abs eq kvs (nat didx) \<union> {x. eq k x}) = kv_abs eq kvs"
      using ab by (simp add: fun_upd_idem)
    moreover have "kvstoreDictAddRaw cr kvs didx k = Some (set_dict k1 didx (Some d'), Inl r)"
      using c(1) 1(1) by (simp add: kvstoreDictAddRaw_def)
    moreover have "kv_abs eq (set_dict k1 didx (Some d')) = kv_abs eq kvs"
      using rp(2) c(3,5) kv_abs_cong [of "set_dict k1 didx (Some d')" kvs eq] by simp
    moreover have "key_total (set_dict k1 didx (Some d')) = key_total kvs" using rp(2) c(5) tot by (simp add: key_total_def)
    ultimately show ?thesis using rp(1) c(5,6) pr ab by simp
  next
    case (2 d' r x k')
    have sz': "int (size (dict_bag d')) = int (counts k1 (nat didx)) + 1" using 2(5) d(2) by simp
    have le: "int (key_total k1) + 1 < 2 ^ 63" using assms(3) tot by simp
    have old: "dicts k1 ! nat didx \<noteq> None" using c(5) by simp
    obtain k2 where k2: "cumulativeKeyCountAdd (set_dict k1 didx (Some d')) didx 1 = Some k2" "kvs_ok eq k2"
      "kbag k2 = (kbag k1)(nat didx := dict_bag d')" "num_dicts k2 = num_dicts k1"
      using cumulativeKeyCountAdd_ok [OF c(2) i0 i1' old dict_inv_env [OF d(1) 2(2,3)] disjI1 [OF refl] sz' le] .
    have "key_total k2 = key_total kvs + 1"
    proof -
      have "int (key_total (set_dict k1 didx (Some d'))) = int (key_total k1) + 1" using total_update [OF c(4), of d'] sz' by simp
      moreover have "length (dicts k2) = length (dicts k1)" using kvs_ok_len [OF k2(2)] kvs_ok_len [OF c(2)] k2(4) by simp
      moreover have "kbag k2 = kbag (set_dict k1 didx (Some d'))" using k2(3) c(4) by simp
      ultimately have "int (key_total k2) = int (key_total k1) + 1" by (simp only: key_total_def set_dict_fields)
      then show ?thesis using tot by simp
    qed
    moreover have "kvstoreDictAddRaw cr kvs didx k = Some (k2, Inr r)" using c(1) 2(1) k2(1) by (simp add: kvstoreDictAddRaw_def)
    moreover have "kv_abs eq k2 = (kv_abs eq kvs)(nat didx := kv_abs eq kvs (nat didx) \<union> {x. eq k x})"
      using kv_abs_update [OF k2(3)] kv_abs_cong [OF c(3)] ab 2(5) by (simp add: present_add [OF dok(3) 2(4)])
    moreover have "k \<notin> kv_abs eq kvs (nat didx)" using 2(6) ab by (simp add: present_def)
    ultimately show ?thesis using k2(2,4) c(6) by simp
  qed
qed

text \<open>The counters and the tables after a key was removed.\<close>

lemma remove_key_ok:
  assumes "kvs_ok eq kvs" "index_ok kvs didx" "dicts kvs ! nat didx = Some d" "dict_inv eq (kdtype kvs) d'"
    "dict_bag d = add_mset p (dict_bag d')" "eq k (fst p)"
  shows "\<exists>k1 kvs'. cumulativeKeyCountAdd (set_dict kvs didx (Some d')) didx (-1) = Some k1 \<and> freeDictIfNeeded k1 didx = Some kvs' \<and>
    kvs_ok eq kvs' \<and> num_dicts kvs' = num_dicts kvs \<and> key_total kvs' \<le> key_total kvs \<and> k \<in> kv_abs eq kvs (nat didx) \<and>
    kv_abs eq kvs' = (kv_abs eq kvs)(nat didx := kv_abs eq kvs (nat didx) - {x. eq k x})"
proof -
  have i0: "0 \<le> didx" and i1: "didx < num_dicts kvs" and il: "nat didx < length (dicts kvs)"
    using index_okD [OF assms(1,2)] by blast+
  note d = kvs_ok_dict [OF assms(1) il assms(3)]
  have dok: "type_ok (dtype d) eq" "keys_distinct eq (add_mset p (dict_bag d'))" using d(1) assms(5) by (auto simp: dict_inv_def dict_ok_def)
  have old: "dicts kvs ! nat didx \<noteq> None" using assms(3) by simp
  have sz: "int (size (dict_bag d')) = int (counts kvs (nat didx)) + (-1)" using assms(5) d(2) by simp
  have le: "int (key_total kvs) + (-1) < 2 ^ 63"
  proof -
    have "key_total kvs < 2 ^ 63" using assms(1) by (simp add: kvs_ok_def)
    then show ?thesis by simp
  qed
  obtain k1 where k1: "cumulativeKeyCountAdd (set_dict kvs didx (Some d')) didx (-1) = Some k1" "kvs_ok eq k1"
    "kbag k1 = (kbag kvs)(nat didx := dict_bag d')" "num_dicts k1 = num_dicts kvs"
    using cumulativeKeyCountAdd_ok [OF assms(1) i0 i1 old assms(4) disjI2 [OF refl] sz le] .
  have i1': "didx < num_dicts k1" using i1 k1(4) by simp
  obtain kvs' where k2: "freeDictIfNeeded k1 didx = Some kvs'" "kvs_ok eq kvs'" "kbag kvs' = kbag k1" "num_dicts kvs' = num_dicts k1"
    using freeDictIfNeeded_ok [OF k1(2) i0 i1'] .
  have "length (dicts kvs') = length (dicts kvs)" using kvs_ok_len [OF k2(2)] kvs_ok_len [OF assms(1)] k2(4) k1(4) by simp
  then have "key_total kvs' \<le> key_total kvs" unfolding key_total_def
    using k2(3) k1(3) assms(5) d(2) by (auto intro: sum_mono)
  moreover have "kv_abs eq kvs' = (kv_abs eq kvs)(nat didx := kv_abs eq kvs (nat didx) - {x. eq k x})"
    using kv_abs_update [OF k1(3)] kv_abs_cong [OF k2(3)] present_remove [OF dok(1,2) assms(6)] assms(5) d(2)
    by (simp add: kv_abs_def)
  moreover have "k \<in> kv_abs eq kvs (nat didx)" using assms(5,6) d(2) by (simp add: kv_abs_def present_def absent_def)
  ultimately show ?thesis using k1 k2 by auto
qed

lemma kvstoreDictDelete_ok:
  assumes "kvs_ok eq kvs" "index_ok kvs didx"
  shows "\<exists>kvs' r. kvstoreDictDelete cr kvs didx k = Some (kvs', r) \<and> kvs_ok eq kvs' \<and> num_dicts kvs' = num_dicts kvs \<and>
    key_total kvs' \<le> key_total kvs \<and> (r = DICT_OK \<longleftrightarrow> k \<in> kv_abs eq kvs (nat didx)) \<and>
    kv_abs eq kvs' = (kv_abs eq kvs)(nat didx := kv_abs eq kvs (nat didx) - {x. eq k x})"
proof -
  note ix = index_okD [OF assms]
  have il: "nat didx < length (dicts kvs)" and get: "kvstoreGetDict kvs didx = Some (dicts kvs ! nat didx)"
    using ix kvstoreGetDict_in by auto
  show ?thesis
  proof (cases "dicts kvs ! nat didx")
    case None
    then have "kv_abs eq kvs (nat didx) = {}" using il by (simp add: kv_abs_def kbag_def)
    then show ?thesis using assms(1) None get by (auto simp: kvstoreDictDelete_def fun_upd_idem)
  next
    case (Some d)
    note d = kvs_ok_dict [OF assms(1) il Some]
    have dok: "dict_ok eq d" using d(1) by (simp add: dict_inv_def)
    show ?thesis
    proof (cases rule: dictGenericDelete_ok [OF dok, of cr k])
      case (1 d')
      have bag: "dict_bag d' = kbag kvs (nat didx)" using 1(2) d(2) by (simp add: keeps_def)
      note rp = kvs_ok_replace [OF assms(1) il dict_inv_keeps [OF d(1) 1(2)] _ bag]
      have "kvstoreDictDelete cr kvs didx k = Some (set_dict kvs didx (Some d'), DICT_ERR)"
        using get Some 1(1) by (simp add: kvstoreDictDelete_def dictDelete_def)
      moreover have "k \<notin> kv_abs eq kvs (nat didx)" using 1(3) d(2) by (simp add: kv_abs_def present_def)
      moreover from this have "kv_abs eq kvs (nat didx) - {x. eq k x} = kv_abs eq kvs (nat didx)"
        using present_notinD [of "dtype d" eq] dok by (simp add: kv_abs_def dict_ok_def)
      moreover have "key_total (set_dict kvs didx (Some d')) = key_total kvs" using rp(2) Some by (simp add: key_total_def)
      ultimately show ?thesis using rp Some kv_abs_cong by simp
    next
      case (2 d' x)
      have "eq k (fst (kv x))" using 2(2) by (simp add: kv_def)
      then obtain k1 kvs' where "cumulativeKeyCountAdd (set_dict kvs didx (Some d')) didx (-1) = Some k1" "freeDictIfNeeded k1 didx = Some kvs'"
        "kvs_ok eq kvs'" "num_dicts kvs' = num_dicts kvs" "key_total kvs' \<le> key_total kvs" "k \<in> kv_abs eq kvs (nat didx)"
        "kv_abs eq kvs' = (kv_abs eq kvs)(nat didx := kv_abs eq kvs (nat didx) - {x. eq k x})"
        using remove_key_ok [OF assms Some dict_inv_env [OF d(1) 2(3,4)] 2(5)] by blast
      then show ?thesis using get Some 2(1) by (simp add: kvstoreDictDelete_def dictDelete_def)
    qed
  qed
qed

lemma set_dict_twice [simp]: "set_dict (set_dict kvs didx a) didx b = set_dict kvs didx b"
  by (simp add: set_dict_def)

text \<open>Deletion in two phases, with nothing in between.\<close>

definition kvstoreUnlink :: "dictResizeEnable \<Rightarrow> ('k, 'v) kvstore \<Rightarrow> int \<Rightarrow> 'k \<Rightarrow> (('k, 'v) kvstore \<times> bool) option" where
  "kvstoreUnlink cr kvs didx k =
     do { (kvs, he) \<leftarrow> kvstoreDictTwoPhaseUnlinkFind cr kvs didx k;
          case he of
            None \<Rightarrow> Some (kvs, False)
          | Some _ \<Rightarrow> do { kvs \<leftarrow> kvstoreDictTwoPhaseUnlinkFree cr kvs didx he; Some (kvs, True) } }"

lemma kvstoreUnlink_ok:
  assumes "kvs_ok eq kvs" "index_ok kvs didx"
  shows "\<exists>kvs' r. kvstoreUnlink cr kvs didx k = Some (kvs', r) \<and> kvs_ok eq kvs' \<and> num_dicts kvs' = num_dicts kvs \<and>
    key_total kvs' \<le> key_total kvs \<and> (r \<longleftrightarrow> k \<in> kv_abs eq kvs (nat didx)) \<and>
    kv_abs eq kvs' = (kv_abs eq kvs)(nat didx := kv_abs eq kvs (nat didx) - {x. eq k x})"
proof -
  note ix = index_okD [OF assms]
  have il: "nat didx < length (dicts kvs)" and get: "kvstoreGetDict kvs didx = Some (dicts kvs ! nat didx)"
    using ix kvstoreGetDict_in by auto
  show ?thesis
  proof (cases "dicts kvs ! nat didx")
    case None
    then have "kv_abs eq kvs (nat didx) = {}" using il by (simp add: kv_abs_def kbag_def)
    then show ?thesis using assms(1) None get
      by (auto simp: kvstoreUnlink_def kvstoreDictTwoPhaseUnlinkFind_def fun_upd_idem)
  next
    case (Some d)
    note d = kvs_ok_dict [OF assms(1) il Some]
    have dok: "dict_ok eq d" "pauserehash d < 2 ^ 15 - 1" using d(1) by (simp_all add: dict_inv_def)
    obtain d1 he d' where h: "dictTwoPhaseUnlinkFind cr d k = Some (d1, he)" "dictTwoPhaseUnlinkFree cr d1 he = Some d'"
      "dict_ok eq d'" "same_env d d'"
      "case he of None \<Rightarrow> absent eq k (dict_bag d) \<and> dict_bag d' = dict_bag d
       | Some r \<Rightarrow> pauserehash d1 = pauserehash d + 1 \<and>
           (\<exists>x. in_table d1 r x \<and> eq k (dictGetKey x) \<and> dict_bag d = add_mset (kv x) (dict_bag d'))"
      using two_phase_ok [OF dok, of cr k] by blast
    have f: "kvstoreDictTwoPhaseUnlinkFind cr kvs didx k = Some (set_dict kvs didx (Some d1), he)"
      using get Some h(1) by (simp add: kvstoreDictTwoPhaseUnlinkFind_def)
    show ?thesis
    proof (cases he)
      case None
      then have d1: "d1 = d'" "absent eq k (dict_bag d)" "dict_bag d' = dict_bag d" using h(2,5) by (simp_all add: dictTwoPhaseUnlinkFree_def)
      have bag: "dict_bag d' = kbag kvs (nat didx)" using d1 d(2) by simp
      note rp = kvs_ok_replace [OF assms(1) il dict_inv_env [OF d(1) h(3,4)] _ bag]
      have "k \<notin> kv_abs eq kvs (nat didx)" using d1(2) d(2) by (simp add: kv_abs_def present_def)
      moreover from this have "kv_abs eq kvs (nat didx) - {x. eq k x} = kv_abs eq kvs (nat didx)"
        using present_notinD [of "dtype d" eq] dok(1) by (simp add: kv_abs_def dict_ok_def)
      moreover have "key_total (set_dict kvs didx (Some d')) = key_total kvs" using rp(2) Some by (simp add: key_total_def)
      moreover have "kv_abs eq (set_dict kvs didx (Some d')) = kv_abs eq kvs" using rp(2) Some kv_abs_cong by simp
      ultimately show ?thesis using rp Some f None d1(1)
        by (intro exI [of _ "set_dict kvs didx (Some d')"] exI [of _ False]) (simp add: kvstoreUnlink_def)
    next
      case he: (Some r)
      then obtain x where x: "eq k (fst (kv x))" "dict_bag d = add_mset (kv x) (dict_bag d')" using h(5) by (auto simp: kv_def)
      have g: "kvstoreGetDict (set_dict kvs didx (Some d1)) didx = Some (Some d1)" using ix by (simp add: kvstoreGetDict_def) (simp add: set_dict_def)
      obtain k1 kvs' where "cumulativeKeyCountAdd (set_dict kvs didx (Some d')) didx (-1) = Some k1" "freeDictIfNeeded k1 didx = Some kvs'"
        "kvs_ok eq kvs'" "num_dicts kvs' = num_dicts kvs" "key_total kvs' \<le> key_total kvs" "k \<in> kv_abs eq kvs (nat didx)"
        "kv_abs eq kvs' = (kv_abs eq kvs)(nat didx := kv_abs eq kvs (nat didx) - {x. eq k x})"
        using remove_key_ok [OF assms Some dict_inv_env [OF d(1) h(3,4)] x(2,1)] by blast
      then show ?thesis using f he h(2) g
        by (intro exI [of _ kvs'] exI [of _ True]) (simp add: kvstoreUnlink_def kvstoreDictTwoPhaseUnlinkFree_def)
    qed
  qed
qed

lemma kvstoreDictFind_ok:
  assumes "kvs_ok eq kvs" "index_ok kvs didx"
  shows "\<exists>kvs' r. kvstoreDictFind cr kvs didx k = Some (kvs', r) \<and> kvs_ok eq kvs' \<and> num_dicts kvs' = num_dicts kvs \<and>
    key_total kvs' = key_total kvs \<and> (r \<noteq> None \<longleftrightarrow> k \<in> kv_abs eq kvs (nat didx)) \<and> kv_abs eq kvs' = kv_abs eq kvs"
proof -
  note ix = index_okD [OF assms]
  have il: "nat didx < length (dicts kvs)" and get: "kvstoreGetDict kvs didx = Some (dicts kvs ! nat didx)"
    using ix kvstoreGetDict_in by auto
  show ?thesis
  proof (cases "dicts kvs ! nat didx")
    case None
    then have "kv_abs eq kvs (nat didx) = {}" using il by (simp add: kv_abs_def kbag_def)
    then show ?thesis using assms(1) None get by (auto simp: kvstoreDictFind_def)
  next
    case (Some d)
    note d = kvs_ok_dict [OF assms(1) il Some]
    have dok: "dict_ok eq d" using d(1) by (simp add: dict_inv_def)
    have ab: "kv_abs eq kvs (nat didx) = present eq (dict_bag d)" using d(2) by (simp add: kv_abs_def)
    obtain d' r where f: "dictFind cr d k = Some (d', r)" "keeps eq d d'" "r \<noteq> None \<longleftrightarrow> k \<in> present eq (dict_bag d)"
    proof (cases rule: dictFind_ok [OF dok, of cr k])
      case (1 d')
      then show thesis using that [of d' None] by (simp add: present_def)
    next
      case (2 d' r x)
      have "kv x \<in># dict_bag d" using in_table_bag [of eq d' r x] 2(2,3) by (simp add: keeps_def)
      then have "k \<in> present eq (dict_bag d)" using present_entry [of x "dict_bag d" eq k] 2(4) by simp
      then show thesis using that [of d' "Some r"] 2 by simp
    qed
    have bag: "dict_bag d' = kbag kvs (nat didx)" using f(2) d(2) by (simp add: keeps_def)
    note rp = kvs_ok_replace [OF assms(1) il dict_inv_keeps [OF d(1) f(2)] _ bag]
    have "key_total (set_dict kvs didx (Some d')) = key_total kvs" using rp(2) Some by (simp add: key_total_def)
    then show ?thesis using rp Some kv_abs_cong f(1,3) get ab by (simp add: kvstoreDictFind_def)
  qed
qed

end
