(* ===== verification/Kvstore_Bulk.thy ===== *)
theory Kvstore_Bulk
  imports Kvstore_Props
begin

text \<open>
  The operations of \<^verbatim>\<open>kvstore.c\<close> that visit every table: creation, emptying, resizing and expansion. They keep the
  invariant and, emptying apart, the contents. With the operations on one key this gives that any sequence of calls
  behaves as a family of sets of keys.
\<close>

section \<open>Resizing\<close>

definition kvs_same :: "('k \<Rightarrow> 'k \<Rightarrow> bool) \<Rightarrow> ('k, 'v) kvstore \<Rightarrow> ('k, 'v) kvstore \<Rightarrow> bool" where
  "kvs_same eq kvs kvs' \<longleftrightarrow> kvs_ok eq kvs' \<and> kbag kvs' = kbag kvs \<and> num_dicts kvs' = num_dicts kvs"

lemma kvs_same_refl: "kvs_ok eq kvs \<Longrightarrow> kvs_same eq kvs kvs"
  by (simp add: kvs_same_def)

lemma kvs_same_trans: "kvs_same eq a b \<Longrightarrow> kvs_same eq b c \<Longrightarrow> kvs_same eq a c"
  by (simp add: kvs_same_def)

lemma kvs_same_ok: "kvs_same eq a b \<Longrightarrow> kvs_ok eq b" "kvs_same eq a b \<Longrightarrow> num_dicts b = num_dicts a"
  by (simp_all add: kvs_same_def)

lemma kvs_same_abs:
  assumes "kvs_ok eq kvs" "kvs_same eq kvs kvs'"
  shows "kv_abs eq kvs' = kv_abs eq kvs" "key_total kvs' = key_total kvs"
proof -
  show "kv_abs eq kvs' = kv_abs eq kvs" using assms(2) kv_abs_cong [of kvs' kvs eq] by (simp add: kvs_same_def)
  have "length (dicts kvs') = length (dicts kvs)"
    using kvs_ok_len [OF assms(1)] kvs_ok_len [OF kvs_same_ok(1) [OF assms(2)]] kvs_same_ok(2) [OF assms(2)] by simp
  then show "key_total kvs' = key_total kvs" using assms(2) by (simp add: kvs_same_def key_total_def)
qed

lemma kvs_same_table:
  assumes "kvs_ok eq kvs" "nat didx < length (dicts kvs)" "dicts kvs ! nat didx = Some d" "keeps eq d d'"
  shows "kvs_same eq kvs (set_dict kvs didx (Some d'))"
proof -
  note d = kvs_ok_dict [OF assms(1-3)]
  have bag: "dict_bag d' = kbag kvs (nat didx)" using assms(4) d(2) by (simp add: keeps_def)
  have old: "dicts kvs ! nat didx \<noteq> None" using assms(3) by simp
  show ?thesis using kvs_ok_replace [OF assms(1,2) dict_inv_keeps [OF d(1) assms(4)] old bag] by (simp add: kvs_same_def)
qed

lemma kvs_same_cursor:
  assumes "kvs_ok eq kvs" "0 \<le> c" "c < num_dicts kvs"
  shows "kvs_same eq kvs (kvs\<lparr>resize_cursor := c\<rparr>)"
proof -
  have "kbag (kvs\<lparr>resize_cursor := c\<rparr>) = kbag kvs" by (rule kbag_cong) simp
  moreover have "kvs_shape eq (kvs\<lparr>resize_cursor := c\<rparr>)" using assms by (simp add: kvs_ok_def kvs_shape_def)
  ultimately show ?thesis using assms(1) by (simp add: kvs_same_def kvs_ok_def key_total_def tree_ok_def)
qed

lemma kvs_ok_table: "kvs_ok eq kvs \<Longrightarrow> i < length (dicts kvs) \<Longrightarrow> dicts kvs ! i = Some d \<Longrightarrow> dict_ok eq d"
  using kvs_ok_dict(1) by (auto simp: dict_inv_def)

lemma dictShrinkIfNeeded_ok:
  assumes "dict_ok eq d"
  shows "\<exists>d' r. dictShrinkIfNeeded cr d = Some (d', r) \<and> keeps eq d d'"
proof -
  obtain d' r where d': "dictShrink cr d (ht_used d 0) = Some (d', r)" "resize_step eq d d'"
    using dictShrink_ok [OF assms] by blast
  have "dictShrinkIfNeeded cr d \<in> {Some (d, DICT_OK), Some (d', DICT_OK), Some (d, DICT_ERR)}"
    using d'(1) unfolding dictShrinkIfNeeded_def by auto
  then show ?thesis using d'(2) keeps_refl [OF assms] by (auto simp: resize_step_def)
qed

lemma resize_table_ok:
  assumes "dict_ok eq d"
  shows "\<exists>d1 r d2. dictShrinkIfNeeded cr d = Some (d1, r) \<and>
    (if r = DICT_ERR then map_option fst (dictExpandIfNeeded cr d1) else Some d1) = Some d2 \<and> keeps eq d d2"
proof -
  obtain d1 r where d1: "dictShrinkIfNeeded cr d = Some (d1, r)" "keeps eq d d1" using dictShrinkIfNeeded_ok [OF assms] by blast
  have ok1: "dict_ok eq d1" using d1(2) by (simp add: keeps_def)
  obtain d2 r2 where d2: "dictExpandIfNeeded cr d1 = Some (d2, r2)" "keeps eq d1 d2"
    using dictExpandIfNeeded_ok [OF ok1, of cr] by (auto simp: resize_step_def)
  have "keeps eq d d2" using keeps_trans [OF d1(2) d2(2)] .
  then show ?thesis using d1 d2(1) by (cases "r = DICT_ERR") auto
qed

lemma resize_loop_ok:
  assumes "kvs_ok eq kvs"
  shows "\<exists>kvs'. resize_loop cr kvs n = Some kvs' \<and> kvs_same eq kvs kvs'"
  using assms
proof (induction n arbitrary: kvs)
  case 0
  then show ?case by (simp add: kvs_same_refl)
next
  case (Suc n)
  have c: "0 \<le> resize_cursor kvs" "nat (resize_cursor kvs) < length (dicts kvs)" "0 < num_dicts kvs"
    using Suc.prems kvs_ok_len [OF Suc.prems] by (auto simp: kvs_ok_def kvs_shape_def)
  have get: "kvstoreGetDict kvs (resize_cursor kvs) = Some (dicts kvs ! nat (resize_cursor kvs))" using kvstoreGetDict_in [OF c(1,2)] .
  obtain k1 where k1: "(case dicts kvs ! nat (resize_cursor kvs) of
       None \<Rightarrow> Some kvs
     | Some d \<Rightarrow>
         do { (d, r) \<leftarrow> dictShrinkIfNeeded cr d;
              d \<leftarrow> (if r = DICT_ERR then map_option fst (dictExpandIfNeeded cr d) else Some d);
              Some (set_dict kvs (resize_cursor kvs) (Some d)) }) = Some k1" "kvs_same eq kvs k1"
  proof (cases "dicts kvs ! nat (resize_cursor kvs)")
    case None
    then show thesis using that [of kvs] kvs_same_refl [OF Suc.prems] by simp
  next
    case (Some d)
    obtain d1 r d2 where r: "dictShrinkIfNeeded cr d = Some (d1, r)"
      "(if r = DICT_ERR then map_option fst (dictExpandIfNeeded cr d1) else Some d1) = Some d2" "keeps eq d d2"
      using resize_table_ok [OF kvs_ok_table [OF Suc.prems c(2) Some], of cr] by blast
    show thesis using that [of "set_dict kvs (resize_cursor kvs) (Some d2)"] Some r kvs_same_table [OF Suc.prems c(2) Some r(3)] by simp
  qed
  let ?k = "k1\<lparr>resize_cursor := (resize_cursor kvs + 1) mod num_dicts k1\<rparr>"
  have "kvs_same eq k1 ?k" using kvs_same_ok [OF k1(2)] c(3) by (intro kvs_same_cursor) simp_all
  then have s: "kvs_same eq kvs ?k" using kvs_same_trans [OF k1(2)] by blast
  obtain kvs' where "resize_loop cr ?k n = Some kvs'" "kvs_same eq ?k kvs'" using Suc.IH [OF kvs_same_ok(1) [OF s]] by blast
  then show ?case using get k1(1) kvs_same_trans [OF s] by (simp add: Let_def)
qed

lemma kvstoreTryResizeDicts_ok:
  "kvs_ok eq kvs \<Longrightarrow> \<exists>kvs'. kvstoreTryResizeDicts cr kvs limit = Some kvs' \<and> kvs_same eq kvs kvs'"
  by (simp add: kvstoreTryResizeDicts_def resize_loop_ok)

section \<open>Expansion\<close>

lemma expand_table_ok:
  assumes "dict_ok eq d"
  shows "\<exists>d' r. (case try_expand of Some fails \<Rightarrow> dictTryExpand cr d sz fails | None \<Rightarrow> dictExpand cr d sz) = Some (d', r) \<and>
    keeps eq d d'"
  using dictTryExpand_ok [OF assms, of cr sz] dictExpand_ok [OF assms, of cr sz]
  by (cases try_expand) (fastforce simp: resize_step_def)+

lemma expand_loop_ok:
  assumes "kvs_ok eq kvs" "0 \<le> i" "i + int n \<le> num_dicts kvs"
  shows "\<exists>kvs' r. expand_loop cr kvs sz try_expand skip_cb i n = Some (kvs', r) \<and> kvs_same eq kvs kvs' \<and> (try_expand = None \<longrightarrow> r)"
  using assms
proof (induction n arbitrary: kvs i)
  case 0
  then show ?case by (intro exI [of _ kvs] exI [of _ True]) (simp add: kvs_same_refl)
next
  case (Suc n)
  have il: "nat i < length (dicts kvs)" using Suc.prems kvs_ok_len [OF Suc.prems(1)] by simp
  have get: "kvstoreGetDict kvs i = Some (dicts kvs ! nat i)" using kvstoreGetDict_in [OF Suc.prems(2) il] .
  have step: "\<exists>kvs' r. expand_loop cr k1 sz try_expand skip_cb (i + 1) n = Some (kvs', r) \<and> kvs_same eq kvs kvs' \<and> (try_expand = None \<longrightarrow> r)"
    if k1: "kvs_same eq kvs k1" for k1
    using Suc.IH [OF kvs_same_ok(1) [OF k1], of "i + 1"] Suc.prems(2,3) kvs_same_ok(2) [OF k1] kvs_same_trans [OF k1] by fastforce
  show ?case
  proof (cases "dicts kvs ! nat i")
    case None
    then show ?thesis using step [OF kvs_same_refl [OF Suc.prems(1)]] get by simp
  next
    case (Some d)
    obtain d' r where e: "(case try_expand of Some fails \<Rightarrow> dictTryExpand cr d sz fails | None \<Rightarrow> dictExpand cr d sz) = Some (d', r)"
      "keeps eq d d'" using expand_table_ok [OF kvs_ok_table [OF Suc.prems(1) il Some]] by blast
    note s = kvs_same_table [OF Suc.prems(1) il Some e(2)]
    show ?thesis using step [OF s] step [OF kvs_same_refl [OF Suc.prems(1)]] s get Some e(1) by (auto simp: Let_def)
  qed
qed

lemma kvstoreExpand_ok:
  assumes "kvs_ok eq kvs"
  shows "\<exists>kvs' r. kvstoreExpand cr kvs sz try_expand skip_cb = Some (kvs', r) \<and> kvs_same eq kvs kvs' \<and> (try_expand = None \<longrightarrow> r)"
  using expand_loop_ok [OF assms, of 0 "nat (num_dicts kvs)"] assms by (simp add: kvstoreExpand_def kvs_ok_def kvs_shape_def)

section \<open>Emptying and creation\<close>

lemma same_counters_trans: "same_counters a b \<Longrightarrow> same_counters b c \<Longrightarrow> same_counters a c"
  by (simp add: same_counters_def)

lemma empty_loop_ok:
  assumes "kvs_shape eq kvs" "0 \<le> didx" "didx + int n = num_dicts kvs"
  shows "\<exists>kvs'. empty_loop kvs didx n = Some kvs' \<and> kvs_shape eq kvs' \<and> same_counters kvs kvs' \<and>
    (\<forall>i. kbag kvs' i = (if nat didx \<le> i then {#} else kbag kvs i))"
  using assms
proof (induction n arbitrary: kvs didx)
  case 0
  then have "kbag kvs i = {#}" if "nat didx \<le> i" for i using that shape_len [OF 0(1)] by (simp add: kbag_def)
  then show ?case using 0 by (auto simp: same_counters_def)
next
  case (Suc n)
  have il: "nat didx < length (dicts kvs)" using Suc.prems shape_len [OF Suc.prems(1)] by simp
  have get: "kvstoreGetDict kvs didx = Some (dicts kvs ! nat didx)" using kvstoreGetDict_in [OF Suc.prems(2) il] .
  have step: "\<exists>kvs'. empty_loop k1 (didx + 1) n = Some kvs' \<and> kvs_shape eq kvs' \<and> same_counters kvs kvs' \<and>
      (\<forall>i. kbag kvs' i = (if nat didx \<le> i then {#} else kbag kvs i))"
    if k1: "kvs_shape eq k1" "same_counters kvs k1" "kbag k1 = (kbag kvs)(nat didx := {#})" for k1
  proof -
    have "didx + 1 + int n = num_dicts k1" using Suc.prems(3) k1(2) by (simp add: same_counters_def)
    then obtain kvs' where k': "empty_loop k1 (didx + 1) n = Some kvs'" "kvs_shape eq kvs'" "same_counters k1 kvs'"
      "\<forall>i. kbag kvs' i = (if nat (didx + 1) \<le> i then {#} else kbag k1 i)" using Suc.IH [OF k1(1), of "didx + 1"] Suc.prems(2) by auto
    have "kbag kvs' i = (if nat didx \<le> i then {#} else kbag kvs i)" for i
      using k'(4) k1(3) Suc.prems(2) by (auto simp: nat_add_distrib)
    then show ?thesis using k' same_counters_trans [OF k1(2) k'(3)] by blast
  qed
  show ?case
  proof (cases "dicts kvs ! nat didx")
    case None
    then have "kbag kvs = (kbag kvs)(nat didx := {#})" using il by (auto simp: kbag_def fun_eq_iff)
    then show ?thesis using step [of kvs] Suc.prems(1) get None by (simp add: same_counters_def)
  next
    case (Some d)
    have "Some d \<in> set (dicts kvs)" using il Some by (metis nth_mem)
    then have di: "dict_inv eq (kdtype kvs) d" using Suc.prems(1) by (simp add: kvs_shape_def)
    then obtain d' fr where e: "dictEmpty d = Some (d', fr)" "dict_ok eq d'" "dict_bag d' = {#}" "dtype d' = dtype d"
      "pauserehash d' = 0" "pauseAutoResize d' = 0" using dictEmpty_ok [of eq d] by (auto simp: dict_inv_def)
    have di': "dict_inv eq (kdtype kvs) d'" using e di by (simp add: dict_inv_def)
    have old: "dicts kvs ! nat didx \<noteq> None" using Some by simp
    let ?k = "set_dict kvs didx (Some d')"
    note sh = shape_set_dict [OF Suc.prems(1) il di' old]
    have lt: "didx < num_dicts ?k" using Suc.prems(3) by simp
    obtain k1 where k1: "freeDictIfNeeded ?k didx = Some k1" "kvs_shape eq k1" "kbag k1 = kbag ?k" "same_counters ?k k1"
      "\<forall>i. i \<noteq> nat didx \<longrightarrow> dicts k1 ! i = dicts ?k ! i" using freeDictIfNeeded_shape [OF sh Suc.prems(2) lt] .
    have "same_counters kvs k1" using k1(4) by (simp add: same_counters_def)
    then show ?thesis using step [OF k1(2)] k1(1,3) e(3) il get Some e(1) by simp
  qed
qed

lemma kvs_ok_empty:
  assumes "kvs_shape eq kvs" "\<forall>i. kbag kvs i = {#}" "key_count kvs = 0" "non_empty_dicts kvs = 0"
    "dict_size_index kvs = (if num_dicts kvs = 1 then None else Some (replicate (Suc (length (dicts kvs))) 0))"
  shows "kvs_ok eq kvs"
  using assms bit_ok_zero [of "length (dicts kvs)"]
  by (simp add: kvs_ok_def key_total_def tree_ok_def del: replicate_Suc)

lemma kvstoreEmpty_ok:
  assumes "kvs_ok eq kvs"
  shows "\<exists>kvs'. kvstoreEmpty kvs = Some kvs' \<and> kvs_ok eq kvs' \<and> num_dicts kvs' = num_dicts kvs \<and> kbag kvs' = (\<lambda>_. {#})"
proof -
  have sh: "kvs_shape eq kvs" and n: "0 + int (nat (num_dicts kvs)) = num_dicts kvs" "0 < num_dicts kvs"
    using assms by (simp_all add: kvs_ok_def kvs_shape_def)
  obtain k1 where k1: "empty_loop kvs 0 (nat (num_dicts kvs)) = Some k1" "kvs_shape eq k1" "same_counters kvs k1"
    "\<forall>i. kbag k1 i = {#}" using empty_loop_ok [OF sh order_refl n(1)] by auto
  let ?k = "k1\<lparr>key_count := 0, non_empty_dicts := 0, resize_cursor := 0,
    dict_size_index := map_option (\<lambda>t. replicate (nat (num_dicts k1) + 1) 0) (dict_size_index k1)\<rparr>"
  have b: "kbag ?k = kbag k1" by (rule kbag_cong) simp
  have "kvs_ok eq ?k"
  proof (rule kvs_ok_empty)
    show "kvs_shape eq ?k" using k1(2) by (simp add: kvs_shape_def)
    have "dict_size_index k1 \<noteq> None \<longleftrightarrow> num_dicts k1 \<noteq> 1"
      using assms k1(3) by (auto simp: kvs_ok_def tree_ok_def same_counters_def split: if_splits)
    then show "dict_size_index ?k = (if num_dicts ?k = 1 then None else Some (replicate (Suc (length (dicts ?k))) 0))"
      using shape_len [OF k1(2)] by auto
  qed (use b k1(4) in auto)
  then show ?thesis using k1 b by (auto simp: kvstoreEmpty_def same_counters_def fun_eq_iff)
qed

lemma create_loop_ok:
  assumes "kvs_shape eq kvs" "0 \<le> i" "i + int n \<le> num_dicts kvs"
  shows "\<exists>kvs'. create_loop kvs i n = Some kvs' \<and> kvs_shape eq kvs' \<and> same_counters kvs kvs' \<and> kbag kvs' = kbag kvs"
  using assms
proof (induction n arbitrary: kvs i)
  case 0
  then show ?case by (simp add: same_counters_def)
next
  case (Suc n)
  have lt: "i < num_dicts kvs" using Suc.prems(3) by simp
  obtain k1 d where k1: "createDictIfNeeded kvs i = Some (k1, d)" "kvs_shape eq k1" "kbag k1 = kbag kvs"
    "same_counters kvs k1" "dicts k1 ! nat i = Some d" using createDictIfNeeded_shape [OF Suc.prems(1,2) lt] .
  have "i + 1 + int n \<le> num_dicts k1" "0 \<le> i + 1" using Suc.prems k1(4) by (simp_all add: same_counters_def)
  then obtain kvs' where "create_loop k1 (i + 1) n = Some kvs'" "kvs_shape eq kvs'" "same_counters k1 kvs'" "kbag kvs' = kbag k1"
    using Suc.IH [OF k1(2)] by blast
  then show ?case using k1(1,3) same_counters_trans [OF k1(4)] by simp
qed

lemma kvstoreCreate_ok:
  assumes "type_ok T eq" "bits \<le> 16"
  shows "\<exists>kvs. kvstoreCreate T bits fl = Some kvs \<and> kvs_ok eq kvs \<and> num_dicts kvs = 2 ^ bits \<and> kbag kvs = (\<lambda>_. {#})"
proof -
  define k0 where "k0 = \<lparr>flags = fl, kdtype = T, dicts = replicate (2 ^ bits) None, num_dicts = 2 ^ bits, num_dicts_bits = bits,
    resize_cursor = 0, allocated_dicts = 0, non_empty_dicts = 0, key_count = 0, dict_size_index = None\<rparr>"
  have k0: "kvs_shape eq k0" using assms by (simp add: k0_def kvs_shape_def)
  have n0: "num_dicts k0 = 2 ^ bits" by (simp add: k0_def)
  have b0: "kbag k0 = (\<lambda>_. {#})" by (simp add: k0_def kbag_def fun_eq_iff)
  have "0 + int (2 ^ bits) \<le> num_dicts k0" using n0 by simp
  then obtain kl where kl: "create_loop k0 0 (2 ^ bits) = Some kl" "kvs_shape eq kl" "same_counters k0 kl" "kbag kl = kbag k0"
    using create_loop_ok [OF k0 order_refl] by blast
  have "same_counters k0 k0" by (simp add: same_counters_def)
  then obtain k1 where k1: "(if fl AND KVSTORE_ALLOCATE_DICTS_ON_DEMAND = 0 then create_loop k0 0 (2 ^ bits) else Some k0) = Some k1"
    "kvs_shape eq k1" "same_counters k0 k1" "kbag k1 = kbag k0"
    using kl k0 by (cases "fl AND KVSTORE_ALLOCATE_DICTS_ON_DEMAND = 0") auto
  let ?k = "k1\<lparr>key_count := 0, non_empty_dicts := 0, resize_cursor := 0,
    dict_size_index := (if num_dicts k1 > 1 then Some (replicate (2 ^ bits + 1) 0) else None)\<rparr>"
  have n1: "num_dicts k1 = 2 ^ bits" "length (dicts k1) = 2 ^ bits" using k1(3) by (simp_all add: same_counters_def k0_def)
  have b: "kbag ?k = kbag k1" by (rule kbag_cong) simp
  have "kvs_ok eq ?k"
  proof (rule kvs_ok_empty)
    show "kvs_shape eq ?k" using k1(2) by (simp add: kvs_shape_def)
    show "dict_size_index ?k = (if num_dicts ?k = 1 then None else Some (replicate (Suc (length (dicts ?k))) 0))"
    proof (cases "bits = 0")
      case False
      then have "1 < num_dicts k1" using n1(1) by simp
      then show ?thesis using n1(2) by simp
    qed (use n1 in simp)
  qed (use b k1(4) b0 in auto)
  moreover have "kvstoreCreate T bits fl = Some ?k" 
    unfolding kvstoreCreate_def k0_def [symmetric] Let_def k1(1) using assms(2) by simp
  ultimately show ?thesis using n1(1) b k1(4) b0 by auto
qed

section \<open>Sequences of calls\<close>

datatype 'k kvs_cmd =
    KAdd int 'k
  | KDelete int 'k
  | KUnlink int 'k
  | KFind int 'k
  | KEmpty
  | KResize int
  | KExpand nat "(nat \<Rightarrow> bool) option" "(int \<Rightarrow> bool) option"

fun kvs_step :: "dictResizeEnable \<Rightarrow> ('k, 'v) kvstore \<Rightarrow> 'k kvs_cmd \<Rightarrow> (('k, 'v) kvstore \<times> bool) option" where
  "kvs_step cr kvs (KAdd i k) = do { (kvs, r) \<leftarrow> kvstoreDictAddRaw cr kvs i k; Some (kvs, \<not> isl r) }"
| "kvs_step cr kvs (KDelete i k) = do { (kvs, r) \<leftarrow> kvstoreDictDelete cr kvs i k; Some (kvs, r = DICT_OK) }"
| "kvs_step cr kvs (KUnlink i k) = kvstoreUnlink cr kvs i k"
| "kvs_step cr kvs (KFind i k) = do { (kvs, r) \<leftarrow> kvstoreDictFind cr kvs i k; Some (kvs, r \<noteq> None) }"
| "kvs_step cr kvs KEmpty = do { kvs \<leftarrow> kvstoreEmpty kvs; Some (kvs, True) }"
| "kvs_step cr kvs (KResize limit) = do { kvs \<leftarrow> kvstoreTryResizeDicts cr kvs limit; Some (kvs, True) }"
| "kvs_step cr kvs (KExpand n try_expand skip) = do { (kvs, _) \<leftarrow> kvstoreExpand cr kvs n try_expand skip; Some (kvs, True) }"

fun kvs_run ::
  "('k, 'v) kvstore \<Rightarrow> (dictResizeEnable \<times> 'k kvs_cmd) list \<Rightarrow> (('k, 'v) kvstore \<times> bool list) option" where
  "kvs_run kvs [] = Some (kvs, [])"
| "kvs_run kvs ((cr, c) # cs) =
     do { (kvs, r) \<leftarrow> kvs_step cr kvs c; (kvs, rs) \<leftarrow> kvs_run kvs cs; Some (kvs, r # rs) }"

text \<open>What the calls do to a family of sets, one for each table, that are closed under the comparison of keys.\<close>

fun set_step :: "('k \<Rightarrow> 'k \<Rightarrow> bool) \<Rightarrow> (nat \<Rightarrow> 'k set) \<Rightarrow> 'k kvs_cmd \<Rightarrow> (nat \<Rightarrow> 'k set) \<times> bool" where
  "set_step eq S (KAdd i k) = (S(nat i := S (nat i) \<union> {x. eq k x}), k \<notin> S (nat i))"
| "set_step eq S (KDelete i k) = (S(nat i := S (nat i) - {x. eq k x}), k \<in> S (nat i))"
| "set_step eq S (KUnlink i k) = (S(nat i := S (nat i) - {x. eq k x}), k \<in> S (nat i))"
| "set_step eq S (KFind i k) = (S, k \<in> S (nat i))"
| "set_step eq S KEmpty = (\<lambda>_. {}, True)"
| "set_step eq S (KResize limit) = (S, True)"
| "set_step eq S (KExpand n try_expand skip) = (S, True)"

fun set_run :: "('k \<Rightarrow> 'k \<Rightarrow> bool) \<Rightarrow> (nat \<Rightarrow> 'k set) \<Rightarrow> 'k kvs_cmd list \<Rightarrow> (nat \<Rightarrow> 'k set) \<times> bool list" where
  "set_run eq S [] = (S, [])"
| "set_run eq S (c # cs) = (let (S, r) = set_step eq S c; (S, rs) = set_run eq S cs in (S, r # rs))"

fun cmd_index_ok :: "nat \<Rightarrow> 'k kvs_cmd \<Rightarrow> bool" where
  "cmd_index_ok n (KAdd i k) = (0 \<le> i \<and> nat i < n)"
| "cmd_index_ok n (KDelete i k) = (0 \<le> i \<and> nat i < n)"
| "cmd_index_ok n (KUnlink i k) = (0 \<le> i \<and> nat i < n)"
| "cmd_index_ok n (KFind i k) = (0 \<le> i \<and> nat i < n)"
| "cmd_index_ok n c = True"

lemma kvs_step_ok:
  assumes "kvs_ok eq kvs" "num_dicts kvs = int n" "cmd_index_ok n c" "key_total kvs + 1 < 2 ^ 63"
  shows "\<exists>kvs' r. kvs_step cr kvs c = Some (kvs', r) \<and> kvs_ok eq kvs' \<and> num_dicts kvs' = int n \<and>
    key_total kvs' \<le> key_total kvs + 1 \<and> set_step eq (kv_abs eq kvs) c = (kv_abs eq kvs', r)"
proof (cases c)
  case (KAdd i k)
  then have "index_ok kvs i" using assms(2,3) by (auto simp: index_ok_def)
  then obtain kvs' r where "kvstoreDictAddRaw cr kvs i k = Some (kvs', r)" "kvs_ok eq kvs'" "num_dicts kvs' = num_dicts kvs"
    "key_total kvs' \<le> key_total kvs + 1" "isl r \<longleftrightarrow> k \<in> kv_abs eq kvs (nat i)"
    "kv_abs eq kvs' = (kv_abs eq kvs)(nat i := kv_abs eq kvs (nat i) \<union> {x. eq k x})"
    using kvstoreDictAddRaw_ok [OF assms(1) _ assms(4)] by blast
  then show ?thesis using KAdd assms(2) by simp
next
  case (KDelete i k)
  then have "index_ok kvs i" using assms(2,3) by (auto simp: index_ok_def)
  then obtain kvs' r where "kvstoreDictDelete cr kvs i k = Some (kvs', r)" "kvs_ok eq kvs'" "num_dicts kvs' = num_dicts kvs"
    "key_total kvs' \<le> key_total kvs" "r = DICT_OK \<longleftrightarrow> k \<in> kv_abs eq kvs (nat i)"
    "kv_abs eq kvs' = (kv_abs eq kvs)(nat i := kv_abs eq kvs (nat i) - {x. eq k x})"
    using kvstoreDictDelete_ok [OF assms(1)] by blast
  then show ?thesis using KDelete assms(2) by simp
next
  case (KUnlink i k)
  then have "index_ok kvs i" using assms(2,3) by (auto simp: index_ok_def)
  then obtain kvs' r where "kvstoreUnlink cr kvs i k = Some (kvs', r)" "kvs_ok eq kvs'" "num_dicts kvs' = num_dicts kvs"
    "key_total kvs' \<le> key_total kvs" "r \<longleftrightarrow> k \<in> kv_abs eq kvs (nat i)"
    "kv_abs eq kvs' = (kv_abs eq kvs)(nat i := kv_abs eq kvs (nat i) - {x. eq k x})"
    using kvstoreUnlink_ok [OF assms(1)] by blast
  then show ?thesis using KUnlink assms(2) by simp
next
  case (KFind i k)
  then have "index_ok kvs i" using assms(2,3) by (auto simp: index_ok_def)
  then obtain kvs' r where "kvstoreDictFind cr kvs i k = Some (kvs', r)" "kvs_ok eq kvs'" "num_dicts kvs' = num_dicts kvs"
    "key_total kvs' = key_total kvs" "r \<noteq> None \<longleftrightarrow> k \<in> kv_abs eq kvs (nat i)" "kv_abs eq kvs' = kv_abs eq kvs"
    using kvstoreDictFind_ok [OF assms(1)] by blast
  then show ?thesis using KFind assms(2) by simp
next
  case KEmpty
  obtain kvs' where k: "kvstoreEmpty kvs = Some kvs'" "kvs_ok eq kvs'" "num_dicts kvs' = num_dicts kvs" "kbag kvs' = (\<lambda>_. {#})"
    using kvstoreEmpty_ok [OF assms(1)] by blast
  have "kv_abs eq kvs' = (\<lambda>_. {})" "key_total kvs' = 0" using k(4) by (simp_all add: kv_abs_def key_total_def fun_eq_iff)
  then show ?thesis using k KEmpty assms(2) by (intro exI [of _ kvs'] exI [of _ True]) simp
next
  case (KResize limit)
  then show ?thesis using kvstoreTryResizeDicts_ok [OF assms(1), of cr limit] kvs_same_ok kvs_same_abs [OF assms(1)] assms(2) by fastforce
next
  case (KExpand m te sk)
  then show ?thesis using kvstoreExpand_ok [OF assms(1), of cr m te sk] kvs_same_ok kvs_same_abs [OF assms(1)] assms(2) by fastforce
qed

lemma kvs_run_ok:
  assumes "kvs_ok eq kvs" "num_dicts kvs = int n" "\<forall>c \<in> set cs. cmd_index_ok n (snd c)" "key_total kvs + length cs < 2 ^ 63"
  shows "\<exists>kvs' rs. kvs_run kvs cs = Some (kvs', rs) \<and> kvs_ok eq kvs' \<and> num_dicts kvs' = int n \<and>
    set_run eq (kv_abs eq kvs) (map snd cs) = (kv_abs eq kvs', rs)"
  using assms
proof (induction cs arbitrary: kvs)
  case Nil
  then show ?case by simp
next
  case (Cons x cs)
  obtain cr c where x: "x = (cr, c)" by force
  have a: "cmd_index_ok n c" "key_total kvs + 1 < 2 ^ 63" using Cons.prems(3,4) x by auto
  obtain k1 r where k1: "kvs_step cr kvs c = Some (k1, r)" "kvs_ok eq k1" "num_dicts k1 = int n" "key_total k1 \<le> key_total kvs + 1"
    "set_step eq (kv_abs eq kvs) c = (kv_abs eq k1, r)" using kvs_step_ok [OF Cons.prems(1,2) a] by blast
  have "key_total k1 + length cs < 2 ^ 63" using k1(4) Cons.prems(4) by simp
  then obtain kvs' rs where "kvs_run k1 cs = Some (kvs', rs)" "kvs_ok eq kvs'" "num_dicts kvs' = int n"
    "set_run eq (kv_abs eq k1) (map snd cs) = (kv_abs eq kvs', rs)" using Cons.IH [OF k1(2,3)] Cons.prems(3) by auto
  then show ?case using x k1(1,5) by simp
qed

section \<open>The counters\<close>

text \<open>The number of keys of a set that the comparison tells apart.\<close>

definition num_keys :: "('k \<Rightarrow> 'k \<Rightarrow> bool) \<Rightarrow> 'k set \<Rightarrow> nat" where
  "num_keys eq S = card ((\<lambda>k. {x. eq k x}) ` S)"

lemma keys_distinct_addD:
  assumes "keys_distinct eq (add_mset p B)"
  shows "keys_distinct eq B"
proof -
  have "size (filter_mset (\<lambda>q. eq k (fst q)) B) \<le> size (filter_mset (\<lambda>q. eq k (fst q)) (add_mset p B))" for k by simp
  then show ?thesis using assms unfolding keys_distinct_def by (meson order_trans)
qed

lemma num_keys_present:
  assumes "type_ok T eq" "keys_distinct eq B"
  shows "num_keys eq (present eq B) = size B \<and> finite ((\<lambda>k. {x. eq k x}) ` present eq B)"
  using assms(2)
proof (induction B)
  case empty
  then show ?case by (simp add: num_keys_def)
next
  case (add p B)
  let ?c = "\<lambda>k. {x. eq k x}"
  note E = type_okD(2,3) [OF assms(1)]
  have r: "eq k k" for k using assms(1) by (simp add: type_ok_def equivp_reflp)
  have IH: "num_keys eq (present eq B) = size B" "finite (?c ` present eq B)" using add.IH keys_distinct_addD [OF add.prems] by auto
  have pr: "present eq (add_mset p B) = present eq B \<union> ?c (fst p)"
    using present_add [OF assms(1) r, of "fst p" "snd p" B] by simp
  have same: "?c y = ?c (fst p)" if "eq (fst p) y" for y
    using E(1) [of "fst p" y] E(2) [of "fst p" y] E(2) [of y "fst p"] that by blast
  have "?c (fst p) \<notin> ?c ` present eq B"
  proof
    assume "?c (fst p) \<in> ?c ` present eq B"
    then obtain k where k: "k \<in> present eq B" "?c k = ?c (fst p)" by auto
    then obtain q where q: "q \<in># B" "eq k (fst q)" by (auto simp: present_def absent_def)
    have "fst q \<in> ?c k" using q(2) by simp
    then have "eq (fst p) (fst q)" unfolding k(2) by simp
    then show False using keys_unique [OF add.prems r q(1)] by blast
  qed
  moreover have "?c ` present eq (add_mset p B) = insert (?c (fst p)) (?c ` present eq B)"
    unfolding pr image_Un using same r by blast
  ultimately show ?case using IH by (simp add: num_keys_def)
qed

lemma kvstoreSize_ok:
  assumes "kvs_ok eq kvs"
  shows "kvstoreSize kvs = Some (key_total kvs)"
proof (cases "num_dicts kvs = 1")
  case True
  then have n: "length (dicts kvs) = 1" using kvs_ok_len [OF assms] by simp
  have get: "kvstoreGetDict kvs 0 = Some (dicts kvs ! 0)" using n by (simp add: kvstoreGetDict_def)
  have tot: "key_total kvs = counts kvs 0" using n by (simp add: key_total_def)
  show ?thesis
  proof (cases "dicts kvs ! 0")
    case None
    then show ?thesis using True get tot n by (simp add: kvstoreSize_def kbag_def)
  next
    case (Some d)
    have "nat 0 < length (dicts kvs)" using n by simp
    then have "dict_ok eq d" using kvs_ok_table [OF assms _ Some] by simp
    then show ?thesis using True get tot n Some used_le_bag(2) [of eq d] by (simp add: kvstoreSize_def kbag_def)
  qed
qed (use assms in \<open>simp add: kvs_ok_def kvstoreSize_def\<close>)

lemma counts_num_keys:
  assumes "kvs_ok eq kvs"
  shows "num_keys eq (kv_abs eq kvs i) = counts kvs i"
proof (cases "i < length (dicts kvs) \<and> dicts kvs ! i \<noteq> None")
  case True
  then obtain d where d: "i < length (dicts kvs)" "dicts kvs ! i = Some d" by auto
  note k = kvs_ok_dict [OF assms d]
  have "type_ok (dtype d) eq" "keys_distinct eq (dict_bag d)" using kvs_ok_table [OF assms d] by (simp_all add: dict_ok_def)
  then show ?thesis using k(2) num_keys_present [of "dtype d" eq "dict_bag d"] by (simp add: kv_abs_def)
next
  case False
  then have "kbag kvs i = {#}" by (auto simp: kbag_def)
  then show ?thesis by (simp add: kv_abs_def num_keys_def)
qed

lemma kvs_counters:
  assumes "kvs_ok eq kvs" "num_dicts kvs = int n" "kv_abs eq kvs = S"
  shows "kvstoreSize kvs = Some (\<Sum>i < n. num_keys eq (S i))" "non_empty_dicts kvs = int (card {i. S i \<noteq> {}})"
    "i < n \<Longrightarrow> kvstoreDictSize kvs (int i) = Some (num_keys eq (S i))"
proof -
  have n: "length (dicts kvs) = n" using kvs_ok_len [OF assms(1)] assms(2) by simp
  have c: "num_keys eq (S i) = counts kvs i" for i using counts_num_keys [OF assms(1)] assms(3) by blast
  show "kvstoreSize kvs = Some (\<Sum>i < n. num_keys eq (S i))"
    using kvstoreSize_ok [OF assms(1)] n by (simp add: c key_total_def lessThan_atLeast0)
  have "counts kvs i \<noteq> 0 \<longleftrightarrow> S i \<noteq> {}" for i
  proof
    assume "S i \<noteq> {}"
    then show "counts kvs i \<noteq> 0" using assms(3) by (auto simp: kv_abs_def)
  next
    assume "counts kvs i \<noteq> 0"
    then show "S i \<noteq> {}" using c [of i] by (auto simp: num_keys_def)
  qed
  then show "non_empty_dicts kvs = int (card {i. S i \<noteq> {}})" using assms(1) by (simp add: kvs_ok_def)
  show "kvstoreDictSize kvs (int i) = Some (num_keys eq (S i))" if "i < n"
  proof (cases "dicts kvs ! i")
    case None
    then show ?thesis using that n c [of i] by (simp add: kvstoreDictSize_def kvstoreGetDict_def kbag_def)
  next
    case (Some d)
    then show ?thesis using that n c [of i] kvs_ok_table [OF assms(1) _ Some] used_le_bag(2) [of eq d]
      by (simp add: kvstoreDictSize_def kvstoreGetDict_def kbag_def)
  qed
qed

section \<open>The array of tables as a family of sets\<close>

text \<open>(C6) From its creation, with any flags and at most 16 bits of index, through any sequence of additions, deletions
  in one or two phases, lookups, clearing, resizing and expansion, the array of tables answers as a family of sets of keys
  does: no assertion fails, and a key is found in the table it was added to and in no other one.\<close>

theorem kvstore_refines_sets:
  assumes "type_ok T eq" "bits \<le> 16" "\<forall>c \<in> set cs. cmd_index_ok (2 ^ bits) (snd c)" "length cs < 2 ^ 63"
  shows "\<exists>kvs0 kvs rs. kvstoreCreate T bits fl = Some kvs0 \<and> kvs_run kvs0 cs = Some (kvs, rs) \<and> kvs_ok eq kvs \<and>
    set_run eq (\<lambda>_. {}) (map snd cs) = (kv_abs eq kvs, rs)"
proof -
  obtain kvs0 where k0: "kvstoreCreate T bits fl = Some kvs0" "kvs_ok eq kvs0" "num_dicts kvs0 = 2 ^ bits" "kbag kvs0 = (\<lambda>_. {#})"
    using kvstoreCreate_ok [OF assms(1,2)] by blast
  have "num_dicts kvs0 = int (2 ^ bits)" "key_total kvs0 + length cs < 2 ^ 63" using k0(3,4) assms(4) by (simp_all add: key_total_def)
  moreover have "kv_abs eq kvs0 = (\<lambda>_. {})" using k0(4) by (simp add: kv_abs_def fun_eq_iff)
  ultimately show ?thesis using kvs_run_ok [OF k0(2) _ assms(3)] k0(1) by auto
qed

theorem kvstore_refines_sets_witness:
  "\<exists>kvs0 kvs. kvstoreCreate type_nat 2 3 = Some kvs0 \<and>
     kvs_run kvs0 [(DICT_RESIZE_ENABLE, KAdd 1 7), (DICT_RESIZE_ENABLE, KAdd 2 7), (DICT_RESIZE_AVOID, KUnlink 1 7),
       (DICT_RESIZE_ENABLE, KResize 4), (DICT_RESIZE_ENABLE, KFind 1 7), (DICT_RESIZE_ENABLE, KFind 2 7)] =
     Some (kvs, [True, True, True, True, False, True])"
  using kvstore_refines_sets [OF type_nat_ok(1), of 2 "[(DICT_RESIZE_ENABLE, KAdd 1 7), (DICT_RESIZE_ENABLE, KAdd 2 7),
    (DICT_RESIZE_AVOID, KUnlink 1 7), (DICT_RESIZE_ENABLE, KResize 4), (DICT_RESIZE_ENABLE, KFind 1 7), (DICT_RESIZE_ENABLE, KFind 2 7)]" 3]
  by (auto simp: Let_def)

text \<open>(C26) The typing of the array of tables: after any sequence of calls the record is well-formed, and the counters that
  are updated with each key agree with the contents. The total is the number of distinct keys in all tables, without
  wrap-around, the size of a table is the number of its keys, and the number of non-empty tables is exact.\<close>

theorem kvstore_counters:
  assumes "type_ok T eq" "bits \<le> 16" "\<forall>c \<in> set cs. cmd_index_ok (2 ^ bits) (snd c)" "length cs < 2 ^ 63"
    "kvstoreCreate T bits fl = Some kvs0" "kvs_run kvs0 cs = Some (kvs, rs)"
  shows "kvs_shape eq kvs \<and> key_count kvs < 2 ^ 63 \<and>
    kvstoreSize kvs = Some (\<Sum>i < 2 ^ bits. num_keys eq (fst (set_run eq (\<lambda>_. {}) (map snd cs)) i)) \<and>
    non_empty_dicts kvs = int (card {i. fst (set_run eq (\<lambda>_. {}) (map snd cs)) i \<noteq> {}}) \<and>
    (\<forall>i < 2 ^ bits. kvstoreDictSize kvs (int i) = Some (num_keys eq (fst (set_run eq (\<lambda>_. {}) (map snd cs)) i)))"
proof -
  obtain kvs0' where k0: "kvstoreCreate T bits fl = Some kvs0'" "kvs_ok eq kvs0'" "num_dicts kvs0' = 2 ^ bits" "kbag kvs0' = (\<lambda>_. {#})"
    using kvstoreCreate_ok [OF assms(1,2)] by blast
  have e: "kvs0' = kvs0" using k0(1) assms(5) by simp
  have n: "num_dicts kvs0 = int (2 ^ bits)" "key_total kvs0 + length cs < 2 ^ 63" "kvs_ok eq kvs0"
    using k0 assms(4) e by (simp_all add: key_total_def)
  have "kv_abs eq kvs0 = (\<lambda>_. {})" using k0(4) e by (simp add: kv_abs_def fun_eq_iff)
  then have k: "kvs_ok eq kvs" "num_dicts kvs = int (2 ^ bits)" "kv_abs eq kvs = fst (set_run eq (\<lambda>_. {}) (map snd cs))"
    using kvs_run_ok [OF n(3,1) assms(3) n(2)] assms(6) by auto
  moreover have "kvs_shape eq kvs" "key_count kvs < 2 ^ 63" using k(1) by (simp_all add: kvs_ok_def)
  ultimately show ?thesis using kvs_counters [OF k] by simp
qed

theorem kvstore_counters_witness:
  "\<exists>kvs0 kvs rs. kvstoreCreate type_nat 2 3 = Some kvs0 \<and>
     kvs_run kvs0 [(DICT_RESIZE_ENABLE, KAdd 1 (7 :: nat)), (DICT_RESIZE_ENABLE, KAdd 2 7), (DICT_RESIZE_AVOID, KUnlink 1 7)] = Some (kvs, rs) \<and>
     kvstoreDictSize kvs (int 1) = Some 0 \<and> kvstoreDictSize kvs (int 2) = Some 1"
proof -
  let ?cs = "[(DICT_RESIZE_ENABLE, KAdd 1 (7 :: nat)), (DICT_RESIZE_ENABLE, KAdd 2 7), (DICT_RESIZE_AVOID, KUnlink 1 7)]"
  have ix: "\<forall>c \<in> set ?cs. cmd_index_ok (2 ^ 2) (snd c)" and ln: "length ?cs < 2 ^ 63" by simp_all
  obtain kvs0 where k0: "kvstoreCreate type_nat 2 3 = Some kvs0" "kvs_ok (=) kvs0" "num_dicts kvs0 = 2 ^ 2" "kbag kvs0 = (\<lambda>_. {#})"
    using kvstoreCreate_ok [OF type_nat_ok(1), of 2 3] by auto
  have "num_dicts kvs0 = int (2 ^ 2)" "key_total kvs0 + length ?cs < 2 ^ 63" using k0(3,4) by (simp_all add: key_total_def)
  then obtain kvs rs where k: "kvs_run kvs0 ?cs = Some (kvs, rs)" using kvs_run_ok [OF k0(2) _ ix] by blast
  have a: "\<forall>i < 2 ^ 2. kvstoreDictSize kvs (int i) = Some (num_keys (=) (fst (set_run (=) (\<lambda>_. {}) (map snd ?cs)) i))"
    using kvstore_counters [OF type_nat_ok(1) _ ix ln k0(1) k] by simp
  have "kvstoreDictSize kvs (int 1) = Some 0 \<and> kvstoreDictSize kvs (int 2) = Some 1"
    using a [rule_format, of 1] a [rule_format, of 2] by (simp add: num_keys_def)
  then show ?thesis using k0(1) k by blast
qed

end
