(* ===== verification/Kvstore_Scan.thy ===== *)
theory Kvstore_Scan
  imports Kvstore_Bulk
begin

text \<open>
  The order of the tables of \<^verbatim>\<open>kvstore.c\<close>: the search for a key by its rank in the tree of counts, the next non-empty
  table, the cursor that carries the index of a table, and the scan over all tables. The promise of \<open>dictScan\<close>
  carries over to the scan of the whole array.
\<close>

section \<open>Search by rank\<close>

definition key_sum :: "('k, 'v) kvstore \<Rightarrow> nat \<Rightarrow> nat" where
  "key_sum kvs n = sum (counts kvs) {0..<n}"

lemma key_sum_Suc: "key_sum kvs (Suc n) = key_sum kvs n + counts kvs n"
  by (simp add: key_sum_def)

lemma key_sum_mono: "m \<le> n \<Longrightarrow> key_sum kvs m \<le> key_sum kvs n"
  unfolding key_sum_def by (rule sum_mono2) auto

lemma key_sum_total: "kvs_ok eq kvs \<Longrightarrow> num_dicts kvs = int n \<Longrightarrow> key_sum kvs n = key_total kvs"
  using kvs_ok_len [of eq kvs] by (simp add: key_sum_def key_total_def)

lemma kvs_ok_tree:
  assumes "kvs_ok eq kvs" "num_dicts kvs \<noteq> 1"
  obtains t b where "dict_size_index kvs = Some t" "num_dicts_bits kvs = Suc b" "length (dicts kvs) = 2 ^ Suc b"
    "bit_ok t (counts kvs) (2 ^ Suc b)"
proof -
  have l: "length (dicts kvs) = 2 ^ num_dicts_bits kvs" "num_dicts kvs = 2 ^ num_dicts_bits kvs"
    using assms(1) by (simp_all add: kvs_ok_def kvs_shape_def)
  obtain t where "dict_size_index kvs = Some t" "bit_ok t (counts kvs) (length (dicts kvs))"
    using assms by (auto simp: kvs_ok_def tree_ok_def)
  moreover obtain b where "num_dicts_bits kvs = Suc b" using l(2) assms(2) by (cases "num_dicts_bits kvs") auto
  ultimately show thesis using that l(1) by simp
qed

lemma kvstoreFindDictIndexByKeyIndex_ok:
  assumes "kvs_ok eq kvs" "0 < target" "target \<le> key_total kvs"
  obtains s where "kvstoreFindDictIndexByKeyIndex kvs target = Some (int s)" "s < length (dicts kvs)"
    "key_sum kvs s < target" "target \<le> key_sum kvs (Suc s)"
proof (cases "num_dicts kvs = 1")
  case True
  then have n: "length (dicts kvs) = 1" using kvs_ok_len [OF assms(1)] by simp
  then have "key_total kvs = key_sum kvs (Suc 0)" by (simp add: key_total_def key_sum_def)
  then show thesis using that [of 0] True n assms kvstoreSize_ok [OF assms(1)]
    by (simp add: kvstoreFindDictIndexByKeyIndex_def) (simp add: key_sum_def)
next
  case False
  obtain t b where t: "dict_size_index kvs = Some t" "num_dicts_bits kvs = Suc b" "length (dicts kvs) = 2 ^ Suc b"
    "bit_ok t (counts kvs) (2 ^ Suc b)" using kvs_ok_tree [OF assms(1) False] .
  have le: "target \<le> sum (counts kvs) {0..<2 ^ Suc b}" using assms(3) t(3) by (simp add: key_total_def)
  obtain s where s: "bit_find_loop t (2 ^ Suc b) 0 target = Some (int s)" "s < 2 ^ Suc b"
    "key_sum kvs s < target" "target \<le> key_sum kvs (Suc s)"
    using bit_find_ok [OF t(4) assms(2) le] unfolding key_sum_def by blast
  have "kvstoreFindDictIndexByKeyIndex kvs target = bit_find_loop t (2 ^ Suc b) 0 target"
    using False assms(2,3) kvstoreSize_ok [OF assms(1)] t(1,2) by (simp add: kvstoreFindDictIndexByKeyIndex_def)
  then show thesis using that [of s] s t(3) by simp
qed

lemma cumulativeKeyCountRead_ok:
  assumes "kvs_ok eq kvs" "i < length (dicts kvs)"
  shows "cumulativeKeyCountRead kvs (int i) = Some (key_sum kvs (Suc i))"
proof (cases "num_dicts kvs = 1")
  case True
  then have "length (dicts kvs) = 1" using kvs_ok_len [OF assms(1)] by simp
  then show ?thesis using True assms kvstoreSize_ok [OF assms(1)] by (simp add: cumulativeKeyCountRead_def key_total_def key_sum_def)
next
  case False
  obtain t b where t: "dict_size_index kvs = Some t" "num_dicts_bits kvs = Suc b" "length (dicts kvs) = 2 ^ Suc b"
    "bit_ok t (counts kvs) (2 ^ Suc b)" using kvs_ok_tree [OF assms(1) False] .
  have "key_sum kvs (Suc i) \<le> key_sum kvs (length (dicts kvs))" using assms(2) by (intro key_sum_mono) simp
  also have "\<dots> = key_total kvs" by (simp add: key_sum_def key_total_def)
  also have "\<dots> < 2 ^ 63" using assms(1) by (simp add: kvs_ok_def)
  finally have "0 + sum (counts kvs) {0..<Suc i} < ULONG_WRAP" unfolding key_sum_def by simp
  moreover have "Suc i \<le> 2 ^ Suc b" using assms(2) t(3) by simp
  ultimately have "bit_read_loop t (int (Suc i)) 0 = Some (key_sum kvs (Suc i))"
    using bit_read_loop_ok [OF t(4)] unfolding key_sum_def by (simp only: add_0)
  then show ?thesis using False t(1) by (simp add: cumulativeKeyCountRead_def add.commute)
qed

text \<open>The table after a given one that is not empty, or -1.\<close>

lemma kvstoreGetNextNonEmptyDictIndex_ok:
  assumes "kvs_ok eq kvs" "i < length (dicts kvs)"
  obtains "kvstoreGetNextNonEmptyDictIndex kvs (int i) = Some (-1)" "\<forall>j > i. counts kvs j = 0"
  | s where "kvstoreGetNextNonEmptyDictIndex kvs (int i) = Some (int s)" "i < s" "s < length (dicts kvs)" "counts kvs s \<noteq> 0"
    "\<forall>j. i < j \<and> j < s \<longrightarrow> counts kvs j = 0"
proof (cases "num_dicts kvs = 1")
  case True
  then have n: "length (dicts kvs) = 1" using kvs_ok_len [OF assms(1)] by simp
  then have "counts kvs j = 0" if "i < j" for j using that by (simp add: kbag_def)
  then show thesis using that(1) True n assms(2) by (simp add: kvstoreGetNextNonEmptyDictIndex_def)
next
  case False
  let ?c = "key_sum kvs (Suc i)"
  have tot: "key_sum kvs (length (dicts kvs)) = key_total kvs" "key_total kvs < 2 ^ 63"
    using assms(1) by (simp_all add: key_sum_def key_total_def kvs_ok_def)
  have le: "?c \<le> key_total kvs" using key_sum_mono [of "Suc i" "length (dicts kvs)" kvs] assms(2) tot(1) by simp
  have m: "(?c + 1) mod ULONG_WRAP = ?c + 1" using le tot(2) by simp
  have call: "kvstoreGetNextNonEmptyDictIndex kvs (int i) =
      (if ?c + 1 \<le> key_total kvs then kvstoreFindDictIndexByKeyIndex kvs (?c + 1) else Some (-1))"
    using False cumulativeKeyCountRead_ok [OF assms] kvstoreSize_ok [OF assms(1)] m
    by (simp add: kvstoreGetNextNonEmptyDictIndex_def Let_def)
  show thesis
  proof (cases "?c + 1 \<le> key_total kvs")
    case True
    obtain s where s: "kvstoreFindDictIndexByKeyIndex kvs (?c + 1) = Some (int s)" "s < length (dicts kvs)"
      "key_sum kvs s < ?c + 1" "?c + 1 \<le> key_sum kvs (Suc s)" using kvstoreFindDictIndexByKeyIndex_ok [OF assms(1) _ True] by auto
    have "\<not> Suc s \<le> Suc i" using key_sum_mono [of "Suc s" "Suc i" kvs] s(4) by linarith
    then have lt: "i < s" by simp
    have "counts kvs j = 0" if "i < j \<and> j < s" for j
    proof -
      have "Suc i \<le> j" "Suc j \<le> s" using that by auto
      then show ?thesis using key_sum_mono [of "Suc i" j kvs] key_sum_mono [of "Suc j" s kvs] key_sum_Suc [of kvs j] s(3) by linarith
    qed
    moreover have "counts kvs s \<noteq> 0" using s(3,4) key_sum_Suc [of kvs s] key_sum_mono [of "Suc i" s kvs] lt by linarith
    ultimately show thesis using that(2) [OF _ lt s(2)] call True s(1) by simp
  next
    case False
    have "counts kvs j = 0" if "i < j" for j
    proof (cases "j < length (dicts kvs)")
      case True
      have "Suc i \<le> j" "Suc j \<le> length (dicts kvs)" using that True by auto
      then show ?thesis using key_sum_mono [of "Suc i" j kvs] key_sum_mono [of "Suc j" "length (dicts kvs)" kvs] key_sum_Suc [of kvs j]
        False tot(1) by linarith
    qed (simp add: kbag_def)
    then show thesis using that(1) call False by simp
  qed
qed

text \<open>(C25) The search in the tree of counts: for every rank of a key there is exactly one table that holds the key, counting
  the keys table by table, and the search in a logarithmic number of steps returns its index. So a random rank picks each
  table with a probability in proportion to its number of keys.\<close>

theorem kvstoreFindDictIndexByKeyIndex_correct:
  assumes "kvs_ok eq kvs" "0 < target" "target \<le> key_total kvs"
  shows "\<exists>s < length (dicts kvs). kvstoreFindDictIndexByKeyIndex kvs target = Some (int s) \<and>
    (\<forall>i. key_sum kvs i < target \<and> target \<le> key_sum kvs i + counts kvs i \<longleftrightarrow> i = s)"
proof -
  obtain s where s: "kvstoreFindDictIndexByKeyIndex kvs target = Some (int s)" "s < length (dicts kvs)"
    "key_sum kvs s < target" "target \<le> key_sum kvs (Suc s)" using kvstoreFindDictIndexByKeyIndex_ok [OF assms] .
  have "i = s" if "key_sum kvs i < target" "target \<le> key_sum kvs (Suc i)" for i
  proof (rule ccontr)
    assume "i \<noteq> s"
    then have "Suc i \<le> s \<or> Suc s \<le> i" by auto
    then show False using key_sum_mono [of "Suc i" s kvs] key_sum_mono [of "Suc s" i kvs] that s(3,4) by auto
  qed
  then have "\<forall>i. key_sum kvs i < target \<and> target \<le> key_sum kvs i + counts kvs i \<longleftrightarrow> i = s"
    using s(3,4) unfolding key_sum_Suc by blast
  then show ?thesis using s(1,2) by blast
qed

text \<open>An array of two tables; the second one is being rehashed.\<close>

definition kvs_moving :: "(nat, nat) kvstore" where
  "kvs_moving = \<lparr>flags = 3, kdtype = type_nat, dicts = [None, Some dict_moving], num_dicts = 2, num_dicts_bits = 1,
     resize_cursor = 0, allocated_dicts = 1, non_empty_dicts = 1, key_count = 2, dict_size_index = Some [0, 0, 2]\<rparr>"

lemma kvs_moving_bag: "kbag kvs_moving i = (if i = 1 then {#(5, Some 7), (8, Some 9)#} else {#})"
  by (auto simp: kbag_def kvs_moving_def dict_moving_def dict_bag_def tbl_def kv_def less_Suc_eq numeral_2_eq_2)

lemma kvs_moving_ok: "kvs_ok (=) kvs_moving"
proof -
  have "dict_inv (=) type_nat dict_moving" using dict_moving_ok(1) by (simp add: dict_inv_def dict_moving_def)
  then have "kvs_shape (=) kvs_moving" using type_nat_ok(1) by (simp add: kvs_shape_def kvs_moving_def)
  moreover have "bit_ok [0, 0, 2] (counts kvs_moving) (Suc (Suc 0))"
  proof -
    have "lb 1 = 1" "lb 2 = 2" using lb_eq [of 1 0 0] lb_eq [of 2 1 0] by simp_all
    moreover have "0 < i \<and> i \<le> 2 \<longleftrightarrow> i = 1 \<or> i = 2" for i :: nat by auto
    ultimately show ?thesis by (auto simp: bit_ok_def kvs_moving_bag numeral_2_eq_2)
  qed
  moreover have "{i. counts kvs_moving i \<noteq> 0} = {1}" by (auto simp: kvs_moving_bag)
  ultimately show ?thesis by (simp add: kvs_ok_def tree_ok_def key_total_def kvs_moving_bag) (simp add: kvs_moving_def)
qed

theorem kvstoreFindDictIndexByKeyIndex_correct_witness:
  "kvs_ok (=) kvs_moving \<and> kvstoreFindDictIndexByKeyIndex kvs_moving 2 = Some 1"
proof -
  have tot: "2 \<le> key_total kvs_moving" by (simp add: key_total_def kvs_moving_bag) (simp add: kvs_moving_def)
  obtain s where s: "kvstoreFindDictIndexByKeyIndex kvs_moving 2 = Some (int s)"
    "\<forall>i. key_sum kvs_moving i < 2 \<and> 2 \<le> key_sum kvs_moving i + counts kvs_moving i \<longleftrightarrow> i = s"
    using kvstoreFindDictIndexByKeyIndex_correct [OF kvs_moving_ok _ tot] by auto
  have a: "key_sum kvs_moving 1 < 2 \<and> 2 \<le> key_sum kvs_moving 1 + counts kvs_moving 1" by (simp add: key_sum_def kvs_moving_bag)
  have "1 = s" by (rule iffD1 [OF spec [OF s(2)] a])
  then show ?thesis using s(1) kvs_moving_ok by simp
qed

section \<open>The cursor\<close>

lemma cursor_roundtrip:
  assumes "num_dicts kvs = 2 ^ num_dicts_bits kvs" "num_dicts_bits kvs \<le> 16" "s < 2 ^ num_dicts_bits kvs"
    "\<forall>n \<ge> 64 - num_dicts_bits kvs. \<not> bit v n"
  shows "getAndClearDictIndexFromCursor kvs (addDictIndexToCursor kvs (int s) v) = (int s, v)"
proof (cases "num_dicts kvs = 1")
  case True
  then have "num_dicts_bits kvs = 0" using assms(1) by (metis one_less_power one_less_numeral_iff semiring_norm(76) neq0_conv less_irrefl)
  then show ?thesis using True assms(3) by (simp add: getAndClearDictIndexFromCursor_def addDictIndexToCursor_def)
next
  case False
  let ?b = "num_dicts_bits kvs"
  let ?c = "push_bit ?b v OR word_of_int (int s) :: 64 word"
  have m: "(word_of_int (num_dicts kvs - 1) :: 64 word) = mask ?b"
    unfolding assms(1) mask_eq_exp_minus_1 by simp
  have s: "\<not> bit s n" if "?b \<le> n" for n
    using assms(3) that by (metis bit_take_bit_iff not_le take_bit_nat_eq_self_iff)
  have lt: "?b + n < 64" if "bit v n" for n
  proof (rule ccontr)
    assume "\<not> ?b + n < 64"
    then show False using assms(4) that by simp
  qed
  have d: "drop_bit ?b ?c = v"
  proof (rule bit_word_eqI)
    fix n
    assume "n < LENGTH(64)"
    then show "bit (drop_bit ?b ?c) n = bit v n"
      using s [of "?b + n"] lt [of n]
      by (auto simp: bit_drop_bit_eq bit_or_iff bit_push_bit_iff bit_simps)
  qed
  have u: "?c AND mask ?b = of_nat s"
  proof (rule bit_word_eqI)
    fix n
    assume "n < LENGTH(64)"
    then show "bit (?c AND mask ?b) n = bit (of_nat s :: 64 word) n"
      using s [of n] by (cases "n < ?b") (auto simp: bit_simps)
  qed
  have "(2 :: nat) ^ ?b \<le> 2 ^ 16" using assms(2) by (intro power_increasing) auto
  then have "uint (of_nat s :: 64 word) = int s" using assms(3) by (simp add: unsigned_of_nat take_bit_nat_eq_self uint_nat unat_of_nat)
  then show ?thesis using False d u m by (simp add: getAndClearDictIndexFromCursor_def addDictIndexToCursor_def)
qed

lemma cursor_cong:
  "num_dicts a = num_dicts b \<Longrightarrow> num_dicts_bits a = num_dicts_bits b \<Longrightarrow>
   getAndClearDictIndexFromCursor a c = getAndClearDictIndexFromCursor b c"
  "num_dicts a = num_dicts b \<Longrightarrow> num_dicts_bits a = num_dicts_bits b \<Longrightarrow> addDictIndexToCursor a i c = addDictIndexToCursor b i c"
  by (simp_all add: getAndClearDictIndexFromCursor_def addDictIndexToCursor_def)

lemma cursor_0 [simp]: "getAndClearDictIndexFromCursor kvs 0 = (0, 0)"
  by (simp add: getAndClearDictIndexFromCursor_def)

lemma kvs_ok_bits: "kvs_ok eq kvs \<Longrightarrow> num_dicts kvs = 2 ^ num_dicts_bits kvs" "kvs_ok eq kvs \<Longrightarrow> length (dicts kvs) = 2 ^ num_dicts_bits kvs"
  "kvs_ok eq kvs \<Longrightarrow> num_dicts_bits kvs \<le> 16"
  by (simp_all add: kvs_ok_def kvs_shape_def)

lemma kvs_same_bits:
  assumes "kvs_ok eq kvs" "kvs_same eq kvs kvs'"
  shows "num_dicts_bits kvs' = num_dicts_bits kvs"
proof -
  have "(2 :: int) ^ num_dicts_bits kvs' = 2 ^ num_dicts_bits kvs"
    using kvs_ok_bits(1) [OF assms(1)] kvs_ok_bits(1) [OF kvs_same_ok(1) [OF assms(2)]] kvs_same_ok(2) [OF assms(2)] by simp
  then show ?thesis by simp
qed

section \<open>One call of the scan\<close>

text \<open>The index of a table and the cursor inside of it fit into one word.\<close>

definition tables_fit :: "('k, 'v) kvstore \<Rightarrow> bool" where
  "tables_fit kvs \<longleftrightarrow> (\<forall>d. Some d \<in> set (dicts kvs) \<longrightarrow> ht_size_exp d 0 \<le> int (64 - num_dicts_bits kvs))"

definition covers_to :: "('k, 'v) kvstore \<Rightarrow> nat \<Rightarrow> 64 word \<Rightarrow> 64 word \<Rightarrow> ('k, 'v) dictEntry list \<Rightarrow> bool" where
  "covers_to kvs j v v' es \<longleftrightarrow>
     (\<forall>d x. dicts kvs ! j = Some d \<and> x \<in> set (concat (tbl d 0)) \<union> set (concat (tbl d 1)) \<and>
       rank v \<le> hrank d x \<and> (v' = 0 \<or> hrank d x < rank v') \<longrightarrow> x \<in> set es)"

lemma scan_table:
  assumes "kvs_ok eq kvs" "j < length (dicts kvs)" "tables_fit kvs"
  obtains k1 v' es skip where
    "(case dicts kvs ! j of
        None \<Rightarrow> Some (kvs, 0, [], True)
      | Some d \<Rightarrow> do { (c, es) \<leftarrow> dictScan d v; kvs \<leftarrow> freeDictIfNeeded kvs (int j); Some (kvs, c, es, False) }) = Some (k1, v', es, skip)"
    "kvs_same eq kvs k1" "skip \<longrightarrow> v' = 0" "\<forall>n \<ge> 64 - num_dicts_bits kvs. \<not> bit v' n" "covers_to kvs j v v' es"
    "v' = 0 \<or> rank v < rank v'"
proof (cases "dicts kvs ! j")
  case None
  then show thesis using that [of kvs 0 "[]" True] kvs_same_refl [OF assms(1)] by (simp add: covers_to_def)
next
  case (Some d)
  have ok: "dict_ok eq d" using kvs_ok_table [OF assms(1,2) Some] .
  have "Some d \<in> set (dicts kvs)" using assms(2) Some by (metis nth_mem)
  then have fit: "ht_size_exp d 0 \<le> int (64 - num_dicts_bits kvs)" using assms(3) by (simp add: tables_fit_def)
  obtain v' es where s: "dictScan d v = Some (v', es)" "v' = 0 \<or> rank v < rank v'"
    "\<forall>x \<in> set (concat (tbl d 0)) \<union> set (concat (tbl d 1)). rank v \<le> hrank d x \<and> (v' = 0 \<or> hrank d x < rank v') \<longrightarrow> x \<in> set es"
    using dictScan_ok [OF ok, of v] by blast
  have "int j < num_dicts kvs" using assms(2) kvs_ok_len [OF assms(1)] by simp
  then obtain k1 where k1: "freeDictIfNeeded kvs (int j) = Some k1" "kvs_ok eq k1" "kbag k1 = kbag kvs" "num_dicts k1 = num_dicts kvs"
    using freeDictIfNeeded_ok [OF assms(1), of "int j"] by auto
  have "covers_to kvs j v v' es" using s(3) by (simp only: covers_to_def Some option.inject) blast
  moreover have "\<forall>n \<ge> 64 - num_dicts_bits kvs. \<not> bit v' n" using dictScan_cursor [OF ok s(1) fit] by blast
  ultimately show thesis using that [of k1 v' es False] s(1,2) k1 Some by (simp add: kvs_same_def)
qed

lemma kvstoreScan_ok:
  assumes "kvs_ok eq kvs" "tables_fit kvs" "getAndClearDictIndexFromCursor kvs c = (int j, v)" "j < length (dicts kvs)"
  obtains kvs' c' es v' where "kvstoreScan kvs c (-1) None = Some (kvs', c', es)" "kvs_same eq kvs kvs'" "covers_to kvs j v v' es"
    "v' = 0 \<or> rank v < rank v'"
    "v' = 0 \<and> c' = 0 \<and> (\<forall>i > j. counts kvs i = 0) \<or>
     v' = 0 \<and> c' \<noteq> 0 \<and> (\<exists>s < length (dicts kvs). getAndClearDictIndexFromCursor kvs c' = (int s, 0) \<and> j < s \<and>
       (\<forall>i. j < i \<and> i < s \<longrightarrow> counts kvs i = 0)) \<or>
     v' \<noteq> 0 \<and> c' \<noteq> 0 \<and> getAndClearDictIndexFromCursor kvs c' = (int j, v')"
proof -
  obtain k1 v' es skip where t:
    "(case dicts kvs ! j of
        None \<Rightarrow> Some (kvs, 0, [], True)
      | Some d \<Rightarrow> do { (c, es) \<leftarrow> dictScan d v; kvs \<leftarrow> freeDictIfNeeded kvs (int j); Some (kvs, c, es, False) }) = Some (k1, v', es, skip)"
    "kvs_same eq kvs k1" "skip \<longrightarrow> v' = 0" "\<forall>n \<ge> 64 - num_dicts_bits kvs. \<not> bit v' n" "covers_to kvs j v v' es"
    "v' = 0 \<or> rank v < rank v'" using scan_table [OF assms(1,4,2)] .
  have get: "kvstoreGetDict kvs (int j) = Some (dicts kvs ! j)" using assms(4) by (simp add: kvstoreGetDict_def)
  have call: "kvstoreScan kvs c (-1) None =
      (if v' = 0 then do { didx \<leftarrow> kvstoreGetNextNonEmptyDictIndex k1 (int j);
                           if didx = -1 then Some (k1, 0, es) else Some (k1, addDictIndexToCursor k1 didx v', es) }
       else Some (k1, addDictIndexToCursor k1 (int j) v', es))"
    using assms(3) get t(1,3) by (cases "dicts kvs ! j"; cases skip) (auto simp: kvstoreScan_def split: Option.bind_splits)
  note b = kvs_same_ok(2) [OF t(2)] kvs_same_bits [OF assms(1) t(2)]
  have cnt: "kbag k1 = kbag kvs" using t(2) by (simp add: kvs_same_def)
  have len: "length (dicts k1) = length (dicts kvs)"
    using kvs_ok_len [OF assms(1)] kvs_ok_len [OF kvs_same_ok(1) [OF t(2)]] b(1) by simp
  have rt: "getAndClearDictIndexFromCursor kvs (addDictIndexToCursor k1 (int s) v') = (int s, v')" if "s < length (dicts kvs)" for s
    unfolding cursor_cong(2) [OF b] using cursor_roundtrip [OF kvs_ok_bits(1,3) [OF assms(1)] _ t(4), of s] that kvs_ok_bits(2) [OF assms(1)]
    by simp
  show thesis
  proof (cases "v' = 0")
    case False
    have "addDictIndexToCursor k1 (int j) v' \<noteq> 0" using rt [OF assms(4)] False by auto
    then show thesis using that [OF _ t(2,5,6)] call False rt [OF assms(4)] by simp
  next
    case True
    have jl: "j < length (dicts k1)" using assms(4) len by simp
    show thesis
    proof (cases rule: kvstoreGetNextNonEmptyDictIndex_ok [OF kvs_same_ok(1) [OF t(2)] jl])
      case 1
      then show thesis using that [OF _ t(2,5,6)] call True cnt by simp
    next
      case (2 s)
      have sl: "s < length (dicts kvs)" using 2(3) len by simp
      have "addDictIndexToCursor k1 (int s) v' \<noteq> 0" using rt [OF sl] 2(2) by auto
      moreover have "kvstoreScan kvs c (-1) None = Some (k1, addDictIndexToCursor k1 (int s) v', es)" using call True 2(1) by simp
      ultimately show thesis using that [OF _ t(2,5,6)] True rt [OF sl] sl 2(2,5) cnt by auto
    qed
  qed
qed

section \<open>Full iterations\<close>

text \<open>
  The calls of an iteration over all tables, each with the state of the array at that moment and the entries it returned.
  Between the calls the array may change in any way.
\<close>

inductive kscan_trace :: "64 word \<Rightarrow> (('k, 'v) kvstore \<times> ('k, 'v) dictEntry list) list \<Rightarrow> bool" where
  kscan_end: "kvstoreScan kvs c (-1) None = Some (kvs', 0, es) \<Longrightarrow> kscan_trace c [(kvs, es)]"
| kscan_more: "kvstoreScan kvs c (-1) None = Some (kvs', c', es) \<Longrightarrow> c' \<noteq> 0 \<Longrightarrow> kscan_trace c' tr \<Longrightarrow> kscan_trace c ((kvs, es) # tr)"

definition holds_all_time :: "('k \<Rightarrow> 'k \<Rightarrow> bool) \<Rightarrow> ('k, 'v) dictType \<Rightarrow> nat \<Rightarrow> nat \<Rightarrow> 'k \<Rightarrow> ('k, 'v) kvstore \<Rightarrow> bool" where
  "holds_all_time eq T b i k kvs \<longleftrightarrow>
     kvs_ok eq kvs \<and> num_dicts_bits kvs = b \<and> kdtype kvs = T \<and> tables_fit kvs \<and> k \<in> kv_abs eq kvs i"

text \<open>The key is ahead of the cursor.\<close>

definition ahead :: "('k, 'v) kvstore \<Rightarrow> 64 word \<Rightarrow> nat \<Rightarrow> nat \<Rightarrow> bool" where
  "ahead kvs c i h \<longleftrightarrow>
     (let (j, v) = getAndClearDictIndexFromCursor kvs c in 0 \<le> j \<and> (nat j < i \<or> nat j = i \<and> rank v \<le> h))"

lemma ahead_cong: "kvs_ok eq a \<Longrightarrow> kvs_ok eq b \<Longrightarrow> num_dicts_bits a = num_dicts_bits b \<Longrightarrow> ahead a c i h = ahead b c i h"
  using cursor_cong(1) [of a b c] kvs_ok_bits(1) [of eq a] kvs_ok_bits(1) [of eq b] by (simp add: ahead_def)

lemma aheadD:
  assumes "ahead kvs c i h"
  obtains j v where "getAndClearDictIndexFromCursor kvs c = (int j, v)" "j < i \<or> j = i \<and> rank v \<le> h"
proof (cases "getAndClearDictIndexFromCursor kvs c")
  case (Pair j v)
  then show thesis using that [of "nat j" v] assms by (simp add: ahead_def)
qed

lemma aheadI: "getAndClearDictIndexFromCursor kvs c = (int j, v) \<Longrightarrow> j < i \<or> j = i \<and> rank v \<le> h \<Longrightarrow> ahead kvs c i h"
  by (simp add: ahead_def)

lemma scan_advance:
  assumes "holds_all_time eq T b i k kvs" "ahead kvs c i (rank (hashFunction T k))"
    "kvstoreScan kvs c (-1) None = Some (kvs', c', es)"
  shows "(\<exists>x \<in> set es. eq k (dictGetKey x)) \<or> c' \<noteq> 0 \<and> ahead kvs c' i (rank (hashFunction T k))"
proof -
  have k: "kvs_ok eq kvs" "tables_fit kvs" "kdtype kvs = T" "k \<in> kv_abs eq kvs i" using assms(1) by (auto simp: holds_all_time_def)
  have ne: "counts kvs i \<noteq> 0" using k(4) by (auto simp: kv_abs_def)
  then have il: "i < length (dicts kvs)" and id: "dicts kvs ! i \<noteq> None" by (auto simp: kbag_def split: if_splits option.splits)
  then obtain d where d: "dicts kvs ! i = Some d" by auto
  note di = kvs_ok_dict [OF k(1) il d]
  have dT: "dtype d = T" using di(1) k(3) by (simp add: dict_inv_def)
  have tT: "type_ok T eq" using kvs_ok_table [OF k(1) il d] dT unfolding dict_ok_def by simp
  have "holds_key eq k d" using k(4) di(2) by (simp add: holds_key_def kv_abs_def present_def absent_def)
  then obtain x where x: "x \<in> set (concat (tbl d 0)) \<union> set (concat (tbl d 1))" "eq k (dictGetKey x)" by (rule holds_key_entry)
  have hx: "hrank d x = rank (hashFunction T k)" using type_okD(4) [OF tT x(2)] dT by simp
  obtain j v where jv: "getAndClearDictIndexFromCursor kvs c = (int j, v)" "j < i \<or> j = i \<and> rank v \<le> rank (hashFunction T k)"
    using aheadD [OF assms(2)] .
  have jl: "j < length (dicts kvs)" using jv(2) il by linarith
  obtain kvs1 c1 es1 v' where r: "kvstoreScan kvs c (-1) None = Some (kvs1, c1, es1)" "kvs_same eq kvs kvs1" "covers_to kvs j v v' es1"
    "v' = 0 \<or> rank v < rank v'"
    "v' = 0 \<and> c1 = 0 \<and> (\<forall>i > j. counts kvs i = 0) \<or>
     v' = 0 \<and> c1 \<noteq> 0 \<and> (\<exists>s < length (dicts kvs). getAndClearDictIndexFromCursor kvs c1 = (int s, 0) \<and> j < s \<and>
       (\<forall>i. j < i \<and> i < s \<longrightarrow> counts kvs i = 0)) \<or>
     v' \<noteq> 0 \<and> c1 \<noteq> 0 \<and> getAndClearDictIndexFromCursor kvs c1 = (int j, v')"
    using kvstoreScan_ok [OF k(1,2) jv(1) jl] .
  have e: "c1 = c'" "es1 = es" using r(1) assms(3) by auto
  show ?thesis
  proof (cases "j = i \<and> (v' = 0 \<or> rank (hashFunction T k) < rank v')")
    case True
    then have "rank v \<le> hrank d x \<and> (v' = 0 \<or> hrank d x < rank v')" "dicts kvs ! j = Some d" using hx jv(2) d by auto
    then have "x \<in> set es" using r(3) x(1) unfolding covers_to_def e(2) by (elim allE [of _ d] allE [of _ x]) simp
    then show ?thesis using x(2) by blast
  next
    case False
    from r(5) show ?thesis unfolding e(1)
    proof (elim disjE conjE exE)
      assume "v' = 0" "\<forall>i > j. counts kvs i = 0"
      then show ?thesis using False jv(2) ne by blast
    next
      fix s
      assume s: "v' = 0" "c' \<noteq> 0" "getAndClearDictIndexFromCursor kvs c' = (int s, 0)" "\<forall>i. j < i \<and> i < s \<longrightarrow> counts kvs i = 0"
      have "j < i" using False jv(2) s(1) by blast
      then have "\<not> i < s" using s(4) ne by blast
      then have "s < i \<or> s = i \<and> rank 0 \<le> rank (hashFunction T k)" using rank_0 [of 0] by auto
      then show ?thesis using aheadI [OF s(3)] s(2) by blast
    next
      assume s: "v' \<noteq> 0" "c' \<noteq> 0" "getAndClearDictIndexFromCursor kvs c' = (int j, v')"
      have "j < i \<or> j = i \<and> rank v' \<le> rank (hashFunction T k)" using False jv(2) by auto
      then show ?thesis using aheadI [OF s(3)] s(2) by blast
    qed
  qed
qed

lemma kscan_trace_covers:
  assumes "kscan_trace c tr" "\<forall>(kvs, es) \<in> set tr. holds_all_time eq T b i k kvs"
    "ahead kvs0 c i (rank (hashFunction T k))" "kvs_ok eq kvs0" "num_dicts_bits kvs0 = b"
  shows "\<exists>(kvs, es) \<in> set tr. \<exists>x \<in> set es. eq k (dictGetKey x)"
  using assms(1-3)
proof (induction rule: kscan_trace.induct)
  case (kscan_end kvs c kvs' es)
  then have h: "holds_all_time eq T b i k kvs" by simp
  then have "ahead kvs c i (rank (hashFunction T k))"
    using ahead_cong [OF assms(4), of kvs c i] kscan_end(3) assms(5) by (simp add: holds_all_time_def)
  then show ?case using scan_advance [OF h _ kscan_end(1)] by simp
next
  case (kscan_more kvs c kvs' c' es tr)
  then have h: "holds_all_time eq T b i k kvs" by simp
  have eqv: "ahead kvs w i g = ahead kvs0 w i g" for w g
    using h ahead_cong [OF assms(4), of kvs] assms(5) by (simp add: holds_all_time_def)
  from scan_advance [OF h _ kscan_more.hyps(1)] kscan_more.prems(2) eqv
  consider "\<exists>x \<in> set es. eq k (dictGetKey x)" | "ahead kvs0 c' i (rank (hashFunction T k))" by blast
  then show ?case using kscan_more.IH kscan_more.prems(1) by cases auto
qed

text \<open>(C7) The promise of the scan over all tables, composed from the one of \<open>dictScan\<close>, the order of the non-empty tables
  and the cursor that carries the index of the table: in every full iteration, each key that is in its table at every
  call is returned by some call, although tables may be resized, created and freed and other keys may come and go between
  the calls. The size of a table may have as many bits as the index of the table leaves in the cursor.\<close>

theorem kvstoreScan_complete:
  assumes "kscan_trace 0 tr" "\<forall>(kvs, es) \<in> set tr. holds_all_time eq T b i k kvs"
  shows "\<exists>(kvs, es) \<in> set tr. \<exists>x \<in> set es. eq k (dictGetKey x)"
proof -
  obtain kvs es where "(kvs, es) \<in> set tr" using assms(1) by cases auto
  then have h: "kvs_ok eq kvs" "num_dicts_bits kvs = b" using assms(2) by (auto simp: holds_all_time_def)
  have "ahead kvs 0 i (rank (hashFunction T k))" using rank_0 [of 0] by (auto simp: ahead_def)
  then show ?thesis using kscan_trace_covers [OF assms _ h] by blast
qed

text \<open>An iteration over an array that does not change comes to an end.\<close>

lemma kscan_trace_exists:
  assumes "kvs_ok eq kvs" "tables_fit kvs" "getAndClearDictIndexFromCursor kvs c = (int j, v)" "j < length (dicts kvs)"
  shows "\<exists>tr. kscan_trace c tr \<and> (\<forall>(k, es) \<in> set tr. k = kvs)"
  using assms(3,4)
proof (induction "(length (dicts kvs) - j) * 2 ^ 64 + (2 ^ 64 - rank v)" arbitrary: c j v rule: less_induct)
  case less
  obtain k1 c' es v' where r: "kvstoreScan kvs c (-1) None = Some (k1, c', es)" "kvs_same eq kvs k1" "covers_to kvs j v v' es"
    "v' = 0 \<or> rank v < rank v'"
    "v' = 0 \<and> c' = 0 \<and> (\<forall>i > j. counts kvs i = 0) \<or>
     v' = 0 \<and> c' \<noteq> 0 \<and> (\<exists>s < length (dicts kvs). getAndClearDictIndexFromCursor kvs c' = (int s, 0) \<and> j < s \<and>
       (\<forall>i. j < i \<and> i < s \<longrightarrow> counts kvs i = 0)) \<or>
     v' \<noteq> 0 \<and> c' \<noteq> 0 \<and> getAndClearDictIndexFromCursor kvs c' = (int j, v')"
    using kvstoreScan_ok [OF assms(1,2) less.prems] .
  have more: ?case if a: "c' \<noteq> 0" "\<exists>tr. kscan_trace c' tr \<and> (\<forall>(k, es) \<in> set tr. k = kvs)"
  proof -
    obtain tr where "kscan_trace c' tr" "\<forall>(k, es) \<in> set tr. k = kvs" using a(2) by blast
    then show ?thesis using kscan_more [OF r(1) a(1)] by (intro exI [of _ "(kvs, es) # tr"]) auto
  qed
  from r(5) show ?case
  proof (elim disjE conjE exE)
    assume "c' = 0"
    then show ?thesis using kscan_end [of kvs c k1 es] r(1) by (intro exI [of _ "[(kvs, es)]"]) auto
  next
    fix s
    assume s: "c' \<noteq> 0" "s < length (dicts kvs)" "getAndClearDictIndexFromCursor kvs c' = (int s, 0)" "j < s"
    have "(length (dicts kvs) - s) * 2 ^ 64 + 2 ^ 64 \<le> (length (dicts kvs) - j) * 2 ^ 64" using s(2,4) by (simp add: diff_mult_distrib)
    then have "(length (dicts kvs) - s) * 2 ^ 64 + (2 ^ 64 - rank 0) < (length (dicts kvs) - j) * 2 ^ 64 + (2 ^ 64 - rank v)"
      using rank_less [of v] by linarith
    from less.hyps [OF this s(3,2)] show ?thesis by (rule more [OF s(1)])
  next
    assume s: "v' \<noteq> 0" "c' \<noteq> 0" "getAndClearDictIndexFromCursor kvs c' = (int j, v')"
    have "rank v < rank v'" using r(4) s(1) by blast
    then have "(length (dicts kvs) - j) * 2 ^ 64 + (2 ^ 64 - rank v') < (length (dicts kvs) - j) * 2 ^ 64 + (2 ^ 64 - rank v)"
      using rank_less [of v'] by linarith
    from less.hyps [OF this s(3) less.prems(2)] show ?thesis by (rule more [OF s(2)])
  qed
qed

theorem kvstoreScan_complete_witness:
  "\<exists>tr. kscan_trace 0 tr \<and> (\<forall>(kvs, es) \<in> set tr. kvs = kvs_moving) \<and> (\<exists>(kvs, es) \<in> set tr. \<exists>x \<in> set es. dictGetKey x = 8)"
proof -
  have fit: "tables_fit kvs_moving" by (simp add: tables_fit_def kvs_moving_def dict_moving_def)
  have "0 < length (dicts kvs_moving)" by (simp add: kvs_moving_def)
  then obtain tr where tr: "kscan_trace 0 tr" "\<forall>(kvs, es) \<in> set tr. kvs = kvs_moving"
    using kscan_trace_exists [OF kvs_moving_ok fit, of 0 0 0] by auto
  have "8 \<in> kv_abs (=) kvs_moving 1" by (simp add: kv_abs_def kvs_moving_bag present_def absent_def)
  then have "holds_all_time (=) type_nat 1 1 8 kvs_moving"
    using kvs_moving_ok fit unfolding holds_all_time_def by (simp add: kvs_moving_def)
  then have "\<forall>(kvs, es) \<in> set tr. holds_all_time (=) type_nat 1 1 8 kvs" using tr(2) by auto
  from kvstoreScan_complete [OF tr(1) this] tr show ?thesis by fastforce
qed

end
