(* ===== verification/Multi.thy ===== *)
theory Multi
  imports Redis_Prelude "HOL-Library.AList"
begin

unbundle bit_operations_syntax

text \<open>
  Transactions of \<^verbatim>\<open>multi.c\<close>: the queue of commands of a client, WATCH with the list of watched keys of a client and the
  lists of watchers of a key, the marking of clients when a key is touched or a database is replaced, and EXEC.

  A \<open>watchedKey\<close> lives in two lists at the same time, so it has an address in \<open>wks\<close>; \<open>None\<close> there is memory that was
  freed or never allocated, and an access to it makes the operation fail. The table \<^verbatim>\<open>watched_keys\<close> of a database is an
  association list, the lists of watchers are lists of addresses. The outer option is a failed assertion or a bad access.

  \<open>zm\<close> is the allocator for a watched key. \<open>call\<close> and \<open>acl\<close>, the execution of the current command of a client and the check
  of its permissions, are arguments of \<open>execCommand\<close>. Reference counts and the feed of the monitors are left out.
\<close>

section \<open>State\<close>

definition CLIENT_MULTI :: "64 word" where
  "CLIENT_MULTI = 8"

definition CLIENT_BLOCKED :: "64 word" where
  "CLIENT_BLOCKED = 16"

definition CLIENT_DIRTY_CAS :: "64 word" where
  "CLIENT_DIRTY_CAS = 32"

definition CLIENT_DIRTY_EXEC :: "64 word" where
  "CLIENT_DIRTY_EXEC = 4096"

definition CLIENT_DENY_BLOCKING :: "64 word" where
  "CLIENT_DENY_BLOCKING = 0x20000000000"

text \<open>The reserved identifier of the client that replays the append-only file, and the flags of \<^verbatim>\<open>call\<close>.\<close>

definition CLIENT_ID_AOF :: "64 word" where
  "CLIENT_ID_AOF = - 1"

definition CMD_CALL_NONE :: "32 word" where
  "CMD_CALL_NONE = 0"

definition CMD_CALL_FULL :: "32 word" where
  "CMD_CALL_FULL = 1 OR 2"

text \<open>The number of arguments \<^verbatim>\<open>argc\<close> is the length of \<open>argv\<close>; \<open>argv_len\<close> is the size of the array that holds them.\<close>

record ('c, 'k) multiCmd =
  mc_argv :: "'k list"
  mc_argv_len :: int
  mc_cmd :: 'c

record ('c, 'k) multiState =
  commands :: "('c, 'k) multiCmd list"
  cmd_flags :: "32 word"
  cmd_inv_flags :: "32 word"
  argv_len_sums :: "64 word"
  alloc_count :: nat

record 'k watchedKey =
  wk_key :: 'k
  wk_db :: nat
  wk_client :: nat
  wk_expired :: bool

record ('c, 'k) client =
  cid :: "64 word"
  cflags :: "64 word"
  cdb :: nat
  argv :: "'k list"
  argv_len :: int
  argv_len_sum :: "64 word"
  cmd :: 'c
  realcmd :: 'c
  mstate :: "('c, 'k) multiState"
  watched_keys :: "nat list"

record ('k, 'v) redisDb =
  db_keys :: "'k \<Rightarrow> 'v option"
  db_expires :: "'k \<Rightarrow> int option"
  db_watched :: "('k \<times> nat list) list"

record ('c, 'k, 'v) server =
  clients :: "nat \<Rightarrow> ('c, 'k) client"
  dbs :: "nat \<Rightarrow> ('k, 'v) redisDb"
  wks :: "nat \<Rightarrow> 'k watchedKey option"
  watching_clients :: int
  in_exec :: bool
  loading :: bool
  cmd_time :: int

definition set_client :: "('c, 'k, 'v) server \<Rightarrow> nat \<Rightarrow> ('c, 'k) client \<Rightarrow> ('c, 'k, 'v) server" where
  "set_client s c cl = s\<lparr>clients := (clients s)(c := cl)\<rparr>"

definition set_watched :: "('c, 'k, 'v) server \<Rightarrow> nat \<Rightarrow> ('k \<times> nat list) list \<Rightarrow> ('c, 'k, 'v) server" where
  "set_watched s db w = s\<lparr>dbs := (dbs s)(db := (dbs s db)\<lparr>db_watched := w\<rparr>)\<rparr>"

definition set_wk :: "('c, 'k, 'v) server \<Rightarrow> nat \<Rightarrow> 'k watchedKey option \<Rightarrow> ('c, 'k, 'v) server" where
  "set_wk s a w = s\<lparr>wks := (wks s)(a := w)\<rparr>"

definition add_flags :: "('c, 'k, 'v) server \<Rightarrow> nat \<Rightarrow> 64 word \<Rightarrow> ('c, 'k, 'v) server" where
  "add_flags s c f = set_client s c ((clients s c)\<lparr>cflags := cflags (clients s c) OR f\<rparr>)"

definition clear_flags :: "('c, 'k, 'v) server \<Rightarrow> nat \<Rightarrow> 64 word \<Rightarrow> ('c, 'k, 'v) server" where
  "clear_flags s c f = set_client s c ((clients s c)\<lparr>cflags := cflags (clients s c) AND NOT f\<rparr>)"

abbreviation has_flag :: "('c, 'k, 'v) server \<Rightarrow> nat \<Rightarrow> 64 word \<Rightarrow> bool" where
  "has_flag s c f \<equiv> cflags (clients s c) AND f \<noteq> 0"

text \<open>Expiration as in \<^verbatim>\<open>db.c\<close>: nothing expires while loading, and a negative time is no expiration.\<close>

definition keyIsExpiredInternal :: "('c, 'k, 'v) server \<Rightarrow> int \<Rightarrow> bool" where
  "keyIsExpiredInternal s when = (if loading s then False else if when < 0 then False else cmd_time s > when)"

definition keyIsExpired :: "('c, 'k, 'v) server \<Rightarrow> ('k, 'v) redisDb \<Rightarrow> 'k \<Rightarrow> bool" where
  "keyIsExpired s db key = keyIsExpiredInternal s (case db_expires db key of Some when \<Rightarrow> when | None \<Rightarrow> -1)"

section \<open>The queue\<close>

definition initClientMultiState :: "('c, 'k) multiState" where
  "initClientMultiState = \<lparr>commands = [], cmd_flags = 0, cmd_inv_flags = 0, argv_len_sums = 0, alloc_count = 0\<rparr>"

definition INT_MAX :: nat where
  "INT_MAX = 2147483647"

text \<open>The write behind the end of the array of commands is \<open>None\<close>.\<close>

definition queueMultiCommand :: "('c, 'k, 'v) server \<Rightarrow> nat \<Rightarrow> 64 word \<Rightarrow> ('c, 'k, 'v) server option" where
  "queueMultiCommand s c cflgs =
     (let cl = clients s c; ms = mstate cl in
      if has_flag s c (CLIENT_DIRTY_CAS OR CLIENT_DIRTY_EXEC) then Some s
      else
        do { let alloc = (if commands ms = [] then 2 else alloc_count ms);
             let alloc = (if length (commands ms) = alloc then (if alloc < INT_MAX div 2 then alloc * 2 else INT_MAX) else alloc);
             c_assert (length (commands ms) < alloc);
             let ms = \<lparr>commands = commands ms @ [\<lparr>mc_argv = argv cl, mc_argv_len = argv_len cl, mc_cmd = cmd cl\<rparr>],
               cmd_flags = cmd_flags ms OR ucast cflgs, cmd_inv_flags = cmd_inv_flags ms OR ucast (NOT cflgs),
               argv_len_sums = argv_len_sums ms + (argv_len_sum cl + 8 * of_nat (length (argv cl))), alloc_count = alloc\<rparr>;
             Some (set_client s c (cl\<lparr>mstate := ms, argv := [], argv_len_sum := 0, argv_len := 0\<rparr>)) })"

definition flagTransaction :: "('c, 'k, 'v) server \<Rightarrow> nat \<Rightarrow> ('c, 'k, 'v) server" where
  "flagTransaction s c = (if has_flag s c CLIENT_MULTI then add_flags s c CLIENT_DIRTY_EXEC else s)"

section \<open>Watching\<close>

fun already_watched :: "('c, 'k, 'v) server \<Rightarrow> nat \<Rightarrow> 'k \<Rightarrow> nat list \<Rightarrow> bool option" where
  "already_watched s db key [] = Some False"
| "already_watched s db key (a # as) =
     do { wk \<leftarrow> wks s a;
          if wk_db wk = db \<and> key = wk_key wk then Some True else already_watched s db key as }"

definition watchForKey :: "((nat \<Rightarrow> 'k watchedKey option) \<Rightarrow> nat) \<Rightarrow> ('c, 'k, 'v) server \<Rightarrow> nat \<Rightarrow> 'k \<Rightarrow> ('c, 'k, 'v) server option" where
  "watchForKey zm s c key =
     do { let s = (if watched_keys (clients s c) = [] then s\<lparr>watching_clients := watching_clients s + 1\<rparr> else s);
          let db = cdb (clients s c);
          dup \<leftarrow> already_watched s db key (watched_keys (clients s c));
          if dup then Some s
          else
            do { let s = (case map_of (db_watched (dbs s db)) key of
                            None \<Rightarrow> set_watched s db (AList.update key [] (db_watched (dbs s db)))
                          | Some _ \<Rightarrow> s);
                 let wk = \<lparr>wk_key = key, wk_db = db, wk_client = c, wk_expired = keyIsExpired s (dbs s db) key\<rparr>;
                 let a = zm (wks s);
                 let s = set_wk s a (Some wk);
                 let s = set_client s c ((clients s c)\<lparr>watched_keys := watched_keys (clients s c) @ [a]\<rparr>);
                 l \<leftarrow> map_of (db_watched (dbs s db)) key;
                 Some (set_watched s db (AList.update key (l @ [a]) (db_watched (dbs s db)))) } }"

text \<open>The list of watchers is reached through the node inside of the watched key; a node that is not in it is \<open>None\<close>.\<close>

fun unwatch_loop :: "('c, 'k, 'v) server \<Rightarrow> nat \<Rightarrow> nat list \<Rightarrow> ('c, 'k, 'v) server option" where
  "unwatch_loop s c [] = Some s"
| "unwatch_loop s c (a # as) =
     do { wk \<leftarrow> wks s a;
          let w = db_watched (dbs s (wk_db wk));
          l \<leftarrow> map_of w (wk_key wk);
          c_assert (a \<in> set l);
          let l = remove1 a l;
          let s = set_watched s (wk_db wk) (if l = [] then AList.delete (wk_key wk) w else AList.update (wk_key wk) l w);
          let s = set_client s c ((clients s c)\<lparr>watched_keys := remove1 a (watched_keys (clients s c))\<rparr>);
          unwatch_loop (set_wk s a None) c as }"

definition unwatchAllKeys :: "('c, 'k, 'v) server \<Rightarrow> nat \<Rightarrow> ('c, 'k, 'v) server option" where
  "unwatchAllKeys s c =
     (if watched_keys (clients s c) = [] then Some s
      else do { s \<leftarrow> unwatch_loop s c (watched_keys (clients s c)); Some (s\<lparr>watching_clients := watching_clients s - 1\<rparr>) })"

fun expired_loop :: "('c, 'k, 'v) server \<Rightarrow> nat list \<Rightarrow> bool option" where
  "expired_loop s [] = Some False"
| "expired_loop s (a # as) =
     do { wk \<leftarrow> wks s a;
          if wk_expired wk then expired_loop s as
          else if keyIsExpired s (dbs s (wk_db wk)) (wk_key wk) then Some True
          else expired_loop s as }"

definition isWatchedKeyExpired :: "('c, 'k, 'v) server \<Rightarrow> nat \<Rightarrow> bool option" where
  "isWatchedKeyExpired s c =
     (if watched_keys (clients s c) = [] then Some False else expired_loop s (watched_keys (clients s c)))"

text \<open>The iterator holds the rest of the list, of which only the current node is removed.\<close>

fun touch_loop :: "('c, 'k, 'v) server \<Rightarrow> nat \<Rightarrow> 'k \<Rightarrow> nat list \<Rightarrow> ('c, 'k, 'v) server option" where
  "touch_loop s db key [] = Some s"
| "touch_loop s db key (a # as) =
     do { wk \<leftarrow> wks s a;
          if wk_expired wk then
            (if db = wk_db wk \<and> key = wk_key wk \<and> db_keys (dbs s db) key = None then
               touch_loop (set_wk s a (Some (wk\<lparr>wk_expired := False\<rparr>))) db key as
             else Some s)
          else
            do { s \<leftarrow> unwatchAllKeys (add_flags s (wk_client wk) CLIENT_DIRTY_CAS) (wk_client wk);
                 touch_loop s db key as } }"

definition touchWatchedKey :: "('c, 'k, 'v) server \<Rightarrow> nat \<Rightarrow> 'k \<Rightarrow> ('c, 'k, 'v) server option" where
  "touchWatchedKey s db key =
     (if db_watched (dbs s db) = [] then Some s
      else (case map_of (db_watched (dbs s db)) key of None \<Rightarrow> Some s | Some l \<Rightarrow> touch_loop s db key l))"

fun touch_all_wks ::
  "('c, 'k, 'v) server \<Rightarrow> 'k \<Rightarrow> bool \<Rightarrow> ('k, 'v) redisDb option \<Rightarrow> nat list \<Rightarrow> ('c, 'k, 'v) server option" where
  "touch_all_wks s key exists_in_emptied replaced_with [] = Some s"
| "touch_all_wks s key exists_in_emptied replaced_with (a # as) =
     do { wk \<leftarrow> wks s a;
          s \<leftarrow> (if wk_expired wk then
                  (case replaced_with of
                     None \<Rightarrow> Some (set_wk s a (Some (wk\<lparr>wk_expired := False\<rparr>)))
                   | Some r \<Rightarrow>
                       if db_keys r key = None then Some (set_wk s a (Some (wk\<lparr>wk_expired := False\<rparr>)))
                       else if keyIsExpired s r key then Some s
                       else Some (add_flags s (wk_client wk) CLIENT_DIRTY_CAS))
                else if \<not> exists_in_emptied then
                  do { r \<leftarrow> replaced_with;
                       if keyIsExpired s r key then Some (set_wk s a (Some (wk\<lparr>wk_expired := True\<rparr>)))
                       else Some (add_flags s (wk_client wk) CLIENT_DIRTY_CAS) }
                else Some (add_flags s (wk_client wk) CLIENT_DIRTY_CAS));
          touch_all_wks s key exists_in_emptied replaced_with as }"

fun touch_all_loop ::
  "('c, 'k, 'v) server \<Rightarrow> nat \<Rightarrow> ('k, 'v) redisDb option \<Rightarrow> ('k \<times> nat list) list \<Rightarrow> ('c, 'k, 'v) server option" where
  "touch_all_loop s emptied replaced_with [] = Some s"
| "touch_all_loop s emptied replaced_with ((key, l) # es) =
     do { let exists_in_emptied = (db_keys (dbs s emptied) key \<noteq> None);
          s \<leftarrow> (if exists_in_emptied \<or> (case replaced_with of Some r \<Rightarrow> db_keys r key \<noteq> None | None \<Rightarrow> False)
                then touch_all_wks s key exists_in_emptied replaced_with l else Some s);
          touch_all_loop s emptied replaced_with es }"

definition touchAllWatchedKeysInDb ::
  "('c, 'k, 'v) server \<Rightarrow> nat \<Rightarrow> ('k, 'v) redisDb option \<Rightarrow> ('c, 'k, 'v) server option" where
  "touchAllWatchedKeysInDb s emptied replaced_with =
     (if db_watched (dbs s emptied) = [] then Some s
      else touch_all_loop s emptied replaced_with (db_watched (dbs s emptied)))"

section \<open>Commands\<close>

datatype acl_ret = ACL_OK | ACL_DENIED_CMD | ACL_DENIED_KEY | ACL_DENIED_CHANNEL | ACL_DENIED_AUTH

datatype 'r reply =
    ReplyOk
  | ReplyError string
  | ReplyNullArray
  | ReplyExecAbort
  | ReplyArray "(acl_ret + 'r) list"

definition discardTransaction :: "('c, 'k, 'v) server \<Rightarrow> nat \<Rightarrow> ('c, 'k, 'v) server option" where
  "discardTransaction s c =
     do { let s = set_client s c ((clients s c)\<lparr>mstate := initClientMultiState\<rparr>);
          let s = clear_flags s c (CLIENT_MULTI OR CLIENT_DIRTY_CAS OR CLIENT_DIRTY_EXEC);
          unwatchAllKeys s c }"

definition multiCommand :: "('c, 'k, 'v) server \<Rightarrow> nat \<Rightarrow> ('c, 'k, 'v) server \<times> 'r reply" where
  "multiCommand s c =
     (if has_flag s c CLIENT_MULTI then (s, ReplyError ''MULTI calls can not be nested'')
      else (add_flags s c CLIENT_MULTI, ReplyOk))"

definition discardCommand :: "('c, 'k, 'v) server \<Rightarrow> nat \<Rightarrow> (('c, 'k, 'v) server \<times> 'r reply) option" where
  "discardCommand s c =
     (if \<not> has_flag s c CLIENT_MULTI then Some (s, ReplyError ''DISCARD without MULTI'')
      else do { s \<leftarrow> discardTransaction s c; Some (s, ReplyOk) })"

fun watch_loop ::
  "((nat \<Rightarrow> 'k watchedKey option) \<Rightarrow> nat) \<Rightarrow> ('c, 'k, 'v) server \<Rightarrow> nat \<Rightarrow> 'k list \<Rightarrow> ('c, 'k, 'v) server option" where
  "watch_loop zm s c [] = Some s"
| "watch_loop zm s c (k # ks) = do { s \<leftarrow> watchForKey zm s c k; watch_loop zm s c ks }"

definition watchCommand ::
  "((nat \<Rightarrow> 'k watchedKey option) \<Rightarrow> nat) \<Rightarrow> ('c, 'k, 'v) server \<Rightarrow> nat \<Rightarrow> (('c, 'k, 'v) server \<times> 'r reply) option" where
  "watchCommand zm s c =
     (if has_flag s c CLIENT_MULTI then Some (s, ReplyError ''WATCH inside MULTI is not allowed'')
      else if has_flag s c CLIENT_DIRTY_CAS then Some (s, ReplyOk)
      else do { s \<leftarrow> watch_loop zm s c (tl (argv (clients s c))); Some (s, ReplyOk) })"

definition unwatchCommand :: "('c, 'k, 'v) server \<Rightarrow> nat \<Rightarrow> (('c, 'k, 'v) server \<times> 'r reply) option" where
  "unwatchCommand s c = do { s \<leftarrow> unwatchAllKeys s c; Some (clear_flags s c CLIENT_DIRTY_CAS, ReplyOk) }"

definition execCommandAbort :: "('c, 'k, 'v) server \<Rightarrow> nat \<Rightarrow> string \<Rightarrow> (('c, 'k, 'v) server \<times> 'r reply) option" where
  "execCommandAbort s c err =
     do { s \<leftarrow> discardTransaction s c;
          let err = (case err of e # es \<Rightarrow> if e = CHR ''-'' then es else err | [] \<Rightarrow> err);
          Some (s, ReplyError (''-EXECABORT Transaction discarded because of: '' @ err)) }"

text \<open>
  The loop over the queue reads the number of commands in each round and stores the arguments back after each call.
  \<open>call\<close> has the flags as its first argument.
\<close>

partial_function (option) exec_loop ::
  "(32 word \<Rightarrow> ('c, 'k, 'v) server \<Rightarrow> nat \<Rightarrow> ('c, 'k, 'v) server \<times> 'r) \<Rightarrow> (('c, 'k, 'v) server \<Rightarrow> nat \<Rightarrow> acl_ret) \<Rightarrow>
   ('c, 'k, 'v) server \<Rightarrow> nat \<Rightarrow> nat \<Rightarrow> (('c, 'k, 'v) server \<times> (acl_ret + 'r) list) option" where
  "exec_loop call acl s c j =
     (if j < length (commands (mstate (clients s c))) then
        do { let mc = commands (mstate (clients s c)) ! j;
             let s = set_client s c ((clients s c)\<lparr>argv := mc_argv mc, argv_len := mc_argv_len mc, cmd := mc_cmd mc, realcmd := mc_cmd mc\<rparr>);
             (s, r) \<leftarrow> (if acl s c \<noteq> ACL_OK then Some (s, Inl (acl s c))
                        else do { let (s, r) = call (if cid (clients s c) = CLIENT_ID_AOF then CMD_CALL_NONE else CMD_CALL_FULL) s c;
                                  c_assert (\<not> has_flag s c CLIENT_BLOCKED);
                                  Some (s, Inr r) });
             let cl = clients s c;
             let s = set_client s c (cl\<lparr>mstate := (mstate cl)\<lparr>commands :=
                       (commands (mstate cl))[j := \<lparr>mc_argv = argv cl, mc_argv_len = argv_len cl, mc_cmd = cmd cl\<rparr>]\<rparr>\<rparr>);
             (s, rs) \<leftarrow> exec_loop call acl s c (j + 1);
             Some (s, r # rs) }
      else Some (s, []))"

definition execCommand ::
  "(32 word \<Rightarrow> ('c, 'k, 'v) server \<Rightarrow> nat \<Rightarrow> ('c, 'k, 'v) server \<times> 'r) \<Rightarrow> (('c, 'k, 'v) server \<Rightarrow> nat \<Rightarrow> acl_ret) \<Rightarrow>
   ('c, 'k, 'v) server \<Rightarrow> nat \<Rightarrow> (('c, 'k, 'v) server \<times> 'r reply) option" where
  "execCommand call acl s c =
     (if \<not> has_flag s c CLIENT_MULTI then Some (s, ReplyError ''EXEC without MULTI'')
      else
        do { e \<leftarrow> isWatchedKeyExpired s c;
             let s = (if e then add_flags s c CLIENT_DIRTY_CAS else s);
             if has_flag s c (CLIENT_DIRTY_CAS OR CLIENT_DIRTY_EXEC) then
               do { let r = (if has_flag s c CLIENT_DIRTY_EXEC then ReplyExecAbort else ReplyNullArray);
                    s \<leftarrow> discardTransaction s c;
                    Some (s, r) }
             else
               do { let old = cflags (clients s c);
                    let s = add_flags s c CLIENT_DENY_BLOCKING;
                    s \<leftarrow> unwatchAllKeys s c;
                    let s = s\<lparr>in_exec := True\<rparr>;
                    let orig = clients s c;
                    (s, rs) \<leftarrow> exec_loop call acl s c 0;
                    let s = (if old AND CLIENT_DENY_BLOCKING = 0 then clear_flags s c CLIENT_DENY_BLOCKING else s);
                    let s = set_client s c ((clients s c)\<lparr>argv := argv orig, argv_len := argv_len orig, cmd := cmd orig, realcmd := cmd orig\<rparr>);
                    s \<leftarrow> discardTransaction s c;
                    Some (s\<lparr>in_exec := False\<rparr>, ReplyArray rs) } })"

end
