(* ===== verification/Multi_Inv.thy ===== *)
theory Multi_Inv
  imports Multi
begin

text \<open>
  The invariant of WATCH: the two lists that hold a watched key agree with the watched keys that are allocated, nothing
  leaks, and the counter of watching clients is exact. Every operation keeps it, so no operation reads memory that was
  freed and no assertion fails.
\<close>

section \<open>The invariant\<close>

definition watchers :: "('c, 'k, 'v) server \<Rightarrow> nat \<Rightarrow> 'k \<Rightarrow> nat list" where
  "watchers s db key = (case map_of (db_watched (dbs s db)) key of Some l \<Rightarrow> l | None \<Rightarrow> [])"

abbreviation watch_list :: "('c, 'k, 'v) server \<Rightarrow> nat \<Rightarrow> nat list" where
  "watch_list s c \<equiv> watched_keys (clients s c)"

definition links_ok :: "('c, 'k, 'v) server \<Rightarrow> bool" where
  "links_ok s \<longleftrightarrow>
     (\<forall>db. distinct (map fst (db_watched (dbs s db)))) \<and> (\<forall>db key. map_of (db_watched (dbs s db)) key \<noteq> Some []) \<and>
     (\<forall>db key. distinct (watchers s db key)) \<and> (\<forall>c. distinct (watch_list s c)) \<and>
     (\<forall>c a. a \<in> set (watch_list s c) \<longleftrightarrow> (\<exists>w. wks s a = Some w \<and> wk_client w = c)) \<and>
     (\<forall>db key a. a \<in> set (watchers s db key) \<longleftrightarrow> (\<exists>w. wks s a = Some w \<and> wk_db w = db \<and> wk_key w = key)) \<and>
     (\<forall>a b w v. wks s a = Some w \<and> wks s b = Some v \<and> wk_client w = wk_client v \<and> wk_db w = wk_db v \<and> wk_key w = wk_key v \<longrightarrow> a = b)"

definition watch_ok :: "('c, 'k, 'v) server \<Rightarrow> bool" where
  "watch_ok s \<longleftrightarrow> links_ok s \<and> finite {c. watch_list s c \<noteq> []} \<and> watching_clients s = int (card {c. watch_list s c \<noteq> []})"

lemma links_okD:
  assumes "links_ok s"
  shows "distinct (map fst (db_watched (dbs s db)))" "map_of (db_watched (dbs s db)) key \<noteq> Some []" "distinct (watchers s db key)"
    "distinct (watch_list s c)" "a \<in> set (watch_list s c) \<longleftrightarrow> (\<exists>w. wks s a = Some w \<and> wk_client w = c)"
    "a \<in> set (watchers s db key) \<longleftrightarrow> (\<exists>w. wks s a = Some w \<and> wk_db w = db \<and> wk_key w = key)"
    "wks s a = Some w \<Longrightarrow> wks s b = Some v \<Longrightarrow> wk_client w = wk_client v \<Longrightarrow> wk_db w = wk_db v \<Longrightarrow> wk_key w = wk_key v \<Longrightarrow> a = b"
  using assms unfolding links_ok_def by blast+

lemma links_ok_counter [simp]: "links_ok (s\<lparr>watching_clients := n\<rparr>) = links_ok s"
  unfolding links_ok_def watchers_def by simp

lemma set_client_fields [simp]:
  "clients (set_client s c cl) = (clients s)(c := cl)" "dbs (set_client s c cl) = dbs s" "wks (set_client s c cl) = wks s"
  "watching_clients (set_client s c cl) = watching_clients s" "in_exec (set_client s c cl) = in_exec s"
  "loading (set_client s c cl) = loading s" "cmd_time (set_client s c cl) = cmd_time s"
  by (simp_all add: set_client_def)

lemma set_watched_fields [simp]:
  "clients (set_watched s db w) = clients s" "dbs (set_watched s db w) = (dbs s)(db := (dbs s db)\<lparr>db_watched := w\<rparr>)"
  "wks (set_watched s db w) = wks s" "watching_clients (set_watched s db w) = watching_clients s"
  "in_exec (set_watched s db w) = in_exec s" "loading (set_watched s db w) = loading s" "cmd_time (set_watched s db w) = cmd_time s"
  by (simp_all add: set_watched_def)

lemma set_wk_fields [simp]:
  "clients (set_wk s a w) = clients s" "dbs (set_wk s a w) = dbs s" "wks (set_wk s a w) = (wks s)(a := w)"
  "watching_clients (set_wk s a w) = watching_clients s" "in_exec (set_wk s a w) = in_exec s"
  "loading (set_wk s a w) = loading s" "cmd_time (set_wk s a w) = cmd_time s"
  by (simp_all add: set_wk_def)

text \<open>States with the same watched keys.\<close>

definition same_watch :: "('c, 'k, 'v) server \<Rightarrow> ('c, 'k, 'v) server \<Rightarrow> bool" where
  "same_watch s s' \<longleftrightarrow>
     (\<forall>c. watch_list s' c = watch_list s c) \<and> (\<forall>db. db_watched (dbs s' db) = db_watched (dbs s db)) \<and>
     (\<forall>a. map_option (\<lambda>w. w\<lparr>wk_expired := False\<rparr>) (wks s' a) = map_option (\<lambda>w. w\<lparr>wk_expired := False\<rparr>) (wks s a)) \<and>
     watching_clients s' = watching_clients s"

lemma same_watch_wk:
  assumes "same_watch s s'" "wks s' a = Some w"
  obtains v where "wks s a = Some v" "wk_client v = wk_client w" "wk_db v = wk_db w" "wk_key v = wk_key w"
proof -
  have "map_option (\<lambda>w. w\<lparr>wk_expired := False\<rparr>) (wks s a) = Some (w\<lparr>wk_expired := False\<rparr>)"
    using assms unfolding same_watch_def by (metis option.simps(9))
  then obtain v where v: "wks s a = Some v" "v\<lparr>wk_expired := False\<rparr> = w\<lparr>wk_expired := False\<rparr>" by (cases "wks s a") auto
  show thesis using that [OF v(1)] v(2) by (cases v; cases w) simp
qed

lemma same_watch_sym: "same_watch s s' \<Longrightarrow> same_watch s' s"
  by (simp add: same_watch_def)

lemma same_watch_ex:
  assumes "same_watch s s'"
  shows "(\<exists>w. wks s' a = Some w \<and> P (wk_client w) (wk_db w) (wk_key w)) \<longleftrightarrow> (\<exists>w. wks s a = Some w \<and> P (wk_client w) (wk_db w) (wk_key w))"
proof
  assume "\<exists>w. wks s' a = Some w \<and> P (wk_client w) (wk_db w) (wk_key w)"
  then obtain w where w: "wks s' a = Some w" "P (wk_client w) (wk_db w) (wk_key w)" by blast
  obtain v where "wks s a = Some v" "wk_client v = wk_client w" "wk_db v = wk_db w" "wk_key v = wk_key w"
    using same_watch_wk [OF assms w(1)] .
  then show "\<exists>w. wks s a = Some w \<and> P (wk_client w) (wk_db w) (wk_key w)" using w(2) by auto
next
  assume "\<exists>w. wks s a = Some w \<and> P (wk_client w) (wk_db w) (wk_key w)"
  then obtain w where w: "wks s a = Some w" "P (wk_client w) (wk_db w) (wk_key w)" by blast
  obtain v where "wks s' a = Some v" "wk_client v = wk_client w" "wk_db v = wk_db w" "wk_key v = wk_key w"
    using same_watch_wk [OF same_watch_sym [OF assms] w(1)] .
  then show "\<exists>w. wks s' a = Some w \<and> P (wk_client w) (wk_db w) (wk_key w)" using w(2) by auto
qed

lemma watch_ok_same:
  assumes "watch_ok s" "same_watch s s'"
  shows "watch_ok s'"
proof -
  have l: "links_ok s" using assms(1) by (simp add: watch_ok_def)
  have e: "watch_list s' c = watch_list s c" "db_watched (dbs s' db) = db_watched (dbs s db)" for c db
    using assms(2) by (simp_all add: same_watch_def)
  have w: "watchers s' db key = watchers s db key" for db key by (simp add: watchers_def e)
  have "links_ok s'" unfolding links_ok_def e w
  proof (intro conjI allI impI)
    fix c a
    show "a \<in> set (watch_list s c) \<longleftrightarrow> (\<exists>w. wks s' a = Some w \<and> wk_client w = c)"
      using same_watch_ex [OF assms(2), of a "\<lambda>x _ _. x = c"] links_okD(5) [OF l] by simp
  next
    fix db key a
    show "a \<in> set (watchers s db key) \<longleftrightarrow> (\<exists>w. wks s' a = Some w \<and> wk_db w = db \<and> wk_key w = key)"
      using same_watch_ex [OF assms(2), of a "\<lambda>_ x y. x = db \<and> y = key"] links_okD(6) [OF l] by simp
  next
    fix a b w v
    assume h: "wks s' a = Some w \<and> wks s' b = Some v \<and> wk_client w = wk_client v \<and> wk_db w = wk_db v \<and> wk_key w = wk_key v"
    obtain w1 where w1: "wks s a = Some w1" "wk_client w1 = wk_client w" "wk_db w1 = wk_db w" "wk_key w1 = wk_key w"
      using same_watch_wk [OF assms(2)] h by blast
    obtain v1 where v1: "wks s b = Some v1" "wk_client v1 = wk_client v" "wk_db v1 = wk_db v" "wk_key v1 = wk_key v"
      using same_watch_wk [OF assms(2)] h by blast
    show "a = b" by (rule links_okD(7) [OF l w1(1) v1(1)]) (use w1 v1 h in auto)
  qed (use links_okD [OF l] in auto)
  then show ?thesis using assms by (simp add: watch_ok_def same_watch_def)
qed

section \<open>Removing the watched keys of a client\<close>

text \<open>What stays the same when watched keys come and go.\<close>

definition same_data :: "('c, 'k, 'v) server \<Rightarrow> ('c, 'k, 'v) server \<Rightarrow> bool" where
  "same_data s s' \<longleftrightarrow>
     (\<forall>db. db_keys (dbs s' db) = db_keys (dbs s db) \<and> db_expires (dbs s' db) = db_expires (dbs s db)) \<and>
     loading s' = loading s \<and> cmd_time s' = cmd_time s \<and> in_exec s' = in_exec s"

lemma same_data_refl [simp]: "same_data s s"
  by (simp add: same_data_def)

lemma same_data_trans: "same_data a b \<Longrightarrow> same_data b c \<Longrightarrow> same_data a c"
  by (simp add: same_data_def)

lemma links_ok_unwatch:
  assumes l: "links_ok s" and a: "a \<in> set (watch_list s c)" and w: "wks s a = Some w" and wl: "map_of (db_watched (dbs s (wk_db w))) (wk_key w) = Some l"
  defines "m \<equiv> db_watched (dbs s (wk_db w))" and "l' \<equiv> remove1 a l"
  defines "s1 \<equiv> set_watched s (wk_db w) (if l' = [] then AList.delete (wk_key w) m else AList.update (wk_key w) l' m)"
  defines "s2 \<equiv> set_wk (set_client s1 c ((clients s1 c)\<lparr>watched_keys := remove1 a (watch_list s1 c)\<rparr>)) a None"
  shows "links_ok s2"
proof -
  have lw: "watchers s (wk_db w) (wk_key w) = l" using wl by (simp add: watchers_def)
  have dl: "distinct l" using links_okD(3) [OF l, of "wk_db w" "wk_key w"] lw by simp
  have cl: "wk_client w = c" using links_okD(5) [OF l] a w by auto
  have w2: "wks s2 = (wks s)(a := None)" by (simp add: s2_def s1_def)
  have mo: "map_of (if l' = [] then AList.delete (wk_key w) m else AList.update (wk_key w) l' m) =
      (map_of m)(wk_key w := if l' = [] then None else Some l')" by (simp add: update_conv' delete_conv')
  have M: "map_of (db_watched (dbs s2 db)) key = (if db = wk_db w \<and> key = wk_key w then if l' = [] then None else Some l'
      else map_of (db_watched (dbs s db)) key)" for db key
    using mo by (simp add: s2_def s1_def m_def)
  have W: "watchers s2 db key = (if db = wk_db w \<and> key = wk_key w then l' else watchers s db key)" for db key
    unfolding watchers_def M by simp
  have L: "watch_list s2 d = (if d = c then remove1 a (watch_list s c) else watch_list s d)" for d
    by (simp add: s2_def s1_def)
  show ?thesis unfolding links_ok_def
  proof (intro conjI allI impI)
    fix db
    show "distinct (map fst (db_watched (dbs s2 db)))"
      using links_okD(1) [OF l] by (simp add: s2_def s1_def m_def distinct_update distinct_delete)
  next
    fix db key
    show "map_of (db_watched (dbs s2 db)) key \<noteq> Some []" unfolding M using links_okD(2) [OF l] by simp
    show "distinct (watchers s2 db key)" unfolding W l'_def using links_okD(3) [OF l] dl by simp
  next
    fix d
    show "distinct (watch_list s2 d)" unfolding L using links_okD(4) [OF l] by simp
  next
    fix d b
    have "b \<in> set (remove1 a (watch_list s c)) \<longleftrightarrow> b \<in> set (watch_list s c) \<and> b \<noteq> a" using links_okD(4) [OF l, of c] by simp
    moreover have "b \<noteq> a" if "b \<in> set (watch_list s d)" "d \<noteq> c" using that links_okD(5) [OF l] w cl by auto
    ultimately show "b \<in> set (watch_list s2 d) \<longleftrightarrow> (\<exists>w. wks s2 b = Some w \<and> wk_client w = d)"
      unfolding L w2 using links_okD(5) [OF l] by auto
  next
    fix db key b
    have "b \<in> set l' \<longleftrightarrow> b \<in> set (watchers s (wk_db w) (wk_key w)) \<and> b \<noteq> a" unfolding l'_def lw using dl by simp
    moreover have "b \<noteq> a" if "b \<in> set (watchers s db key)" "\<not> (db = wk_db w \<and> key = wk_key w)" using that links_okD(6) [OF l] w by auto
    ultimately show "b \<in> set (watchers s2 db key) \<longleftrightarrow> (\<exists>w. wks s2 b = Some w \<and> wk_db w = db \<and> wk_key w = key)"
      unfolding W w2 using links_okD(6) [OF l] by auto
  next
    fix b d u v
    assume "wks s2 b = Some u \<and> wks s2 d = Some v \<and> wk_client u = wk_client v \<and> wk_db u = wk_db v \<and> wk_key u = wk_key v"
    then show "b = d" unfolding w2 using links_okD(7) [OF l, of b u d v] by (auto split: if_splits)
  qed
qed

definition unwatched :: "('c, 'k, 'v) server \<Rightarrow> nat \<Rightarrow> ('c, 'k, 'v) server \<Rightarrow> bool" where
  "unwatched s c s' \<longleftrightarrow>
     clients s' = (clients s)(c := (clients s c)\<lparr>watched_keys := []\<rparr>) \<and>
     wks s' = (\<lambda>a. if a \<in> set (watch_list s c) then None else wks s a) \<and> same_data s s'"

lemma unwatch_loop_ok:
  assumes "links_ok s" "watch_list s c = as"
  shows "\<exists>s'. unwatch_loop s c as = Some s' \<and> links_ok s' \<and> unwatched s c s' \<and> watching_clients s' = watching_clients s"
  using assms
proof (induction as arbitrary: s)
  case Nil
  then have "(clients s c)\<lparr>watched_keys := []\<rparr> = clients s c" by (cases "clients s c") simp
  then show ?case using Nil by (auto simp: unwatched_def fun_eq_iff)
next
  case (Cons a as)
  have a: "a \<in> set (watch_list s c)" using Cons.prems(2) by simp
  then obtain w where w: "wks s a = Some w" "wk_client w = c" using links_okD(5) [OF Cons.prems(1)] by blast
  have "a \<in> set (watchers s (wk_db w) (wk_key w))" using links_okD(6) [OF Cons.prems(1)] w(1) by auto
  then obtain l where l: "map_of (db_watched (dbs s (wk_db w))) (wk_key w) = Some l" "a \<in> set l"
    by (cases "map_of (db_watched (dbs s (wk_db w))) (wk_key w)") (auto simp: watchers_def)
  define s1 where "s1 = set_watched s (wk_db w) (if remove1 a l = [] then AList.delete (wk_key w) (db_watched (dbs s (wk_db w)))
    else AList.update (wk_key w) (remove1 a l) (db_watched (dbs s (wk_db w))))"
  define s2 where "s2 = set_wk (set_client s1 c ((clients s1 c)\<lparr>watched_keys := remove1 a (watch_list s1 c)\<rparr>)) a None"
  have ok: "links_ok s2" unfolding s2_def s1_def by (rule links_ok_unwatch [OF Cons.prems(1) a w(1) l(1)])
  have c2: "clients s2 = (clients s)(c := (clients s c)\<lparr>watched_keys := as\<rparr>)" using Cons.prems(2) by (simp add: s2_def s1_def)
  have d2: "same_data s s2" by (simp add: same_data_def s2_def s1_def)
  have "watch_list s2 c = as" using c2 by simp
  then obtain s' where s': "unwatch_loop s2 c as = Some s'" "links_ok s'" "unwatched s2 c s'" "watching_clients s' = watching_clients s2"
    using Cons.IH [OF ok] by blast
  have "unwatch_loop s c (a # as) = unwatch_loop s2 c as" using w(1) l by (simp add: s2_def s1_def Let_def)
  moreover have "unwatched s c s'"
    using s'(3) same_data_trans [OF d2] c2 Cons.prems(2) by (auto simp: unwatched_def fun_eq_iff s2_def s1_def)
  moreover have "watching_clients s' = watching_clients s" using s'(4) by (simp add: s2_def s1_def)
  ultimately show ?case using s'(1,2) by simp
qed

lemma unwatchAllKeys_ok:
  assumes "watch_ok s"
  obtains s' where "unwatchAllKeys s c = Some s'" "watch_ok s'" "unwatched s c s'"
proof (cases "watch_list s c = []")
  case True
  then have "(clients s c)\<lparr>watched_keys := []\<rparr> = clients s c" by (cases "clients s c") simp
  then have "unwatched s c s" using True by (auto simp: unwatched_def fun_eq_iff)
  then show thesis using that [of s] True assms by (simp add: unwatchAllKeys_def)
next
  case False
  have l: "links_ok s" and f: "finite {c. watch_list s c \<noteq> []}" and n: "watching_clients s = int (card {c. watch_list s c \<noteq> []})"
    using assms by (simp_all add: watch_ok_def)
  obtain s1 where s1: "unwatch_loop s c (watch_list s c) = Some s1" "links_ok s1" "unwatched s c s1" "watching_clients s1 = watching_clients s"
    using unwatch_loop_ok [OF l refl, of c] by blast
  define s' where "s' = s1\<lparr>watching_clients := watching_clients s1 - 1\<rparr>"
  have "links_ok s'" using s1(2) by (simp add: s'_def)
  moreover have set: "{d. watch_list s' d \<noteq> []} = {d. watch_list s d \<noteq> []} - {c}"
    using s1(3) by (auto simp: s'_def unwatched_def)
  moreover have "c \<in> {d. watch_list s d \<noteq> []}" using False by simp
  then have "int (card ({d. watch_list s d \<noteq> []} - {c})) = int (card {d. watch_list s d \<noteq> []}) - 1"
    using card.remove [OF f, of c] by simp
  ultimately have "watch_ok s'" using f n s1(4) unfolding watch_ok_def by (simp add: s'_def)
  moreover have "unwatched s c s'" using s1(3) by (simp add: unwatched_def s'_def same_data_def)
  ultimately show thesis using that [of s'] False s1(1) by (simp add: unwatchAllKeys_def s'_def)
qed

section \<open>Marking clients\<close>

lemma add_flags_client: "clients (add_flags s c f) = (clients s)(c := (clients s c)\<lparr>cflags := cflags (clients s c) OR f\<rparr>)"
  by (simp add: add_flags_def)

lemma clear_flags_client: "clients (clear_flags s c f) = (clients s)(c := (clients s c)\<lparr>cflags := cflags (clients s c) AND NOT f\<rparr>)"
  by (simp add: clear_flags_def)

lemma flags_fields [simp]:
  "wks (add_flags s c f) = wks s" "dbs (add_flags s c f) = dbs s" "loading (add_flags s c f) = loading s"
  "cmd_time (add_flags s c f) = cmd_time s" "wks (clear_flags s c f) = wks s" "dbs (clear_flags s c f) = dbs s"
  "loading (clear_flags s c f) = loading s" "cmd_time (clear_flags s c f) = cmd_time s" "in_exec (add_flags s c f) = in_exec s"
  "in_exec (clear_flags s c f) = in_exec s"
  by (simp_all add: add_flags_def clear_flags_def)

lemma same_watch_flags [simp]: "same_watch s (add_flags s c f)" "same_watch s (clear_flags s c f)"
  by (simp_all add: same_watch_def add_flags_def clear_flags_def)

lemma same_data_flags [simp]: "same_data s (add_flags s c f)" "same_data s (clear_flags s c f)"
  by (simp_all add: same_data_def add_flags_def clear_flags_def)

lemma or_and_nonzero: "(x :: 64 word) AND m \<noteq> 0 \<Longrightarrow> (x OR y) AND m \<noteq> 0"
  by (simp add: bit.conj_disj_distrib2 or_eq_0_iff)

lemma or_dirty: "(x OR CLIENT_DIRTY_CAS) AND CLIENT_DIRTY_CAS \<noteq> 0"
  by (simp add: bit.conj_disj_distrib2 or_eq_0_iff CLIENT_DIRTY_CAS_def)

text \<open>At most the mark for a touched key was added.\<close>

definition dirtied :: "('c, 'k, 'v) server \<Rightarrow> ('c, 'k, 'v) server \<Rightarrow> bool" where
  "dirtied s s' \<longleftrightarrow>
     (\<forall>c. \<exists>l f. clients s' c = (clients s c)\<lparr>watched_keys := l, cflags := f\<rparr> \<and>
        (f = cflags (clients s c) \<or> f = cflags (clients s c) OR CLIENT_DIRTY_CAS))"

lemma dirtied_refl [simp]: "dirtied s s"
  unfolding dirtied_def
proof
  fix c
  show "\<exists>l f. clients s c = (clients s c)\<lparr>watched_keys := l, cflags := f\<rparr> \<and> (f = cflags (clients s c) \<or> f = cflags (clients s c) OR CLIENT_DIRTY_CAS)"
    by (rule exI [of _ "watch_list s c"], rule exI [of _ "cflags (clients s c)"]) simp
qed

lemma dirtied_trans:
  assumes "dirtied s s1" "dirtied s1 s2"
  shows "dirtied s s2"
  unfolding dirtied_def
proof
  fix c
  obtain l f where a: "clients s1 c = (clients s c)\<lparr>watched_keys := l, cflags := f\<rparr>" "f = cflags (clients s c) \<or> f = cflags (clients s c) OR CLIENT_DIRTY_CAS"
    using assms(1) unfolding dirtied_def by blast
  obtain l' f' where b: "clients s2 c = (clients s1 c)\<lparr>watched_keys := l', cflags := f'\<rparr>" "f' = cflags (clients s1 c) \<or> f' = cflags (clients s1 c) OR CLIENT_DIRTY_CAS"
    using assms(2) unfolding dirtied_def by blast
  have "f' = cflags (clients s c) \<or> f' = cflags (clients s c) OR CLIENT_DIRTY_CAS" using a b(2) by (auto simp: or.assoc)
  moreover have "clients s2 c = (clients s c)\<lparr>watched_keys := l', cflags := f'\<rparr>" using a(1) b(1) by simp
  ultimately show "\<exists>l f. clients s2 c = (clients s c)\<lparr>watched_keys := l, cflags := f\<rparr> \<and> (f = cflags (clients s c) \<or> f = cflags (clients s c) OR CLIENT_DIRTY_CAS)"
    by blast
qed

lemma dirtied_flag:
  assumes "dirtied s s'" "has_flag s c m"
  shows "has_flag s' c m"
proof -
  obtain l f where "clients s' c = (clients s c)\<lparr>watched_keys := l, cflags := f\<rparr>" "f = cflags (clients s c) \<or> f = cflags (clients s c) OR CLIENT_DIRTY_CAS"
    using assms(1) unfolding dirtied_def by blast
  then show ?thesis using assms(2) or_and_nonzero by auto
qed

lemma dirtied_clients:
  assumes "\<And>d. d \<noteq> c \<Longrightarrow> clients s' d = clients s d" "clients s' c = (clients s c)\<lparr>watched_keys := l, cflags := f\<rparr>"
    "f = cflags (clients s c) \<or> f = cflags (clients s c) OR CLIENT_DIRTY_CAS"
  shows "dirtied s s'"
  unfolding dirtied_def
proof
  fix d
  show "\<exists>l f. clients s' d = (clients s d)\<lparr>watched_keys := l, cflags := f\<rparr> \<and> (f = cflags (clients s d) \<or> f = cflags (clients s d) OR CLIENT_DIRTY_CAS)"
  proof (cases "d = c")
    case False
    then show ?thesis using assms(1) by (intro exI [of _ "watch_list s d"] exI [of _ "cflags (clients s d)"]) simp
  qed (use assms(2,3) in blast)
qed

lemma same_watch_wk_upd:
  assumes "wks s a = Some w"
  shows "same_watch s (set_wk s a (Some (w\<lparr>wk_expired := b\<rparr>)))" "dirtied s (set_wk s a (Some w'))" "same_data s (set_wk s a (Some w'))"
proof -
  show "same_watch s (set_wk s a (Some (w\<lparr>wk_expired := b\<rparr>)))" using assms by (simp add: same_watch_def)
  have "clients (set_wk s a (Some w')) = clients s" by simp
  then show "dirtied s (set_wk s a (Some w'))" using dirtied_refl [of s] unfolding dirtied_def by simp
  show "same_data s (set_wk s a (Some w'))" by (simp add: same_data_def)
qed

lemma dirtied_add: "dirtied s (add_flags s c CLIENT_DIRTY_CAS)"
  by (rule dirtied_clients [where l = "watch_list s c" and f = "cflags (clients s c) OR CLIENT_DIRTY_CAS" and c = c]) (simp_all add: add_flags_client)

text \<open>One client is marked and its watched keys are removed.\<close>

lemma touch_client_ok:
  assumes "watch_ok s"
  obtains s' where "unwatchAllKeys (add_flags s c CLIENT_DIRTY_CAS) c = Some s'" "watch_ok s'" "same_data s s'"
    "clients s' = (clients s)(c := (clients s c)\<lparr>cflags := cflags (clients s c) OR CLIENT_DIRTY_CAS, watched_keys := []\<rparr>)"
    "wks s' = (\<lambda>a. if a \<in> set (watch_list s c) then None else wks s a)"
proof -
  let ?s = "add_flags s c CLIENT_DIRTY_CAS"
  obtain s' where s': "unwatchAllKeys ?s c = Some s'" "watch_ok s'" "unwatched ?s c s'"
    using unwatchAllKeys_ok [OF watch_ok_same [OF assms same_watch_flags(1)]] .
  have "same_data s s'" using s'(3) same_data_trans [OF same_data_flags(1)] by (auto simp: unwatched_def)
  moreover have "clients s' = (clients s)(c := (clients s c)\<lparr>cflags := cflags (clients s c) OR CLIENT_DIRTY_CAS, watched_keys := []\<rparr>)"
    using s'(3) by (simp add: unwatched_def add_flags_client)
  moreover have "wks s' = (\<lambda>a. if a \<in> set (watch_list s c) then None else wks s a)"
    using s'(3) unfolding unwatched_def by (simp add: add_flags_client cong: if_cong)
  ultimately show thesis using that [OF s'(1,2)] by blast
qed

text \<open>
  The watchers that are reached when a key is touched: if the key is gone, all that had not found it expired; if it
  exists, those before the first one that had.
\<close>

definition alive :: "('c, 'k, 'v) server \<Rightarrow> nat \<Rightarrow> bool" where
  "alive s a \<longleftrightarrow> (case wks s a of Some w \<Rightarrow> \<not> wk_expired w | None \<Rightarrow> False)"

definition reached :: "('c, 'k, 'v) server \<Rightarrow> nat \<Rightarrow> 'k \<Rightarrow> nat list \<Rightarrow> nat list" where
  "reached s db key as = (if db_keys (dbs s db) key = None then filter (alive s) as else takeWhile (alive s) as)"

definition owners :: "('c, 'k, 'v) server \<Rightarrow> nat list \<Rightarrow> nat set" where
  "owners s as = {wk_client w | a w. a \<in> set as \<and> wks s a = Some w}"

text \<open>The clients in \<open>C\<close> are marked and watch nothing, and the others are as before.\<close>

definition marks :: "nat set \<Rightarrow> ('c, 'k, 'v) server \<Rightarrow> ('c, 'k, 'v) server \<Rightarrow> bool" where
  "marks C s s' \<longleftrightarrow>
     (\<forall>c. clients s' c = (if c \<in> C then (clients s c)\<lparr>cflags := cflags (clients s c) OR CLIENT_DIRTY_CAS, watched_keys := []\<rparr> else clients s c))"

lemma reached_cong:
  assumes "db_keys (dbs s' db) = db_keys (dbs s db)" "\<And>a. a \<in> set as \<Longrightarrow> wks s' a = wks s a"
  shows "reached s' db key as = reached s db key as" "owners s' (reached s' db key as) = owners s (reached s db key as)"
proof -
  have "filter (alive s') as = filter (alive s) as" "takeWhile (alive s') as = takeWhile (alive s) as"
    using assms(2) by (auto simp: alive_def intro!: filter_cong takeWhile_cong)
  then show e: "reached s' db key as = reached s db key as" using assms(1) by (simp add: reached_def)
  have "wks s' a = wks s a" if "a \<in> set (reached s db key as)" for a
    using that assms(2) by (auto simp: reached_def split: if_splits dest: set_takeWhileD)
  then show "owners s' (reached s' db key as) = owners s (reached s db key as)" unfolding e owners_def by metis
qed

lemma marks_dirtied:
  assumes "marks C s s'"
  shows "dirtied s s'"
  unfolding dirtied_def
proof
  fix c
  let ?f = "cflags (clients s c)"
  show "\<exists>l f. clients s' c = (clients s c)\<lparr>watched_keys := l, cflags := f\<rparr> \<and> (f = ?f \<or> f = ?f OR CLIENT_DIRTY_CAS)"
  proof (cases "c \<in> C")
    case True
    then show ?thesis using assms by (intro exI [of _ "[]"] exI [of _ "?f OR CLIENT_DIRTY_CAS"]) (simp add: marks_def)
  next
    case False
    then show ?thesis using assms by (intro exI [of _ "watch_list s c"] exI [of _ ?f]) (simp add: marks_def)
  qed
qed

lemma touch_loop_ok:
  assumes "watch_ok s" "distinct as" "\<forall>a \<in> set as. \<exists>w. wks s a = Some w \<and> wk_db w = db \<and> wk_key w = key"
  shows "\<exists>s'. touch_loop s db key as = Some s' \<and> watch_ok s' \<and> same_data s s' \<and> marks (owners s (reached s db key as)) s s'"
  using assms
proof (induction as arbitrary: s)
  case Nil
  then show ?case by (simp add: marks_def reached_def owners_def)
next
  case (Cons a as)
  obtain w where w: "wks s a = Some w" "wk_db w = db" "wk_key w = key" using Cons.prems(3) by auto
  have as: "distinct as" "a \<notin> set as" using Cons.prems(2) by simp_all
  show ?case
  proof (cases "wk_expired w")
    case True
    then have na: "\<not> alive s a" using w(1) by (simp add: alive_def)
    show ?thesis
    proof (cases "db_keys (dbs s db) key = None")
      case False
      then show ?thesis using w True na Cons.prems(1) by (intro exI [of _ s]) (auto simp: reached_def owners_def marks_def)
    next
      case none: True
      let ?s = "set_wk s a (Some (w\<lparr>wk_expired := False\<rparr>))"
      note u = same_watch_wk_upd [OF w(1)]
      have "\<forall>b \<in> set as. \<exists>w. wks ?s b = Some w \<and> wk_db w = db \<and> wk_key w = key" using Cons.prems(3) as(2) by auto
      then obtain s' where s': "touch_loop ?s db key as = Some s'" "watch_ok s'" "same_data ?s s'" "marks (owners ?s (reached ?s db key as)) ?s s'"
        using Cons.IH [OF watch_ok_same [OF Cons.prems(1) u(1)] as(1)] by blast
      have "owners ?s (reached ?s db key as) = owners s (reached s db key as)" by (rule reached_cong(2)) (use as(2) in auto)
      moreover have "reached s db key (a # as) = reached s db key as" using none na by (simp add: reached_def)
      ultimately have "marks (owners s (reached s db key (a # as))) s s'" using s'(4) by (simp add: marks_def)
      then show ?thesis using s'(1,2) w True none same_data_trans [OF u(3) s'(3)] by (intro exI [of _ s']) simp
    qed
  next
    case False
    let ?c = "wk_client w"
    obtain s1 where s1: "unwatchAllKeys (add_flags s ?c CLIENT_DIRTY_CAS) ?c = Some s1" "watch_ok s1" "same_data s s1"
      "clients s1 = (clients s)(?c := (clients s ?c)\<lparr>cflags := cflags (clients s ?c) OR CLIENT_DIRTY_CAS, watched_keys := []\<rparr>)"
      "wks s1 = (\<lambda>b. if b \<in> set (watch_list s ?c) then None else wks s b)"
      using touch_client_ok [OF Cons.prems(1)] .
    have l: "links_ok s" using Cons.prems(1) by (simp add: watch_ok_def)
    have other: "wk_client v \<noteq> ?c" if b: "b \<in> set as" "wks s b = Some v" for b v
      using links_okD(7) [OF l b(2) w(1)] Cons.prems(3) b w as(2) by auto
    have same: "wks s1 b = wks s b" if b: "b \<in> set as" for b
    proof -
      obtain v where v: "wks s b = Some v" using Cons.prems(3) b by auto
      then have "b \<notin> set (watch_list s ?c)" using links_okD(5) [OF l] other [OF b] by auto
      then show ?thesis using s1(5) by simp
    qed
    then have "\<forall>b \<in> set as. \<exists>w. wks s1 b = Some w \<and> wk_db w = db \<and> wk_key w = key" using Cons.prems(3) by simp
    then obtain s' where s': "touch_loop s1 db key as = Some s'" "watch_ok s'" "same_data s1 s'" "marks (owners s1 (reached s1 db key as)) s1 s'"
      using Cons.IH [OF s1(2) as(1)] by blast
    have r: "owners s1 (reached s1 db key as) = owners s (reached s db key as)"
      by (rule reached_cong(2)) (use same s1(3) in \<open>auto simp: same_data_def\<close>)
    have "reached s db key (a # as) = a # reached s db key as" using w(1) False by (simp add: reached_def alive_def)
    then have o: "owners s (reached s db key (a # as)) = insert ?c (owners s (reached s db key as))" using w(1) by (auto simp: owners_def)
    have "set (reached s db key as) \<subseteq> set as" by (auto simp: reached_def dest: set_takeWhileD)
    then have "?c \<notin> owners s (reached s db key as)" using other by (fastforce simp: owners_def)
    then have "marks (owners s (reached s db key (a # as))) s s'" using s'(4) unfolding r o by (auto simp: marks_def s1(4))
    moreover have "touch_loop s db key (a # as) = Some s'" using w(1) False s1(1) s'(1) by simp
    ultimately show ?thesis using s'(2) same_data_trans [OF s1(3) s'(3)] by blast
  qed
qed

lemma watchers_wk:
  assumes "watch_ok s" "a \<in> set (watchers s db key)"
  obtains w where "wks s a = Some w" "wk_db w = db" "wk_key w = key"
  using assms links_okD(6) [of s a db key] by (auto simp: watch_ok_def)

lemma touchWatchedKey_ok:
  assumes "watch_ok s"
  obtains s' where "touchWatchedKey s db key = Some s'" "watch_ok s'" "same_data s s'"
    "marks (owners s (reached s db key (watchers s db key))) s s'"
proof (cases "map_of (db_watched (dbs s db)) key")
  case None
  then have "touchWatchedKey s db key = Some s" "watchers s db key = []" by (simp_all add: touchWatchedKey_def watchers_def)
  then show thesis using that [of s] assms by (simp add: marks_def reached_def owners_def)
next
  case (Some l)
  have l: "watchers s db key = l" using Some by (simp add: watchers_def)
  have d: "distinct l" using assms links_okD(3) [of s db key] l by (simp add: watch_ok_def)
  have "\<exists>w. wks s a = Some w \<and> wk_db w = db \<and> wk_key w = key" if "a \<in> set l" for a
    using watchers_wk [OF assms, of a db key] that l by blast
  then obtain s' where "touch_loop s db key l = Some s'" "watch_ok s'" "same_data s s'" "marks (owners s (reached s db key l)) s s'"
    using touch_loop_ok [OF assms d, of db key] by blast
  moreover have "db_watched (dbs s db) \<noteq> []" using Some by auto
  ultimately show thesis using that [of s'] Some l by (simp add: touchWatchedKey_def)
qed

text \<open>A whole database is touched. No watched key is added or removed.\<close>

lemma same_watch_trans: "same_watch a b \<Longrightarrow> same_watch b c \<Longrightarrow> same_watch a c"
  by (simp add: same_watch_def)

definition touched :: "('c, 'k, 'v) server \<Rightarrow> ('c, 'k, 'v) server \<Rightarrow> bool" where
  "touched s s' \<longleftrightarrow> same_watch s s' \<and> dirtied s s' \<and> same_data s s'"

lemma touched_refl [simp]: "touched s s"
  by (simp add: touched_def same_watch_def)

lemma touched_trans: "touched a b \<Longrightarrow> touched b c \<Longrightarrow> touched a c"
  unfolding touched_def using same_watch_trans dirtied_trans same_data_trans by blast

lemma touched_wk: "wks s a = Some w \<Longrightarrow> touched s (set_wk s a (Some (w\<lparr>wk_expired := b\<rparr>)))"
  using same_watch_wk_upd [of s a w] by (simp add: touched_def)

lemma touched_add: "touched s (add_flags s c CLIENT_DIRTY_CAS)"
  using dirtied_add by (simp add: touched_def)

lemma touched_some:
  assumes "touched s s'" "wks s a = Some w"
  shows "\<exists>v. wks s' a = Some v"
proof -
  have "map_option (\<lambda>w. w\<lparr>wk_expired := False\<rparr>) (wks s' a) \<noteq> None" using assms by (auto simp: touched_def same_watch_def)
  then show ?thesis by (cases "wks s' a") auto
qed

lemma touch_all_wks_ok:
  assumes "\<forall>a \<in> set as. wks s a \<noteq> None" "ex \<or> repl \<noteq> None"
  shows "\<exists>s'. touch_all_wks s key ex repl as = Some s' \<and> touched s s'"
  using assms(1)
proof (induction as arbitrary: s)
  case (Cons a as)
  then obtain w where w: "wks s a = Some w" by auto
  note t = touched_wk [OF w] touched_add [of s "wk_client w"] touched_refl
  have "\<exists>s1. (if wk_expired w then
       (case repl of
          None \<Rightarrow> Some (set_wk s a (Some (w\<lparr>wk_expired := False\<rparr>)))
        | Some r \<Rightarrow>
            if db_keys r key = None then Some (set_wk s a (Some (w\<lparr>wk_expired := False\<rparr>)))
            else if keyIsExpired s r key then Some s
            else Some (add_flags s (wk_client w) CLIENT_DIRTY_CAS))
     else if \<not> ex then
       do { r \<leftarrow> repl;
            if keyIsExpired s r key then Some (set_wk s a (Some (w\<lparr>wk_expired := True\<rparr>)))
            else Some (add_flags s (wk_client w) CLIENT_DIRTY_CAS) }
     else Some (add_flags s (wk_client w) CLIENT_DIRTY_CAS)) = Some s1 \<and> touched s s1"
    (is "\<exists>s1. ?e = Some s1 \<and> _")
    using t assms(2) by (cases repl; cases "wk_expired w"; cases ex) auto
  then obtain s1 where s1: "?e = Some s1" "touched s s1" by blast
  have "\<forall>b \<in> set as. wks s1 b \<noteq> None" using Cons.prems touched_some [OF s1(2)] by fastforce
  then obtain s' where "touch_all_wks s1 key ex repl as = Some s'" "touched s1 s'" using Cons.IH by blast
  then show ?case using w s1(1) touched_trans [OF s1(2)] by simp
qed simp

lemma touch_all_loop_ok:
  assumes "\<forall>(key, l) \<in> set es. \<forall>a \<in> set l. wks s a \<noteq> None"
  shows "\<exists>s'. touch_all_loop s db repl es = Some s' \<and> touched s s'"
  using assms
proof (induction es arbitrary: s)
  case (Cons e es)
  obtain key l where e: "e = (key, l)" by force
  let ?ex = "db_keys (dbs s db) key \<noteq> None"
  let ?go = "?ex \<or> (case repl of Some r \<Rightarrow> db_keys r key \<noteq> None | None \<Rightarrow> False)"
  obtain s1 where s1: "(if ?go then touch_all_wks s key ?ex repl l else Some s) = Some s1" "touched s s1"
  proof (cases ?go)
    case True
    then have "?ex \<or> repl \<noteq> None" by (auto split: option.splits)
    then show thesis using touch_all_wks_ok [of l s ?ex repl key] that True Cons.prems e by auto
  qed (use that [of s] in auto)
  have "\<forall>(key, l) \<in> set es. \<forall>a \<in> set l. wks s1 a \<noteq> None" using Cons.prems touched_some [OF s1(2)] by fastforce
  then obtain s' where "touch_all_loop s1 db repl es = Some s'" "touched s1 s'" using Cons.IH by blast
  then show ?case using touched_trans [OF s1(2)] unfolding e touch_all_loop.simps Let_def s1(1) by simp
qed simp

lemma touchAllWatchedKeysInDb_ok:
  assumes "watch_ok s"
  obtains s' where "touchAllWatchedKeysInDb s db repl = Some s'" "watch_ok s'" "dirtied s s'" "same_data s s'"
proof -
  have l: "links_ok s" using assms by (simp add: watch_ok_def)
  have "wks s a \<noteq> None" if h: "(key, l) \<in> set (db_watched (dbs s db))" "a \<in> set l" for key l a
  proof -
    have "map_of (db_watched (dbs s db)) key = Some l" using h(1) links_okD(1) [OF l] by simp
    then have "a \<in> set (watchers s db key)" using h(2) by (simp add: watchers_def)
    then show ?thesis using links_okD(6) [OF l] by auto
  qed
  then have "\<forall>(key, l) \<in> set (db_watched (dbs s db)). \<forall>a \<in> set l. wks s a \<noteq> None" by blast
  then obtain s' where "touch_all_loop s db repl (db_watched (dbs s db)) = Some s'" "touched s s'" using touch_all_loop_ok by blast
  then have "touchAllWatchedKeysInDb s db repl = Some (if db_watched (dbs s db) = [] then s else s')" "touched s s'"
    by (simp_all add: touchAllWatchedKeysInDb_def)
  then show thesis using that assms watch_ok_same [OF assms, of s'] by (cases "db_watched (dbs s db) = []") (auto simp: touched_def)
qed

end
