(* ===== verification/Multi_Props.thy ===== *)
theory Multi_Props
  imports Multi_Inv
begin

text \<open>
  Histories of transactions: sequences of commands of several clients, changes of keys and replacements of databases. They
  keep the invariant, and a transaction whose watched keys were touched does not run.
\<close>

section \<open>Watching a key\<close>

definition zm_fresh :: "((nat \<Rightarrow> 'k watchedKey option) \<Rightarrow> nat) \<Rightarrow> bool" where
  "zm_fresh zm \<longleftrightarrow> (\<forall>W. finite (dom W) \<longrightarrow> W (zm W) = None)"

definition zm_least :: "(nat \<Rightarrow> 'k watchedKey option) \<Rightarrow> nat" where
  "zm_least W = (LEAST a. W a = None)"

lemma zm_least_fresh: "zm_fresh zm_least"
  unfolding zm_fresh_def
proof (intro allI impI)
  fix W :: "nat \<Rightarrow> 'k watchedKey option"
  assume "finite (dom W)"
  then obtain a where "a \<notin> dom W" using ex_new_if_finite [OF infinite_UNIV_nat] by blast
  then have "W a = None" by (simp add: domIff)
  then show "W (zm_least W) = None" unfolding zm_least_def by (rule LeastI)
qed

lemma finite_wks:
  assumes "watch_ok s"
  shows "finite (dom (wks s))"
proof -
  have "dom (wks s) \<subseteq> (\<Union>c \<in> {c. watch_list s c \<noteq> []}. set (watch_list s c))"
  proof
    fix a
    assume "a \<in> dom (wks s)"
    then obtain w where "wks s a = Some w" by auto
    then have "a \<in> set (watch_list s (wk_client w))" using assms links_okD(5) [of s a "wk_client w"] by (auto simp: watch_ok_def)
    then show "a \<in> (\<Union>c \<in> {c. watch_list s c \<noteq> []}. set (watch_list s c))" by (intro UN_I [of "wk_client w"]) auto
  qed
  then show ?thesis by (rule finite_subset) (use assms in \<open>simp add: watch_ok_def\<close>)
qed

lemma already_watched_ok:
  assumes "\<forall>a \<in> set as. wks s a \<noteq> None"
  shows "already_watched s db key as = Some (\<exists>a \<in> set as. \<exists>w. wks s a = Some w \<and> wk_db w = db \<and> wk_key w = key)"
  using assms
proof (induction as)
  case (Cons a as)
  then obtain w where w: "wks s a = Some w" by auto
  have IH: "already_watched s db key as = Some (\<exists>a \<in> set as. \<exists>w. wks s a = Some w \<and> wk_db w = db \<and> wk_key w = key)" using Cons by simp
  show ?case
  proof (cases "wk_db w = db \<and> wk_key w = key")
    case False
    then have "already_watched s db key (a # as) = already_watched s db key as" using w by auto
    then show ?thesis using IH w False by (simp, blast)
  qed (use w in auto)
qed simp

lemma links_ok_watch:
  assumes l: "links_ok s" and a: "wks s a = None" and w: "wk_client w = c" "wk_db w = db" "wk_key w = key"
    and new: "\<forall>b v. wks s b = Some v \<longrightarrow> \<not> (wk_client v = c \<and> wk_db v = db \<and> wk_key v = key)"
    and W: "wks s' = (wks s)(a := Some w)" and L: "\<And>d. watch_list s' d = (if d = c then watch_list s c @ [a] else watch_list s d)"
    and M: "\<And>d k. map_of (db_watched (dbs s' d)) k = (if d = db \<and> k = key then Some (watchers s db key @ [a]) else map_of (db_watched (dbs s d)) k)"
    and D: "\<And>d. distinct (map fst (db_watched (dbs s' d)))"
  shows "links_ok s'"
proof -
  have V: "watchers s' d k = (if d = db \<and> k = key then watchers s db key @ [a] else watchers s d k)" for d k
    unfolding watchers_def M by simp
  have al: "a \<notin> set (watch_list s d)" "a \<notin> set (watchers s d k)" for d k using a links_okD(5,6) [OF l] by auto
  show ?thesis unfolding links_ok_def
  proof (intro conjI allI impI)
    fix d k
    show "map_of (db_watched (dbs s' d)) k \<noteq> Some []" unfolding M using links_okD(2) [OF l] by simp
    show "distinct (watchers s' d k)" unfolding V using links_okD(3) [OF l] al by simp
  next
    fix d
    show "distinct (watch_list s' d)" unfolding L using links_okD(4) [OF l] al by simp
  next
    fix d b
    show "b \<in> set (watch_list s' d) \<longleftrightarrow> (\<exists>w. wks s' b = Some w \<and> wk_client w = d)"
      unfolding L W using links_okD(5) [OF l] al w a by (cases "b = a") auto
  next
    fix d k b
    show "b \<in> set (watchers s' d k) \<longleftrightarrow> (\<exists>w. wks s' b = Some w \<and> wk_db w = d \<and> wk_key w = k)"
      unfolding V W using links_okD(6) [OF l] al w a by (cases "b = a") auto
  next
    fix b d u v
    assume h: "wks s' b = Some u \<and> wks s' d = Some v \<and> wk_client u = wk_client v \<and> wk_db u = wk_db v \<and> wk_key u = wk_key v"
    then show "b = d" unfolding W using links_okD(7) [OF l, of b u d v] new w by (cases "b = a"; cases "d = a") auto
  qed (rule D)
qed

definition watching :: "('c, 'k, 'v) server \<Rightarrow> nat \<Rightarrow> nat \<Rightarrow> 'k \<Rightarrow> bool" where
  "watching s c db key \<longleftrightarrow> (\<exists>a w. wks s a = Some w \<and> wk_client w = c \<and> wk_db w = db \<and> wk_key w = key)"

lemma watchForKey_ok:
  assumes ok: "watch_ok s" and zm: "zm_fresh zm"
  obtains s' l where "watchForKey zm s c key = Some s'" "watch_ok s'" "same_data s s'"
    "clients s' = (clients s)(c := (clients s c)\<lparr>watched_keys := l\<rparr>)" "watching s' c (cdb (clients s c)) key"
proof -
  have l: "links_ok s" and f: "finite {c. watch_list s c \<noteq> []}" and n: "watching_clients s = int (card {c. watch_list s c \<noteq> []})"
    using ok by (simp_all add: watch_ok_def)
  let ?db = "cdb (clients s c)"
  let ?dup = "\<exists>a \<in> set (watch_list s c). \<exists>w. wks s a = Some w \<and> wk_db w = ?db \<and> wk_key w = key"
  define s0 where "s0 = (if watch_list s c = [] then s\<lparr>watching_clients := watching_clients s + 1\<rparr> else s)"
  have s0: "clients s0 = clients s" "dbs s0 = dbs s" "wks s0 = wks s" "loading s0 = loading s" "cmd_time s0 = cmd_time s" "in_exec s0 = in_exec s"
    by (simp_all add: s0_def)
  have "\<forall>a \<in> set (watch_list s c). wks s0 a \<noteq> None" using links_okD(5) [OF l] s0(3) by auto
  from already_watched_ok [OF this] have aw: "already_watched s0 ?db key (watch_list s c) = Some ?dup" by (simp add: s0)
  show thesis
  proof (cases ?dup)
    case True
    then have ne: "watch_list s c \<noteq> []" by auto
    have "watching s c ?db key" using True links_okD(5) [OF l] by (fastforce simp: watching_def)
    moreover have "watchForKey zm s c key = Some s" using aw True ne by (simp add: watchForKey_def s0_def)
    ultimately show thesis using that [of s "watch_list s c"] ok by simp
  next
    case False
    define wl where "wl = (case map_of (db_watched (dbs s ?db)) key of
      None \<Rightarrow> AList.update key [] (db_watched (dbs s ?db)) | Some _ \<Rightarrow> db_watched (dbs s ?db))"
    define s1 where "s1 = (case map_of (db_watched (dbs s0 (cdb (clients s0 c)))) key of
      None \<Rightarrow> set_watched s0 (cdb (clients s0 c)) (AList.update key [] (db_watched (dbs s0 (cdb (clients s0 c))))) | Some _ \<Rightarrow> s0)"
    have s1: "clients s1 = clients s" "wks s1 = wks s" "dbs s1 = (dbs s)(?db := (dbs s ?db)\<lparr>db_watched := wl\<rparr>)"
      "loading s1 = loading s" "cmd_time s1 = cmd_time s" "in_exec s1 = in_exec s" "watching_clients s1 = watching_clients s0"
      by (simp_all add: s1_def wl_def s0 split: option.split)
    have wl: "map_of wl = (map_of (db_watched (dbs s ?db)))(key := Some (watchers s ?db key))" "distinct (map fst wl)"
      using links_okD(1) [OF l]
      by (cases "map_of (db_watched (dbs s ?db)) key"; simp add: wl_def watchers_def update_conv' distinct_update fun_upd_idem)+
    define w where "w = \<lparr>wk_key = key, wk_db = ?db, wk_client = c, wk_expired = keyIsExpired s1 (dbs s1 ?db) key\<rparr>"
    define a where "a = zm (wks s)"
    have a: "wks s a = None" using zm finite_wks [OF ok] by (simp add: zm_fresh_def a_def)
    define s' where "s' = set_watched (set_client (set_wk s1 a (Some w)) c ((clients s c)\<lparr>watched_keys := watch_list s c @ [a]\<rparr>)) ?db
      (AList.update key (watchers s ?db key @ [a]) wl)"
    have call: "watchForKey zm s c key = Some s'"
    proof -
      have "watchForKey zm s c key =
        do { l \<leftarrow> map_of wl key; Some (set_watched (set_client (set_wk s1 a (Some w)) c ((clients s c)\<lparr>watched_keys := watch_list s c @ [a]\<rparr>)) ?db
          (AList.update key (l @ [a]) wl)) }"
        using aw False unfolding watchForKey_def Let_def s0_def [symmetric] s1_def [symmetric]
        by (simp add: s0(1) s1(1,2,3) w_def a_def)
      then show ?thesis by (simp add: wl(1) s'_def)
    qed
    have cl: "clients s' = (clients s)(c := (clients s c)\<lparr>watched_keys := watch_list s c @ [a]\<rparr>)" by (simp add: s'_def s1)
    have W: "wks s' = (wks s)(a := Some w)" by (simp add: s'_def s1)
    have "links_ok s'"
    proof (rule links_ok_watch [OF l a, of w c ?db key])
      show "\<forall>b v. wks s b = Some v \<longrightarrow> \<not> (wk_client v = c \<and> wk_db v = ?db \<and> wk_key v = key)" using False links_okD(5) [OF l] by blast
      show "wks s' = (wks s)(a := Some w)" by (rule W)
      show "watch_list s' d = (if d = c then watch_list s c @ [a] else watch_list s d)" for d by (simp add: cl)
      show "map_of (db_watched (dbs s' d)) k = (if d = ?db \<and> k = key then Some (watchers s ?db key @ [a]) else map_of (db_watched (dbs s d)) k)" for d k
        by (simp add: s'_def s1 update_conv' wl(1))
      show "distinct (map fst (db_watched (dbs s' d)))" for d using links_okD(1) [OF l] wl(2) by (simp add: s'_def s1 distinct_update)
    qed (simp_all add: w_def)
    moreover have "{d. watch_list s' d \<noteq> []} = insert c {d. watch_list s d \<noteq> []}" by (auto simp: cl)
    moreover have "watching_clients s' = int (card (insert c {d. watch_list s d \<noteq> []}))"
      using f n by (simp add: s'_def s1(7) s0_def card_insert_if)
    ultimately have "watch_ok s'" using f by (simp add: watch_ok_def)
    moreover have "same_data s s'" by (simp add: same_data_def s'_def s1)
    moreover have "watching s' c ?db key" unfolding watching_def W by (intro exI [of _ a] exI [of _ w]) (simp add: w_def)
    ultimately show thesis using that call cl by blast
  qed
qed

lemma watch_loop_ok:
  assumes "watch_ok s" "zm_fresh zm"
  shows "\<exists>s' l. watch_loop zm s c ks = Some s' \<and> watch_ok s' \<and> clients s' = (clients s)(c := (clients s c)\<lparr>watched_keys := l\<rparr>)"
  using assms(1)
proof (induction ks arbitrary: s)
  case Nil
  then show ?case by (intro exI [of _ s] exI [of _ "watch_list s c"]) simp
next
  case (Cons k ks)
  obtain s1 l1 where s1: "watchForKey zm s c k = Some s1" "watch_ok s1" "same_data s s1"
    "clients s1 = (clients s)(c := (clients s c)\<lparr>watched_keys := l1\<rparr>)" "watching s1 c (cdb (clients s c)) k"
    using watchForKey_ok [OF Cons.prems assms(2)] .
  obtain s' l where s': "watch_loop zm s1 c ks = Some s'" "watch_ok s'" "clients s' = (clients s1)(c := (clients s1 c)\<lparr>watched_keys := l\<rparr>)"
    using Cons.IH [OF s1(2)] by blast
  have "clients s' = (clients s)(c := (clients s c)\<lparr>watched_keys := l\<rparr>)" using s'(3) s1(4) by simp
  then show ?case using s1(1) s'(1,2) by (intro exI [of _ s'] exI [of _ l]) simp
qed

section \<open>Histories\<close>

datatype ('c, 'k, 'v) tx_event =
    EMulti nat
  | EDiscard nat
  | EWatch nat "'k list"
  | EUnwatch nat
  | EQueue nat 'c "'k list" int "64 word" "64 word"
  | EFlag nat
  | ESelect nat nat
  | EUnwatchAll nat
  | EDiscardTx nat
  | ETouch nat 'k
  | EReplace nat "('k, 'v) redisDb option"
  | EKeys nat "'k \<Rightarrow> 'v option" "'k \<Rightarrow> int option"
  | ETime int

text \<open>
  The events are the commands of the clients, an error while queueing, the change of the keys of a database, and the
  calls that follow it. An EXEC is \<open>EUnwatchAll\<close>, the events of its commands and \<open>EDiscardTx\<close>; a connection ends with
  \<open>EUnwatchAll\<close>.
\<close>

fun tx_step ::
  "((nat \<Rightarrow> 'k watchedKey option) \<Rightarrow> nat) \<Rightarrow> ('c, 'k, 'v) server \<Rightarrow> ('c, 'k, 'v) tx_event \<Rightarrow> ('c, 'k, 'v) server option" where
  "tx_step zm s (EMulti c) = Some (fst (multiCommand s c :: _ \<times> unit reply))"
| "tx_step zm s (EDiscard c) = map_option fst (discardCommand s c :: (_ \<times> unit reply) option)"
| "tx_step zm s (EWatch c args) =
     map_option fst (watchCommand zm (set_client s c ((clients s c)\<lparr>argv := args\<rparr>)) c :: (_ \<times> unit reply) option)"
| "tx_step zm s (EUnwatch c) = map_option fst (unwatchCommand s c :: (_ \<times> unit reply) option)"
| "tx_step zm s (EQueue c x args m n fl) =
     (if has_flag s c CLIENT_MULTI then
        queueMultiCommand (set_client s c ((clients s c)\<lparr>argv := args, argv_len := m, argv_len_sum := n, cmd := x, realcmd := x\<rparr>)) c fl
      else Some s)"
| "tx_step zm s (EFlag c) = Some (flagTransaction s c)"
| "tx_step zm s (ESelect c db) = Some (set_client s c ((clients s c)\<lparr>cdb := db\<rparr>))"
| "tx_step zm s (EUnwatchAll c) = unwatchAllKeys s c"
| "tx_step zm s (EDiscardTx c) = discardTransaction s c"
| "tx_step zm s (ETouch db key) = touchWatchedKey s db key"
| "tx_step zm s (EReplace db repl) = touchAllWatchedKeysInDb s db repl"
| "tx_step zm s (EKeys db m e) = Some (s\<lparr>dbs := (dbs s)(db := (dbs s db)\<lparr>db_keys := m, db_expires := e\<rparr>)\<rparr>)"
| "tx_step zm s (ETime t) = Some (s\<lparr>cmd_time := t\<rparr>)"

fun tx_run ::
  "((nat \<Rightarrow> 'k watchedKey option) \<Rightarrow> nat) \<Rightarrow> ('c, 'k, 'v) server \<Rightarrow> ('c, 'k, 'v) tx_event list \<Rightarrow> ('c, 'k, 'v) server option" where
  "tx_run zm s [] = Some s"
| "tx_run zm s (e # es) = do { s \<leftarrow> tx_step zm s e; tx_run zm s es }"

text \<open>The events that forget that a watched key of the client was touched.\<close>

definition clears :: "nat \<Rightarrow> ('c, 'k, 'v) tx_event \<Rightarrow> bool" where
  "clears c e \<longleftrightarrow> e = EDiscard c \<or> e = EUnwatch c \<or> e = EDiscardTx c"

definition queue_ok :: "('c, 'k, 'v) server \<Rightarrow> nat \<Rightarrow> bool" where
  "queue_ok s n \<longleftrightarrow>
     (\<forall>c. let ms = mstate (clients s c) in
        length (commands ms) \<le> n \<and> (commands ms \<noteq> [] \<longrightarrow> 2 \<le> alloc_count ms \<and> length (commands ms) \<le> alloc_count ms))"

text \<open>What every event does: it keeps the invariant, and marks are forgotten by some events of the client only.\<close>

definition keeps_marks :: "('c, 'k, 'v) tx_event \<Rightarrow> ('c, 'k, 'v) server \<Rightarrow> ('c, 'k, 'v) server \<Rightarrow> bool" where
  "keeps_marks e s s' \<longleftrightarrow> (\<forall>c. \<not> clears c e \<longrightarrow> has_flag s c CLIENT_DIRTY_CAS \<longrightarrow> has_flag s' c CLIENT_DIRTY_CAS)"

lemma same_watch_client:
  "watched_keys cl = watch_list s c \<Longrightarrow> same_watch s (set_client s c cl)"
  by (simp add: same_watch_def)

lemma discardTransaction_ok:
  assumes "watch_ok s"
  obtains s' where "discardTransaction s c = Some s'" "watch_ok s'" "same_data s s'"
    "clients s' = (clients s)(c := (clients s c)\<lparr>mstate := initClientMultiState,
       cflags := cflags (clients s c) AND NOT (CLIENT_MULTI OR CLIENT_DIRTY_CAS OR CLIENT_DIRTY_EXEC), watched_keys := []\<rparr>)"
proof -
  let ?m = "CLIENT_MULTI OR CLIENT_DIRTY_CAS OR CLIENT_DIRTY_EXEC"
  let ?s = "clear_flags (set_client s c ((clients s c)\<lparr>mstate := initClientMultiState\<rparr>)) c ?m"
  have "same_watch s ?s" by (rule same_watch_trans [OF same_watch_client same_watch_flags(2)]) simp
  then have "watch_ok ?s" using watch_ok_same [OF assms] by blast
  then obtain s' where s': "unwatchAllKeys ?s c = Some s'" "watch_ok s'" "unwatched ?s c s'" using unwatchAllKeys_ok by blast
  have "same_data s s'" using s'(3) by (simp add: unwatched_def same_data_def)
  moreover have "clients s' = (clients s)(c := (clients s c)\<lparr>mstate := initClientMultiState,
       cflags := cflags (clients s c) AND NOT ?m, watched_keys := []\<rparr>)"
    using s'(3) by (simp add: unwatched_def clear_flags_client)
  ultimately show thesis using that s'(1,2) by (simp add: discardTransaction_def)
qed

lemma queue_ok_same: "queue_ok s n \<Longrightarrow> (\<And>c. mstate (clients s' c) = mstate (clients s c)) \<Longrightarrow> queue_ok s' (Suc n)"
  by (simp add: queue_ok_def Let_def le_SucI)

lemma queue_ok_init: "queue_ok s n \<Longrightarrow> (\<And>d. d \<noteq> c \<Longrightarrow> mstate (clients s' d) = mstate (clients s d)) \<Longrightarrow>
    mstate (clients s' c) = initClientMultiState \<Longrightarrow> queue_ok s' (Suc n)"
  unfolding queue_ok_def Let_def by (metis initClientMultiState_def le_SucI list.size(3) multiState.select_convs(1) zero_le)

lemma dirtied_mstate:
  assumes "dirtied s s'"
  shows "mstate (clients s' c) = mstate (clients s c)"
proof -
  obtain l f where "clients s' c = (clients s c)\<lparr>watched_keys := l, cflags := f\<rparr>" using assms unfolding dirtied_def by blast
  then show ?thesis by simp
qed

lemma dirtied_step:
  assumes "dirtied s s'" "queue_ok s n"
  shows "queue_ok s' (Suc n)" "keeps_marks e s s'"
  using queue_ok_same [OF assms(2)] dirtied_mstate [OF assms(1)] dirtied_flag [OF assms(1)] by (auto simp: keeps_marks_def)

text \<open>Other operations change the flags, the queue and the watched keys of one client.\<close>

lemma client_step:
  assumes "clients s' = (clients s)(c := cl)" "queue_ok s n" "mstate cl = mstate (clients s c) \<or> mstate cl = initClientMultiState"
    "clears c e \<or> (cflags (clients s c) AND CLIENT_DIRTY_CAS \<noteq> 0 \<longrightarrow> cflags cl AND CLIENT_DIRTY_CAS \<noteq> 0)"
  shows "queue_ok s' (Suc n)" "keeps_marks e s s'"
proof -
  show "queue_ok s' (Suc n)"
  proof (cases "mstate cl = mstate (clients s c)")
    case True
    then show ?thesis using assms(1) by (intro queue_ok_same [OF assms(2)]) simp
  next
    case False
    then show ?thesis using assms(1,3) by (intro queue_ok_init [OF assms(2), of c]) auto
  qed
  show "keeps_marks e s s'" using assms(1,4) unfolding keeps_marks_def by auto
qed

lemma queue_step:
  assumes "queue_ok s n" "n < INT_MAX"
  shows "\<exists>cl. queueMultiCommand s c fl = Some (set_client s c cl) \<and> watched_keys cl = watch_list s c \<and> cflags cl = cflags (clients s c) \<and>
    length (commands (mstate cl)) \<le> Suc n \<and>
    (commands (mstate cl) \<noteq> [] \<longrightarrow> 2 \<le> alloc_count (mstate cl) \<and> length (commands (mstate cl)) \<le> alloc_count (mstate cl))"
proof -
  let ?ms = "mstate (clients s c)"
  have q: "length (commands ?ms) \<le> n" "commands ?ms \<noteq> [] \<longrightarrow> 2 \<le> alloc_count ?ms \<and> length (commands ?ms) \<le> alloc_count ?ms"
    using assms(1) by (auto simp: queue_ok_def Let_def)
  show ?thesis
  proof (cases "has_flag s c (CLIENT_DIRTY_CAS OR CLIENT_DIRTY_EXEC)")
    case True
    have "set_client s c (clients s c) = s" by (simp add: set_client_def)
    then show ?thesis using True q by (intro exI [of _ "clients s c"]) (simp add: queueMultiCommand_def)
  next
    case False
    define a0 where "a0 = (if commands ?ms = [] then 2 else alloc_count ?ms)"
    define a1 where "a1 = (if length (commands ?ms) = a0 then (if a0 < INT_MAX div 2 then a0 * 2 else INT_MAX) else a0)"
    have a0: "2 \<le> a0" "length (commands ?ms) \<le> a0" using q(2) by (auto simp: a0_def)
    have lt: "length (commands ?ms) < INT_MAX" using q(1) assms(2) by simp
    have a1: "length (commands ?ms) < a1" "2 \<le> a1" using a0 lt by (auto simp: a1_def INT_MAX_def)
    let ?cl = "(clients s c)\<lparr>mstate := \<lparr>commands = commands ?ms @ 
        [\<lparr>mc_argv = argv (clients s c), mc_argv_len = argv_len (clients s c), mc_cmd = cmd (clients s c)\<rparr>],
      cmd_flags = cmd_flags ?ms OR ucast fl, cmd_inv_flags = cmd_inv_flags ?ms OR ucast (NOT fl),
      argv_len_sums = argv_len_sums ?ms + (argv_len_sum (clients s c) + 8 * of_nat (length (argv (clients s c)))), alloc_count = a1\<rparr>,
      argv := [], argv_len_sum := 0, argv_len := 0\<rparr>"
    have "queueMultiCommand s c fl = Some (set_client s c ?cl)"
      using False a1 unfolding queueMultiCommand_def Let_def a0_def [symmetric] a1_def [symmetric] by simp
    then show ?thesis using q(1) a1 by (intro exI [of _ ?cl]) simp
  qed
qed

lemma queue_ok_queue:
  assumes "queue_ok s n" "length (commands (mstate cl)) \<le> Suc n"
    "commands (mstate cl) \<noteq> [] \<longrightarrow> 2 \<le> alloc_count (mstate cl) \<and> length (commands (mstate cl)) \<le> alloc_count (mstate cl)"
  shows "queue_ok (set_client s c cl) (Suc n)"
  using assms by (simp add: queue_ok_def Let_def le_SucI)

lemma idle_step:
  assumes "watch_ok s" "queue_ok s n"
  shows "watch_ok s \<and> queue_ok s (Suc n) \<and> keeps_marks e s s"
  using assms(1) dirtied_step [OF dirtied_refl assms(2)] by simp

lemma flag_step:
  assumes "watch_ok s" "queue_ok s n"
  shows "watch_ok (add_flags s c f) \<and> queue_ok (add_flags s c f) (Suc n) \<and> keeps_marks e s (add_flags s c f)"
proof -
  have "watch_ok (add_flags s c f)" using watch_ok_same [OF assms(1)] by simp
  moreover have "queue_ok (add_flags s c f) (Suc n)" "keeps_marks e s (add_flags s c f)"
    using client_step [OF add_flags_client [of s c f] assms(2), of e] or_and_nonzero by auto
  ultimately show ?thesis by simp
qed

abbreviation step_good :: "('c, 'k, 'v) tx_event \<Rightarrow> nat \<Rightarrow> ('c, 'k, 'v) server \<Rightarrow> ('c, 'k, 'v) server \<Rightarrow> bool" where
  "step_good e n s s' \<equiv> watch_ok s' \<and> queue_ok s' (Suc n) \<and> keeps_marks e s s'"

lemma discard_step:
  assumes "watch_ok s" "queue_ok s n" "clears c e"
  shows "\<exists>s'. discardTransaction s c = Some s' \<and> step_good e n s s'"
proof -
  obtain s' where s': "discardTransaction s c = Some s'" "watch_ok s'" "same_data s s'"
    "clients s' = (clients s)(c := (clients s c)\<lparr>mstate := initClientMultiState,
       cflags := cflags (clients s c) AND NOT (CLIENT_MULTI OR CLIENT_DIRTY_CAS OR CLIENT_DIRTY_EXEC), watched_keys := []\<rparr>)"
    using discardTransaction_ok [OF assms(1)] .
  then show ?thesis using client_step [OF s'(4) assms(2), of e] assms(3) by simp
qed

lemma watch_step:
  assumes "watch_ok s" "queue_ok s n" "zm_fresh zm"
  shows "\<exists>s'. tx_step zm s (EWatch c args) = Some s' \<and> step_good (EWatch c args) n s s'"
proof -
  let ?s = "set_client s c ((clients s c)\<lparr>argv := args\<rparr>)"
  have ok: "watch_ok ?s" using watch_ok_same [OF assms(1) same_watch_client] by simp
  have st: "queue_ok s' (Suc n)" "keeps_marks e s s'" if "clients s' = (clients s)(c := (clients s c)\<lparr>argv := args, watched_keys := l\<rparr>)" for s' l and e
    using client_step [OF that assms(2), of e] by simp_all
  obtain s' l where s': "watch_loop zm ?s c (tl args) = Some s'" "watch_ok s'" "clients s' = (clients ?s)(c := (clients ?s c)\<lparr>watched_keys := l\<rparr>)"
    using watch_loop_ok [OF ok assms(3), of c "tl args"] by blast
  have cs: "clients s' = (clients s)(c := (clients s c)\<lparr>argv := args, watched_keys := l\<rparr>)" using s'(3) by simp
  have "clients ?s = (clients s)(c := (clients s c)\<lparr>argv := args, watched_keys := watch_list s c\<rparr>)" by simp
  note id = st [OF this]
  show ?thesis using ok s'(1,2) st [OF cs] id by (auto simp: watchCommand_def)
qed

lemma tx_step_ok:
  assumes ok: "watch_ok s" and zm: "zm_fresh zm" and q: "queue_ok s n" "n < INT_MAX"
  shows "\<exists>s'. tx_step zm s e = Some s' \<and> step_good e n s s'"
proof (cases e)
  case (EMulti c)
  then show ?thesis using idle_step [OF ok q(1), of e] flag_step [OF ok q(1), of c CLIENT_MULTI e]
    by (cases "has_flag s c CLIENT_MULTI") (simp_all add: multiCommand_def)
next
  case (EDiscard c)
  then have "clears c e" by (simp add: clears_def)
  then obtain s1 where "discardTransaction s c = Some s1" "step_good e n s s1" using discard_step [OF ok q(1)] by blast
  then show ?thesis using idle_step [OF ok q(1), of e] EDiscard
    by (cases "has_flag s c CLIENT_MULTI") (simp_all add: discardCommand_def)
next
  case (EWatch c args)
  then show ?thesis using watch_step [OF ok q(1) zm] by simp
next
  case (EUnwatch c)
  obtain s1 where s1: "unwatchAllKeys s c = Some s1" "watch_ok s1" "unwatched s c s1" using unwatchAllKeys_ok [OF ok] .
  let ?s = "clear_flags s1 c CLIENT_DIRTY_CAS"
  have "watch_ok ?s" using watch_ok_same [OF s1(2)] by simp
  moreover have cs: "clients ?s = (clients s)(c := (clients s c)\<lparr>watched_keys := [], cflags := cflags (clients s c) AND NOT CLIENT_DIRTY_CAS\<rparr>)"
    using s1(3) by (simp add: unwatched_def clear_flags_client)
  ultimately show ?thesis using client_step [OF cs q(1), of e] EUnwatch s1(1) by (simp add: unwatchCommand_def clears_def)
next
  case (EQueue c x args m k fl)
  let ?s = "set_client s c ((clients s c)\<lparr>argv := args, argv_len := m, argv_len_sum := k, cmd := x, realcmd := x\<rparr>)"
  have qs: "queue_ok ?s n" using q(1) by (simp add: queue_ok_def Let_def)
  obtain cl where cl: "queueMultiCommand ?s c fl = Some (set_client ?s c cl)" "watched_keys cl = watch_list ?s c"
    "cflags cl = cflags (clients ?s c)" "length (commands (mstate cl)) \<le> Suc n"
    "commands (mstate cl) \<noteq> [] \<longrightarrow> 2 \<le> alloc_count (mstate cl) \<and> length (commands (mstate cl)) \<le> alloc_count (mstate cl)"
    using queue_step [OF qs q(2), of c fl] by blast
  have "same_watch s (set_client ?s c cl)"
    by (rule same_watch_trans [OF same_watch_client same_watch_client]) (use cl(2) in simp_all)
  then have "watch_ok (set_client ?s c cl)" using watch_ok_same [OF ok] by blast
  moreover have "keeps_marks e s (set_client ?s c cl)" using cl(3) by (simp add: keeps_marks_def)
  ultimately show ?thesis using EQueue cl(1) queue_ok_queue [OF qs cl(4,5), of c] idle_step [OF ok q(1), of e]
    by (cases "has_flag s c CLIENT_MULTI") simp_all
next
  case (EFlag c)
  then show ?thesis using idle_step [OF ok q(1), of e] flag_step [OF ok q(1), of c CLIENT_DIRTY_EXEC e]
    by (cases "has_flag s c CLIENT_MULTI") (simp_all add: flagTransaction_def)
next
  case (ESelect c db)
  let ?s = "set_client s c ((clients s c)\<lparr>cdb := db\<rparr>)"
  have "watch_ok ?s" using watch_ok_same [OF ok same_watch_client] by simp
  then show ?thesis using ESelect client_step [OF set_client_fields(1) q(1), of "(clients s c)\<lparr>cdb := db\<rparr>" c e] by simp
next
  case (EUnwatchAll c)
  obtain s1 where s1: "unwatchAllKeys s c = Some s1" "watch_ok s1" "unwatched s c s1" using unwatchAllKeys_ok [OF ok] .
  have cs: "clients s1 = (clients s)(c := (clients s c)\<lparr>watched_keys := []\<rparr>)" using s1(3) by (simp add: unwatched_def)
  show ?thesis using EUnwatchAll s1(1,2) client_step [OF cs q(1), of e] by simp
next
  case (EDiscardTx c)
  then have "clears c e" by (simp add: clears_def)
  then show ?thesis using discard_step [OF ok q(1), of c e] EDiscardTx by simp
next
  case (ETouch db key)
  obtain s1 where s1: "touchWatchedKey s db key = Some s1" "watch_ok s1" "dirtied s s1"
    by (rule touchWatchedKey_ok [OF ok, of db key]) (use marks_dirtied in blast)
  then show ?thesis using ETouch dirtied_step [OF s1(3) q(1)] by simp
next
  case (EReplace db repl)
  obtain s1 where s1: "touchAllWatchedKeysInDb s db repl = Some s1" "watch_ok s1" "dirtied s s1" using touchAllWatchedKeysInDb_ok [OF ok, of db repl] by blast
  then show ?thesis using EReplace dirtied_step [OF s1(3) q(1)] by simp
next
  case (EKeys db m ex)
  let ?s = "s\<lparr>dbs := (dbs s)(db := (dbs s db)\<lparr>db_keys := m, db_expires := ex\<rparr>)\<rparr>"
  have "same_watch s ?s" by (simp add: same_watch_def)
  then have "watch_ok ?s" using watch_ok_same [OF ok] by blast
  then show ?thesis using EKeys queue_ok_same [OF q(1), of ?s] by (simp add: keeps_marks_def)
next
  case (ETime t)
  have "same_watch s (s\<lparr>cmd_time := t\<rparr>)" by (simp add: same_watch_def)
  then have "watch_ok (s\<lparr>cmd_time := t\<rparr>)" using watch_ok_same [OF ok] by blast
  then show ?thesis using ETime queue_ok_same [OF q(1), of "s\<lparr>cmd_time := t\<rparr>"] by (simp add: keeps_marks_def)
qed

lemma tx_run_ok:
  assumes "watch_ok s" "zm_fresh zm" "queue_ok s n" "n + length es \<le> INT_MAX"
  shows "\<exists>s'. tx_run zm s es = Some s' \<and> watch_ok s' \<and> queue_ok s' (n + length es) \<and>
    (\<forall>c. (\<forall>e \<in> set es. \<not> clears c e) \<longrightarrow> has_flag s c CLIENT_DIRTY_CAS \<longrightarrow> has_flag s' c CLIENT_DIRTY_CAS)"
  using assms(1,3,4)
proof (induction es arbitrary: s n)
  case (Cons e es)
  have "n < INT_MAX" using Cons.prems(3) by simp
  then obtain s1 where s1: "tx_step zm s e = Some s1" "watch_ok s1" "queue_ok s1 (Suc n)" "keeps_marks e s s1"
    using tx_step_ok [OF Cons.prems(1) assms(2) Cons.prems(2)] by blast
  have "Suc n + length es \<le> INT_MAX" using Cons.prems(3) by simp
  then obtain s' where "tx_run zm s1 es = Some s'" "watch_ok s'" "queue_ok s' (Suc n + length es)"
    "\<forall>c. (\<forall>e \<in> set es. \<not> clears c e) \<longrightarrow> has_flag s1 c CLIENT_DIRTY_CAS \<longrightarrow> has_flag s' c CLIENT_DIRTY_CAS"
    using Cons.IH [OF s1(2,3)] by blast
  then show ?case using s1(1,4) by (simp add: keeps_marks_def)
qed simp

section \<open>EXEC\<close>







text \<open>A server before the first command.\<close>

definition fresh_server :: "('c, 'k, 'v) server \<Rightarrow> bool" where
  "fresh_server s \<longleftrightarrow>
     (\<forall>c. watch_list s c = [] \<and> mstate (clients s c) = initClientMultiState) \<and> (\<forall>db. db_watched (dbs s db) = []) \<and>
     wks s = (\<lambda>_. None) \<and> watching_clients s = 0"

lemma fresh_server_ok: "fresh_server s \<Longrightarrow> watch_ok s \<and> queue_ok s 0"
  by (simp add: fresh_server_def watch_ok_def links_ok_def watchers_def queue_ok_def initClientMultiState_def)

lemma tx_run_append: "tx_run zm s (es @ es') = do { s \<leftarrow> tx_run zm s es; tx_run zm s es' }"
  by (induction es arbitrary: s) (auto split: Option.bind_splits)



text \<open>(C9) Transactions are safe in every history: from a fresh server, through any sequence of commands of any clients,
  changes of keys and replacements of databases, no operation reads a watched key that was freed, no assertion fails, and
  no command is written behind the end of a queue. The lists of the clients, the lists of the watchers of each key and the
  counter of watching clients agree at the end.\<close>

theorem tx_history_safe:
  assumes "fresh_server s0" "zm_fresh zm" "length es \<le> INT_MAX"
  shows "\<exists>s. tx_run zm s0 es = Some s \<and> watch_ok s \<and> queue_ok s (length es)"
proof -
  have f: "watch_ok s0" "queue_ok s0 0" using fresh_server_ok [OF assms(1)] by auto
  have "0 + length es \<le> INT_MAX" using assms(3) by simp
  then show ?thesis using tx_run_ok [OF f(1) assms(2) f(2)] by auto
qed


text \<open>A concrete server.\<close>

definition server0 :: "(nat, nat, nat) server" where
  "server0 = \<lparr>clients = (\<lambda>_. \<lparr>cid = 1, cflags = 0, cdb = 0, argv = [], argv_len = 0, argv_len_sum = 0, cmd = 0, realcmd = 0, mstate = initClientMultiState, watched_keys = []\<rparr>),
     dbs = (\<lambda>_. \<lparr>db_keys = (\<lambda>_. None), db_expires = (\<lambda>_. None), db_watched = []\<rparr>), wks = (\<lambda>_. None),
     watching_clients = 0, in_exec = False, loading = False, cmd_time = 0\<rparr>"

lemma server0_fresh: "fresh_server server0"
  by (simp add: fresh_server_def server0_def)

lemma zm_least_simps [simp]: "zm_least (\<lambda>_. None) = 0" "zm_least ((\<lambda>_. None)(0 := Some w)) = 1"
proof -
  show "zm_least (\<lambda>_. None) = 0" by (simp add: zm_least_def)
  show "zm_least ((\<lambda>_. None)(0 := Some w)) = 1" unfolding zm_least_def by (rule Least_equality) (auto simp: Suc_le_eq split: if_splits)
qed

lemmas tx_eval = server0_def watchCommand_def watchForKey_def multiCommand_def set_client_def set_watched_def set_wk_def add_flags_def
  clear_flags_def keyIsExpired_def keyIsExpiredInternal_def touchWatchedKey_def unwatchAllKeys_def queueMultiCommand_def
  initClientMultiState_def CLIENT_MULTI_def CLIENT_DIRTY_CAS_def CLIENT_DIRTY_EXEC_def CLIENT_DENY_BLOCKING_def CLIENT_BLOCKED_def
  INT_MAX_def Let_def

theorem tx_history_safe_witness:
  "\<exists>s. tx_run zm_least server0 [EWatch 1 [0, 7], EMulti 1, EQueue 1 3 [3, 7] 2 2 0, ETouch 0 7, EDiscard 1] = Some s \<and> watch_ok s"
  using tx_history_safe [OF server0_fresh zm_least_fresh, of "[EWatch 1 [0, 7], EMulti 1, EQueue 1 3 [3, 7] 2 2 0, ETouch 0 7, EDiscard 1]"]
  by (auto simp: INT_MAX_def)


section \<open>What EXEC runs\<close>




















section \<open>Who is marked\<close>


text \<open>A history on a replica: client 1 watches an expired key, the key is overwritten by the master, client 2 begins to
  watch it, and the key is overwritten again.\<close>

definition missed_history :: "(nat, nat, nat) tx_event list" where
  "missed_history =
     [ETime 10, EKeys 0 (\<lambda>k. if k = 7 then Some 1 else None) (\<lambda>k. if k = 7 then Some 5 else None), EWatch 1 [0, 7],
      EKeys 0 (\<lambda>k. if k = 7 then Some 2 else None) (\<lambda>_. None), ETouch 0 7,
      EWatch 2 [0, 7], EMulti 2, EQueue 2 3 [3, 7] 2 2 0,
      EKeys 0 (\<lambda>k. if k = 7 then Some 3 else None) (\<lambda>_. None)]"



text \<open>After the touch, EXEC of client 2 runs its command.\<close>

lemma missed_history_exec:
  "\<exists>s s'. tx_run zm_least server0 (missed_history @ [ETouch 0 7]) = Some s \<and>
     execCommand (\<lambda>f s c. (s, ())) (\<lambda>_ _. ACL_OK) s 2 = Some (s', ReplyArray [Inr ()])"
proof -
  define s where "s = the (tx_run zm_least server0 (missed_history @ [ETouch 0 7]))"
  have "tx_run zm_least server0 (missed_history @ [ETouch 0 7]) = Some s" by (simp add: s_def missed_history_def tx_eval)
  moreover have "\<exists>s'. execCommand (\<lambda>f s c. (s, ())) (\<lambda>_ _. ACL_OK) s 2 = Some (s', ReplyArray [Inr ()])"
    by (simp add: s_def missed_history_def tx_eval execCommand_def isWatchedKeyExpired_def discardTransaction_def exec_loop.simps)
  ultimately show ?thesis by blast
qed

end
