(* ===== verification/Adlist.thy ===== *)
theory Adlist
  imports Sequence_Store "HOL-Library.AList"
begin

text \<open>
  The doubly linked list of \<^verbatim>\<open>adlist.c\<close>, with an explicit heap of nodes so that the aliasing of the
  \<^verbatim>\<open>prev\<close> and \<^verbatim>\<open>next\<close> pointers is part of the model. An address is a number and NULL is \<open>None\<close>. Following a
  NULL or dangling pointer and freeing an address that is not allocated are \<open>None\<close> as the result of an operation.

  The allocator \<^verbatim>\<open>zmalloc\<close> is the parameter \<open>zm\<close>: the address of a new node and the arbitrary contents of its two
  pointers, or \<open>None\<close> for NULL. Values are pointers of type \<open>'a\<close>; the \<^verbatim>\<open>free\<close> method acts outside the list, so a
  list records whether it is set and an operation returns the values that it hands to the method.
\<close>

section \<open>Nodes, lists and iterators\<close>

record 'a listNode =
  node_prev :: "nat option"
  node_next :: "nat option"
  node_value :: 'a

record 'a adlist =
  head :: "nat option"
  tail :: "nat option"
  dup :: "('a \<Rightarrow> 'a option) option"
  free :: bool
  match :: "('a \<Rightarrow> 'a \<Rightarrow> bool) option"
  len :: nat

datatype direction = AL_START_HEAD | AL_START_TAIL

record listIter =
  iter_next :: "nat option"
  iter_direction :: direction

type_synonym 'a heap = "(nat \<times> 'a listNode) list"
type_synonym 'a zmalloc_fn = "'a heap \<Rightarrow> (nat \<times> nat option \<times> nat option) option"

text \<open>Reads and writes through a pointer.\<close>

definition deref :: "'a heap \<Rightarrow> nat option \<Rightarrow> 'a listNode option" where
  "deref h p = (case p of None \<Rightarrow> None | Some a \<Rightarrow> map_of h a)"

definition set_prev :: "'a heap \<Rightarrow> nat option \<Rightarrow> nat option \<Rightarrow> 'a heap option" where
  "set_prev h p x =
     do { a \<leftarrow> p; n \<leftarrow> map_of h a; Some (AList.update a (n\<lparr>node_prev := x\<rparr>) h) }"

definition set_next :: "'a heap \<Rightarrow> nat option \<Rightarrow> nat option \<Rightarrow> 'a heap option" where
  "set_next h p x =
     do { a \<leftarrow> p; n \<leftarrow> map_of h a; Some (AList.update a (n\<lparr>node_next := x\<rparr>) h) }"

definition zfree_node :: "'a heap \<Rightarrow> nat \<Rightarrow> 'a heap option" where
  "zfree_node h a = do { _ \<leftarrow> map_of h a; Some (AList.delete a h) }"

section \<open>Operations\<close>

text \<open>The record of a list is passed by value; \<open>alloc\<close> says whether the allocation of the record succeeds.\<close>

definition listCreate :: "bool \<Rightarrow> 'a adlist option" where
  "listCreate alloc =
     (if \<not> alloc then None
      else Some \<lparr>head = None, tail = None, dup = None, free = False, match = None, len = 0\<rparr>)"

fun listEmpty_loop :: "'a heap \<Rightarrow> nat option \<Rightarrow> nat \<Rightarrow> ('a heap \<times> 'a list) option" where
  "listEmpty_loop h current 0 = Some (h, [])"
| "listEmpty_loop h current (Suc n) =
     do { a \<leftarrow> current;
          node \<leftarrow> map_of h a;
          h \<leftarrow> zfree_node h a;
          (h, vs) \<leftarrow> listEmpty_loop h (node_next node) n;
          Some (h, node_value node # vs) }"

definition listEmpty :: "'a heap \<Rightarrow> 'a adlist \<Rightarrow> ('a heap \<times> 'a adlist \<times> 'a list) option" where
  "listEmpty h l =
     do { (h, vs) \<leftarrow> listEmpty_loop h (head l) (len l);
          Some (h, l\<lparr>head := None, tail := None, len := 0\<rparr>, if free l then vs else []) }"

definition listRelease :: "'a heap \<Rightarrow> 'a adlist option \<Rightarrow> ('a heap \<times> 'a list) option" where
  "listRelease h l =
     (case l of
        None \<Rightarrow> Some (h, [])
      | Some l \<Rightarrow> do { (h, _, vs) \<leftarrow> listEmpty h l; Some (h, vs) })"

definition listInitNode :: "'a heap \<Rightarrow> nat \<Rightarrow> 'a \<Rightarrow> 'a heap option" where
  "listInitNode h node value =
     do { _ \<leftarrow> map_of h node;
          Some (AList.update node \<lparr>node_prev = None, node_next = None, node_value = value\<rparr> h) }"

definition listLinkNodeHead :: "'a heap \<Rightarrow> 'a adlist \<Rightarrow> nat \<Rightarrow> ('a heap \<times> 'a adlist) option" where
  "listLinkNodeHead h l node =
     (if len l = 0 then
        do { h \<leftarrow> set_next h (Some node) None;
             h \<leftarrow> set_prev h (Some node) None;
             Some (h, l\<lparr>head := Some node, tail := Some node, len := ul_inc (len l)\<rparr>) }
      else
        do { h \<leftarrow> set_prev h (Some node) None;
             h \<leftarrow> set_next h (Some node) (head l);
             h \<leftarrow> set_prev h (head l) (Some node);
             Some (h, l\<lparr>head := Some node, len := ul_inc (len l)\<rparr>) })"

definition listLinkNodeTail :: "'a heap \<Rightarrow> 'a adlist \<Rightarrow> nat \<Rightarrow> ('a heap \<times> 'a adlist) option" where
  "listLinkNodeTail h l node =
     (if len l = 0 then
        do { h \<leftarrow> set_next h (Some node) None;
             h \<leftarrow> set_prev h (Some node) None;
             Some (h, l\<lparr>head := Some node, tail := Some node, len := ul_inc (len l)\<rparr>) }
      else
        do { h \<leftarrow> set_prev h (Some node) (tail l);
             h \<leftarrow> set_next h (Some node) None;
             h \<leftarrow> set_next h (tail l) (Some node);
             Some (h, l\<lparr>tail := Some node, len := ul_inc (len l)\<rparr>) })"

text \<open>A new node with its value; the inner \<open>None\<close> is the refusal of the allocator.\<close>

definition new_node :: "'a zmalloc_fn \<Rightarrow> 'a heap \<Rightarrow> 'a \<Rightarrow> ('a heap \<times> nat) option" where
  "new_node zm h value =
     (case zm h of
        None \<Rightarrow> None
      | Some (a, p, n) \<Rightarrow> Some (AList.update a \<lparr>node_prev = p, node_next = n, node_value = value\<rparr> h, a))"

definition listAddNodeHead ::
  "'a zmalloc_fn \<Rightarrow> 'a heap \<times> 'a adlist \<Rightarrow> 'a \<Rightarrow> ('a heap \<times> 'a adlist) option option" where
  "listAddNodeHead zm s value =
     (case s of (h, l) \<Rightarrow>
        case new_node zm h value of
          None \<Rightarrow> Some None
        | Some (h, node) \<Rightarrow> map_option Some (listLinkNodeHead h l node))"

definition listAddNodeTail ::
  "'a zmalloc_fn \<Rightarrow> 'a heap \<times> 'a adlist \<Rightarrow> 'a \<Rightarrow> ('a heap \<times> 'a adlist) option option" where
  "listAddNodeTail zm s value =
     (case s of (h, l) \<Rightarrow>
        case new_node zm h value of
          None \<Rightarrow> Some None
        | Some (h, node) \<Rightarrow> map_option Some (listLinkNodeTail h l node))"

definition listInsertNode ::
  "'a zmalloc_fn \<Rightarrow> 'a heap \<times> 'a adlist \<Rightarrow> nat \<Rightarrow> 'a \<Rightarrow> bool \<Rightarrow> ('a heap \<times> 'a adlist) option option" where
  "listInsertNode zm s old_node value after =
     (case s of (h, l) \<Rightarrow>
        case new_node zm h value of
          None \<Rightarrow> Some None
        | Some (h, node) \<Rightarrow>
            do { (h, l) \<leftarrow>
                   (if after then
                      do { h \<leftarrow> set_prev h (Some node) (Some old_node);
                           old \<leftarrow> map_of h old_node;
                           h \<leftarrow> set_next h (Some node) (node_next old);
                           Some (h, if tail l = Some old_node then l\<lparr>tail := Some node\<rparr> else l) }
                    else
                      do { h \<leftarrow> set_next h (Some node) (Some old_node);
                           old \<leftarrow> map_of h old_node;
                           h \<leftarrow> set_prev h (Some node) (node_prev old);
                           Some (h, if head l = Some old_node then l\<lparr>head := Some node\<rparr> else l) });
                 n \<leftarrow> map_of h node;
                 h \<leftarrow> (if node_prev n \<noteq> None then set_next h (node_prev n) (Some node) else Some h);
                 n \<leftarrow> map_of h node;
                 h \<leftarrow> (if node_next n \<noteq> None then set_prev h (node_next n) (Some node) else Some h);
                 Some (Some (h, l\<lparr>len := ul_inc (len l)\<rparr>)) })"

definition listUnlinkNode :: "'a heap \<Rightarrow> 'a adlist \<Rightarrow> nat \<Rightarrow> ('a heap \<times> 'a adlist) option" where
  "listUnlinkNode h l node =
     do { n \<leftarrow> map_of h node;
          (h, l) \<leftarrow> (if node_prev n \<noteq> None then do { h \<leftarrow> set_next h (node_prev n) (node_next n); Some (h, l) }
                      else Some (h, l\<lparr>head := node_next n\<rparr>));
          n \<leftarrow> map_of h node;
          (h, l) \<leftarrow> (if node_next n \<noteq> None then do { h \<leftarrow> set_prev h (node_next n) (node_prev n); Some (h, l) }
                      else Some (h, l\<lparr>tail := node_prev n\<rparr>));
          h \<leftarrow> set_next h (Some node) None;
          h \<leftarrow> set_prev h (Some node) None;
          Some (h, l\<lparr>len := ul_dec (len l)\<rparr>) }"

definition listDelNode :: "'a heap \<Rightarrow> 'a adlist \<Rightarrow> nat \<Rightarrow> ('a heap \<times> 'a adlist \<times> 'a list) option" where
  "listDelNode h l node =
     do { (h, l) \<leftarrow> listUnlinkNode h l node;
          n \<leftarrow> map_of h node;
          h \<leftarrow> zfree_node h node;
          Some (h, l, if free l then [node_value n] else []) }"

section \<open>Iterators and searches\<close>

definition listRewind :: "'a adlist \<Rightarrow> listIter" where
  "listRewind l = \<lparr>iter_next = head l, iter_direction = AL_START_HEAD\<rparr>"

definition listRewindTail :: "'a adlist \<Rightarrow> listIter" where
  "listRewindTail l = \<lparr>iter_next = tail l, iter_direction = AL_START_TAIL\<rparr>"

text \<open>\<open>alloc\<close> says whether the memory for the iterator was obtained.\<close>

definition listGetIterator :: "bool \<Rightarrow> 'a adlist \<Rightarrow> direction \<Rightarrow> listIter option" where
  "listGetIterator alloc l direction =
     (if \<not> alloc then None
      else Some \<lparr>iter_next = (if direction = AL_START_HEAD then head l else tail l), iter_direction = direction\<rparr>)"

definition listNext :: "'a heap \<Rightarrow> listIter \<Rightarrow> (listIter \<times> nat option) option" where
  "listNext h iter =
     (case iter_next iter of
        None \<Rightarrow> Some (iter, None)
      | Some current \<Rightarrow>
          do { n \<leftarrow> map_of h current;
               Some (iter\<lparr>iter_next := (if iter_direction iter = AL_START_HEAD then node_next n else node_prev n)\<rparr>,
                 Some current) })"

partial_function (option) listSearch_loop ::
  "'a heap \<Rightarrow> 'a adlist \<Rightarrow> 'a \<Rightarrow> listIter \<Rightarrow> nat option option" where
  "listSearch_loop h l key iter =
     do { (iter, node) \<leftarrow> listNext h iter;
          case node of
            None \<Rightarrow> Some None
          | Some a \<Rightarrow>
              do { n \<leftarrow> map_of h a;
                   if (case match l of Some f \<Rightarrow> f (node_value n) key | None \<Rightarrow> key = node_value n) then Some (Some a)
                   else listSearch_loop h l key iter } }"

definition listSearchKey :: "'a heap \<Rightarrow> 'a adlist \<Rightarrow> 'a \<Rightarrow> nat option option" where
  "listSearchKey h l key = listSearch_loop h l key (listRewind l)"

text \<open>The loop of \<open>listDup\<close>: the copy or NULL, and the values given to the \<^verbatim>\<open>free\<close> method.\<close>

partial_function (option) listDup_loop ::
  "'a zmalloc_fn \<Rightarrow> 'a heap \<Rightarrow> 'a adlist \<Rightarrow> listIter \<Rightarrow> ('a heap \<times> 'a adlist option \<times> 'a list) option" where
  "listDup_loop zm h copy iter =
     do { (iter, node) \<leftarrow> listNext h iter;
          case node of
            None \<Rightarrow> Some (h, Some copy, [])
          | Some a \<Rightarrow>
              do { n \<leftarrow> map_of h a;
                   case (case dup copy of Some f \<Rightarrow> f (node_value n) | None \<Rightarrow> Some (node_value n)) of
                     None \<Rightarrow> do { (h, vs) \<leftarrow> listRelease h (Some copy); Some (h, None, vs) }
                   | Some value \<Rightarrow>
                       do { r \<leftarrow> listAddNodeTail zm (h, copy) value;
                            case r of
                              None \<Rightarrow> do { (h, vs) \<leftarrow> listRelease h (Some copy);
                                           Some (h, None, (if free copy then [value] else []) @ vs) }
                            | Some (h, copy) \<Rightarrow> listDup_loop zm h copy iter } } }"

definition listDup ::
  "bool \<Rightarrow> 'a zmalloc_fn \<Rightarrow> 'a heap \<Rightarrow> 'a adlist \<Rightarrow> ('a heap \<times> 'a adlist option \<times> 'a list) option" where
  "listDup alloc zm h orig =
     (case listCreate alloc of
        None \<Rightarrow> Some (h, None, [])
      | Some copy \<Rightarrow> listDup_loop zm h (copy\<lparr>dup := dup orig, free := free orig, match := match orig\<rparr>) (listRewind orig))"

fun list_walk :: "('a listNode \<Rightarrow> nat option) \<Rightarrow> 'a heap \<Rightarrow> nat option \<Rightarrow> nat \<Rightarrow> nat option option" where
  "list_walk step h n 0 = Some n"
| "list_walk step h n (Suc i) =
     (case n of
        None \<Rightarrow> Some None
      | Some a \<Rightarrow> do { node \<leftarrow> map_of h a; list_walk step h (step node) i })"

text \<open>The negation of the least \<^verbatim>\<open>long\<close> overflows, which C leaves undefined.\<close>

definition listIndex :: "'a heap \<Rightarrow> 'a adlist \<Rightarrow> int \<Rightarrow> nat option option" where
  "listIndex h l index =
     (if index < 0 then
        do { c_assert (index \<noteq> INT64_MIN);
             list_walk node_prev h (tail l) (nat ((- index) - 1)) }
      else list_walk node_next h (head l) (nat index))"

section \<open>Rotation and concatenation\<close>

definition listRotateTailToHead :: "'a heap \<Rightarrow> 'a adlist \<Rightarrow> ('a heap \<times> 'a adlist) option" where
  "listRotateTailToHead h l =
     (if len l \<le> 1 then Some (h, l)
      else
        do { let old_tail = tail l;
             t \<leftarrow> deref h old_tail;
             let l = l\<lparr>tail := node_prev t\<rparr>;
             h \<leftarrow> set_next h (tail l) None;
             h \<leftarrow> set_prev h (head l) old_tail;
             h \<leftarrow> set_prev h old_tail None;
             h \<leftarrow> set_next h old_tail (head l);
             Some (h, l\<lparr>head := old_tail\<rparr>) })"

definition listRotateHeadToTail :: "'a heap \<Rightarrow> 'a adlist \<Rightarrow> ('a heap \<times> 'a adlist) option" where
  "listRotateHeadToTail h l =
     (if len l \<le> 1 then Some (h, l)
      else
        do { let old_head = head l;
             n \<leftarrow> deref h old_head;
             let l = l\<lparr>head := node_next n\<rparr>;
             h \<leftarrow> set_prev h (head l) None;
             h \<leftarrow> set_next h (tail l) old_head;
             h \<leftarrow> set_next h old_head None;
             h \<leftarrow> set_prev h old_head (tail l);
             Some (h, l\<lparr>tail := old_head\<rparr>) })"

definition listJoin :: "'a heap \<Rightarrow> 'a adlist \<Rightarrow> 'a adlist \<Rightarrow> ('a heap \<times> 'a adlist \<times> 'a adlist) option" where
  "listJoin h l other =
     (if len other = 0 then Some (h, l, other)
      else
        do { h \<leftarrow> set_prev h (head other) (tail l);
             (h, l) \<leftarrow> (if tail l \<noteq> None then do { h \<leftarrow> set_next h (tail l) (head other); Some (h, l) }
                         else Some (h, l\<lparr>head := head other\<rparr>));
             Some (h, l\<lparr>tail := tail other, len := (len l + len other) mod ULONG_WRAP\<rparr>,
               other\<lparr>head := None, tail := None, len := 0\<rparr>) })"

end
