(* ===== verification/Adlist_Ops.thy ===== *)
theory Adlist_Ops
  imports Adlist "HOL-Library.Multiset" "HOL-Library.Sublist"
begin

text \<open>
  The invariant of the linked list and what each operation does to the sequence it holds. \<open>seg m p xs n\<close> says that
  the addresses of \<open>xs\<close> form a doubly linked segment with the given values, entered from \<open>p\<close> and left to \<open>n\<close>;
  \<open>list_ok h l xs\<close> that the list \<open>l\<close> is the segment \<open>xs\<close>. Every operation leaves the cells of other nodes alone.
\<close>

section \<open>Segments\<close>

fun first_or :: "(nat \<times> 'a) list \<Rightarrow> nat option \<Rightarrow> nat option" where
  "first_or [] n = n"
| "first_or (x # xs) n = Some (fst x)"

definition last_or :: "nat option \<Rightarrow> (nat \<times> 'a) list \<Rightarrow> nat option" where
  "last_or p xs = (if xs = [] then p else Some (fst (last xs)))"

fun seg :: "(nat \<rightharpoonup> 'a listNode) \<Rightarrow> nat option \<Rightarrow> (nat \<times> 'a) list \<Rightarrow> nat option \<Rightarrow> bool" where
  "seg m p [] n = True"
| "seg m p (x # xs) n \<longleftrightarrow>
     m (fst x) = Some \<lparr>node_prev = p, node_next = first_or xs n, node_value = snd x\<rparr> \<and> seg m (Some (fst x)) xs n"

abbreviation addrs :: "(nat \<times> 'a) list \<Rightarrow> nat set" where
  "addrs xs \<equiv> fst ` set xs"

abbreviation vals :: "(nat \<times> 'a) list \<Rightarrow> 'a list" where
  "vals xs \<equiv> map snd xs"

definition list_ok :: "'a heap \<Rightarrow> 'a adlist \<Rightarrow> (nat \<times> 'a) list \<Rightarrow> bool" where
  "list_ok h l xs \<longleftrightarrow>
     seg (map_of h) None xs None \<and> distinct (map fst xs) \<and> head l = first_or xs None \<and> tail l = last_or None xs \<and>
     len l = length xs \<and> length xs < ULONG_WRAP"

definition methods :: "'a adlist \<Rightarrow> ('a \<Rightarrow> 'a option) option \<times> bool \<times> ('a \<Rightarrow> 'a \<Rightarrow> bool) option" where
  "methods l = (dup l, free l, match l)"

definition same_out :: "nat set \<Rightarrow> 'a heap \<Rightarrow> 'a heap \<Rightarrow> bool" where
  "same_out A h h' \<longleftrightarrow> (\<forall>x. x \<notin> A \<longrightarrow> map_of h' x = map_of h x)"

named_theorems heap_simps \<open>reads and writes of nodes\<close>

lemma map_of_update_node [heap_simps]: "map_of (AList.update a n h) = (map_of h)(a \<mapsto> n)"
  by (rule update_conv')

lemma map_of_delete_node [heap_simps]: "map_of (AList.delete a h) = (map_of h)(a := None)"
  by (rule delete_conv')

lemma set_prev_Some [heap_simps]:
  "map_of h a = Some n \<Longrightarrow> set_prev h (Some a) x = Some (AList.update a (n\<lparr>node_prev := x\<rparr>) h)"
  by (simp add: set_prev_def)

lemma set_next_Some [heap_simps]:
  "map_of h a = Some n \<Longrightarrow> set_next h (Some a) x = Some (AList.update a (n\<lparr>node_next := x\<rparr>) h)"
  by (simp add: set_next_def)

lemma first_or_append [simp]: "first_or (xs @ ys) n = first_or xs (first_or ys n)"
  by (cases xs) auto

lemma last_or_Nil [simp]: "last_or p [] = p"
  by (simp add: last_or_def)

lemma last_or_Cons [simp]: "last_or p (x # xs) = last_or (Some (fst x)) xs"
  by (simp add: last_or_def)

lemma last_or_append [simp]: "last_or p (xs @ ys) = last_or (last_or p xs) ys"
  by (induction xs arbitrary: p) auto

lemma seg_append [simp]:
  "seg m p (xs @ ys) n \<longleftrightarrow> seg m p xs (first_or ys n) \<and> seg m (last_or p xs) ys n"
  by (induction xs arbitrary: p) auto

lemma seg_frame [simp]: "a \<notin> addrs xs \<Longrightarrow> seg (m(a := v)) p xs n = seg m p xs n"
  by (induction xs arbitrary: p) auto

lemma seg_cong: "seg m p xs n \<Longrightarrow> (\<And>a. a \<in> addrs xs \<Longrightarrow> m' a = m a) \<Longrightarrow> seg m' p xs n"
  by (induction xs arbitrary: p) auto

lemma seg_dom: "seg m p xs n \<Longrightarrow> a \<in> addrs xs \<Longrightarrow> m a \<noteq> None"
  by (induction xs arbitrary: p) auto

lemma list_ok_same_out:
  assumes "list_ok h l xs" "same_out A h h'" "A \<inter> addrs xs = {}"
  shows "list_ok h' l xs"
proof -
  have "seg (map_of h') None xs None"
    by (rule seg_cong [of "map_of h"]) (use assms in \<open>auto simp: list_ok_def same_out_def\<close>)
  then show ?thesis using assms(1) by (simp add: list_ok_def)
qed

section \<open>Adding at the ends\<close>

lemma listLinkNodeTail_ok:
  assumes "list_ok h l xs" "map_of h a = Some nd" "a \<notin> addrs xs" "Suc (length xs) < ULONG_WRAP"
  shows "\<exists>h' l'. listLinkNodeTail h l a = Some (h', l') \<and> list_ok h' l' (xs @ [(a, node_value nd)]) \<and>
    same_out (insert a (addrs xs)) h h' \<and> methods l' = methods l \<and> dom (map_of h') = dom (map_of h)"
proof (cases xs rule: rev_cases)
  case Nil
  then show ?thesis using assms
    by (auto simp: listLinkNodeTail_def list_ok_def heap_simps ul_inc_eq same_out_def methods_def dom_def)
next
  case (snoc ys y)
  obtain b v where y: "y = (b, v)" by force
  show ?thesis using assms snoc y
    by (auto simp: listLinkNodeTail_def list_ok_def heap_simps image_Un ul_inc_eq same_out_def methods_def)
qed

lemma listLinkNodeHead_ok:
  assumes "list_ok h l xs" "map_of h a = Some nd" "a \<notin> addrs xs" "Suc (length xs) < ULONG_WRAP"
  shows "\<exists>h' l'. listLinkNodeHead h l a = Some (h', l') \<and> list_ok h' l' ((a, node_value nd) # xs) \<and>
    same_out (insert a (addrs xs)) h h' \<and> methods l' = methods l \<and> dom (map_of h') = dom (map_of h)"
proof (cases xs)
  case Nil
  then show ?thesis using assms
    by (auto simp: listLinkNodeHead_def list_ok_def heap_simps image_Un ul_inc_eq same_out_def methods_def)
next
  case (Cons y ys)
  obtain b v where y: "y = (b, v)" by force
  show ?thesis using assms Cons y
    by (auto simp: listLinkNodeHead_def list_ok_def heap_simps image_Un ul_inc_eq same_out_def methods_def)
qed

section \<open>Footprints\<close>

text \<open>
  An operation that turns the list \<open>xs\<close> into \<open>ys\<close> touches no other node, takes its new nodes from free memory and
  gives the nodes it drops back.
\<close>

definition moves :: "'a heap \<Rightarrow> (nat \<times> 'a) list \<Rightarrow> 'a heap \<Rightarrow> (nat \<times> 'a) list \<Rightarrow> bool" where
  "moves h xs h' ys \<longleftrightarrow>
     (\<forall>x. x \<notin> addrs xs \<union> addrs ys \<longrightarrow> map_of h' x = map_of h x) \<and>
     (\<forall>x. x \<in> addrs ys - addrs xs \<longrightarrow> map_of h x = None) \<and>
     (\<forall>x. x \<in> addrs xs - addrs ys \<longrightarrow> map_of h' x = None)"

lemma moves_refl: "moves h xs h xs"
  by (simp add: moves_def)

lemma moves_trans: "moves h xs h1 ys \<Longrightarrow> moves h1 ys h2 zs \<Longrightarrow> moves h xs h2 zs"
  unfolding moves_def by (intro conjI; metis Diff_iff Un_iff)

lemma moves_perm: "addrs ys = addrs xs \<Longrightarrow> same_out (addrs xs) h h' \<Longrightarrow> moves h xs h' ys"
  by (auto simp: moves_def same_out_def)

text \<open>What is relied on of the allocator: a new node is not one in use, and out of memory the process ends.\<close>

definition zm_ok :: "'a zmalloc_fn \<Rightarrow> bool" where
  "zm_ok zm \<longleftrightarrow> (\<forall>h a p n. zm h = Some (a, p, n) \<longrightarrow> map_of h a = None)"

definition zm_total :: "'a zmalloc_fn \<Rightarrow> bool" where
  "zm_total zm \<longleftrightarrow> (\<forall>h. zm h \<noteq> None)"

definition zm_next :: "'a zmalloc_fn" where
  "zm_next h = Some (Suc (fold max (map fst h) 0), None, None)"

lemma fold_max_ge: "a \<in> set xs \<or> a \<le> m \<Longrightarrow> a \<le> fold max xs (m :: nat)"
proof (induction xs arbitrary: m)
  case (Cons x xs)
  have "a \<in> set xs \<or> a \<le> max x m" using Cons.prems by auto
  then show ?case using Cons.IH [of "max x m"] by simp
qed simp

lemma zm_next_ok: "zm_ok zm_next"
proof -
  have "map_of h (Suc (fold max (map fst h) 0)) = None" for h :: "'a heap"
  proof (rule ccontr)
    assume "map_of h (Suc (fold max (map fst h) 0)) \<noteq> None"
    then have "Suc (fold max (map fst h) 0) \<in> set (map fst h)" by (simp add: map_of_eq_None_iff)
    then have "Suc (fold max (map fst h) 0) \<le> fold max (map fst h) 0" using fold_max_ge by blast
    then show False by simp
  qed
  then show ?thesis by (simp add: zm_ok_def zm_next_def)
qed

lemma zm_next_total: "zm_total zm_next"
  by (simp add: zm_total_def zm_next_def)

lemma new_node_ok:
  assumes "zm_ok zm" "new_node zm h v = Some (h', a)"
  shows "map_of h a = None" "\<exists>nd. map_of h' a = Some nd \<and> node_value nd = v" "same_out {a} h h'"
  using assms by (auto simp: new_node_def zm_ok_def same_out_def heap_simps split: option.splits)

lemma list_ok_fresh:
  assumes "list_ok h l xs" "map_of h a = None"
  shows "a \<notin> addrs xs"
  using assms seg_dom unfolding list_ok_def by metis

text \<open>An operation that first makes a node and then links it.\<close>

lemma add_node_moves:
  assumes "map_of h a = None" "a \<notin> addrs xs" "same_out {a} h h1" "same_out (insert a (addrs xs)) h1 h2"
    "addrs ys = insert a (addrs xs)"
  shows "moves h xs h2 ys"
  using assms by (auto simp: moves_def same_out_def)

lemma listAddNodeTail_ok:
  assumes "list_ok h l xs" "zm_ok zm" "Suc (length xs) < ULONG_WRAP"
  shows "\<exists>r. listAddNodeTail zm (h, l) v = Some r \<and>
    (case r of None \<Rightarrow> zm h = None
     | Some (h', l') \<Rightarrow> \<exists>a. list_ok h' l' (xs @ [(a, v)]) \<and> moves h xs h' (xs @ [(a, v)]) \<and> methods l' = methods l)"
proof (cases "new_node zm h v")
  case None
  then show ?thesis by (auto simp: listAddNodeTail_def new_node_def split: option.splits)
next
  case (Some ha)
  obtain h1 a where ha: "ha = (h1, a)" by force
  note n = new_node_ok [OF assms(2), of h v h1 a, unfolded Some ha, OF refl]
  obtain nd where nd: "map_of h1 a = Some nd" "node_value nd = v" using n(2) by blast
  have a: "a \<notin> addrs xs" using list_ok_fresh [OF assms(1) n(1)] .
  have l1: "list_ok h1 l xs" by (rule list_ok_same_out [OF assms(1) n(3)]) (use a in simp)
  obtain h2 l2 where "listLinkNodeTail h1 l a = Some (h2, l2)" "list_ok h2 l2 (xs @ [(a, v)])"
    "same_out (insert a (addrs xs)) h1 h2" "methods l2 = methods l"
    using listLinkNodeTail_ok [OF l1 nd(1) a assms(3)] nd(2) by blast
  then show ?thesis
    using Some ha add_node_moves [OF n(1) a n(3), of h2 "xs @ [(a, v)]"] by (auto simp: listAddNodeTail_def)
qed

lemma listAddNodeHead_ok:
  assumes "list_ok h l xs" "zm_ok zm" "Suc (length xs) < ULONG_WRAP"
  shows "\<exists>r. listAddNodeHead zm (h, l) v = Some r \<and>
    (case r of None \<Rightarrow> zm h = None
     | Some (h', l') \<Rightarrow> \<exists>a. list_ok h' l' ((a, v) # xs) \<and> moves h xs h' ((a, v) # xs) \<and> methods l' = methods l)"
proof (cases "new_node zm h v")
  case None
  then show ?thesis by (auto simp: listAddNodeHead_def new_node_def split: option.splits)
next
  case (Some ha)
  obtain h1 a where ha: "ha = (h1, a)" by force
  note n = new_node_ok [OF assms(2), of h v h1 a, unfolded Some ha, OF refl]
  obtain nd where nd: "map_of h1 a = Some nd" "node_value nd = v" using n(2) by blast
  have a: "a \<notin> addrs xs" using list_ok_fresh [OF assms(1) n(1)] .
  have l1: "list_ok h1 l xs" by (rule list_ok_same_out [OF assms(1) n(3)]) (use a in simp)
  obtain h2 l2 where "listLinkNodeHead h1 l a = Some (h2, l2)" "list_ok h2 l2 ((a, v) # xs)"
    "same_out (insert a (addrs xs)) h1 h2" "methods l2 = methods l"
    using listLinkNodeHead_ok [OF l1 nd(1) a assms(3)] nd(2) by blast
  then show ?thesis
    using Some ha add_node_moves [OF n(1) a n(3), of h2 "(a, v) # xs"] by (auto simp: listAddNodeHead_def)
qed

section \<open>Inserting and deleting at a node\<close>

lemma link_after:
  assumes "list_ok h l (xs @ (b, w) # ys)" "map_of h a = None" "zm h = Some (a, p, n)"
    "Suc (length (xs @ (b, w) # ys)) < ULONG_WRAP"
  shows "\<exists>h' l'. listInsertNode zm (h, l) b v True = Some (Some (h', l')) \<and> list_ok h' l' (xs @ (b, w) # (a, v) # ys) \<and>
    same_out (insert a (addrs (xs @ (b, w) # ys))) h h' \<and> methods l' = methods l"
proof (cases ys)
  case Nil
  have a: "a \<notin> addrs (xs @ (b, w) # ys)" using list_ok_fresh [OF assms(1,2)] .
  show ?thesis using assms a Nil
    by (auto simp: listInsertNode_def new_node_def list_ok_def heap_simps image_Un ul_inc_eq same_out_def methods_def)
next
  case (Cons y zs)
  obtain c u where y: "y = (c, u)" by force
  have a: "a \<notin> addrs (xs @ (b, w) # ys)" using list_ok_fresh [OF assms(1,2)] .
  have t: "tail l \<noteq> Some b" using assms(1) Cons by (auto simp: list_ok_def last_or_def)
  show ?thesis using assms a Cons y t
    by (auto simp: listInsertNode_def new_node_def list_ok_def heap_simps image_Un ul_inc_eq same_out_def methods_def)
qed

lemma link_before:
  assumes "list_ok h l (xs @ (b, w) # ys)" "map_of h a = None" "zm h = Some (a, p, n)"
    "Suc (length (xs @ (b, w) # ys)) < ULONG_WRAP"
  shows "\<exists>h' l'. listInsertNode zm (h, l) b v False = Some (Some (h', l')) \<and> list_ok h' l' (xs @ (a, v) # (b, w) # ys) \<and>
    same_out (insert a (addrs (xs @ (b, w) # ys))) h h' \<and> methods l' = methods l"
proof (cases xs rule: rev_cases)
  case Nil
  have a: "a \<notin> addrs (xs @ (b, w) # ys)" using list_ok_fresh [OF assms(1,2)] .
  show ?thesis using assms a Nil
    by (auto simp: listInsertNode_def new_node_def list_ok_def heap_simps image_Un ul_inc_eq same_out_def methods_def)
next
  case (snoc zs y)
  obtain c u where y: "y = (c, u)" by force
  have a: "a \<notin> addrs (xs @ (b, w) # ys)" using list_ok_fresh [OF assms(1,2)] .
  have t: "head l \<noteq> Some b" using assms(1) snoc by (cases zs) (auto simp: list_ok_def)
  show ?thesis using assms a snoc y t
    by (auto simp: listInsertNode_def new_node_def list_ok_def heap_simps image_Un ul_inc_eq same_out_def methods_def)
qed

lemma listInsertNode_ok:
  assumes "list_ok h l (xs @ (b, w) # ys)" "zm_ok zm" "Suc (length (xs @ (b, w) # ys)) < ULONG_WRAP"
  shows "\<exists>r. listInsertNode zm (h, l) b v after = Some r \<and>
    (case r of None \<Rightarrow> zm h = None
     | Some (h', l') \<Rightarrow> \<exists>a. let zs = (if after then xs @ (b, w) # (a, v) # ys else xs @ (a, v) # (b, w) # ys) in
         list_ok h' l' zs \<and> moves h (xs @ (b, w) # ys) h' zs \<and> methods l' = methods l)"
proof (cases "zm h")
  case None
  then show ?thesis by (simp add: listInsertNode_def new_node_def)
next
  case (Some r)
  obtain a p n where r: "r = (a, p, n)" by (cases r) auto
  have f: "map_of h a = None" using assms(2) Some r by (simp add: zm_ok_def)
  have a: "a \<notin> addrs (xs @ (b, w) # ys)" using list_ok_fresh [OF assms(1) f] .
  show ?thesis
  proof (cases after)
    case True
    obtain h' l' where "listInsertNode zm (h, l) b v True = Some (Some (h', l'))"
      "list_ok h' l' (xs @ (b, w) # (a, v) # ys)" "same_out (insert a (addrs (xs @ (b, w) # ys))) h h'"
      "methods l' = methods l" using link_after [OF assms(1) f, of zm p n v] Some r assms(3) by blast
    then show ?thesis using True f add_node_moves [OF f a, of h h' "xs @ (b, w) # (a, v) # ys"]
      by (auto simp: same_out_def insert_commute Let_def)
  next
    case False
    obtain h' l' where "listInsertNode zm (h, l) b v False = Some (Some (h', l'))"
      "list_ok h' l' (xs @ (a, v) # (b, w) # ys)" "same_out (insert a (addrs (xs @ (b, w) # ys))) h h'"
      "methods l' = methods l" using link_before [OF assms(1) f, of zm p n v] Some r assms(3) by blast
    then show ?thesis using False f add_node_moves [OF f a, of h h' "xs @ (a, v) # (b, w) # ys"]
      by (auto simp: same_out_def Let_def)
  qed
qed

lemma listUnlinkNode_ok:
  assumes "list_ok h l (xs @ (b, w) # ys)"
  shows "\<exists>h' l'. listUnlinkNode h l b = Some (h', l') \<and> list_ok h' l' (xs @ ys) \<and>
    same_out (addrs (xs @ (b, w) # ys)) h h' \<and>
    map_of h' b = Some \<lparr>node_prev = None, node_next = None, node_value = w\<rparr> \<and> methods l' = methods l"
proof (cases xs rule: rev_cases)
  case Nil
  then show ?thesis using assms
    by (cases ys) (auto simp: listUnlinkNode_def list_ok_def heap_simps image_Un ul_dec_eq same_out_def methods_def)
next
  case (snoc zs y)
  obtain c u where y: "y = (c, u)" by force
  show ?thesis using assms snoc y
    by (cases ys) (auto simp: listUnlinkNode_def list_ok_def heap_simps image_Un ul_dec_eq same_out_def methods_def)
qed

lemma listDelNode_ok:
  assumes "list_ok h l (xs @ (b, w) # ys)"
  shows "\<exists>h' l'. listDelNode h l b = Some (h', l', if free l then [w] else []) \<and> list_ok h' l' (xs @ ys) \<and>
    moves h (xs @ (b, w) # ys) h' (xs @ ys) \<and> methods l' = methods l"
proof -
  obtain h1 l1 where u: "listUnlinkNode h l b = Some (h1, l1)" "list_ok h1 l1 (xs @ ys)"
    "same_out (addrs (xs @ (b, w) # ys)) h h1" "map_of h1 b = Some \<lparr>node_prev = None, node_next = None, node_value = w\<rparr>"
    "methods l1 = methods l" using listUnlinkNode_ok [OF assms] by blast
  have b: "b \<notin> addrs (xs @ ys)" using assms by (auto simp: list_ok_def)
  have "list_ok (AList.delete b h1) l1 (xs @ ys)"
    by (rule list_ok_same_out [OF u(2), of "{b}"]) (use b in \<open>auto simp: same_out_def heap_simps\<close>)
  moreover have "moves h (xs @ (b, w) # ys) (AList.delete b h1) (xs @ ys)"
    using u(3) b by (auto simp: moves_def same_out_def heap_simps)
  ultimately show ?thesis using u by (simp add: listDelNode_def zfree_node_def methods_def)
qed

section \<open>Emptying\<close>

lemma listEmpty_loop_ok:
  "seg (map_of h) p xs n \<Longrightarrow> distinct (map fst xs) \<Longrightarrow>
   \<exists>h'. listEmpty_loop h (first_or xs n) (length xs) = Some (h', vals xs) \<and>
     (\<forall>x. map_of h' x = (if x \<in> addrs xs then None else map_of h x))"
proof (induction xs arbitrary: h p)
  case (Cons x xs)
  have "seg (map_of (AList.delete (fst x) h)) (Some (fst x)) xs n" using Cons.prems by (simp add: heap_simps)
  then obtain h' where "listEmpty_loop (AList.delete (fst x) h) (first_or xs n) (length xs) = Some (h', vals xs)"
    "\<forall>y. map_of h' y = (if y \<in> addrs xs then None else map_of (AList.delete (fst x) h) y)"
    using Cons.IH Cons.prems(2) by force
  then show ?case using Cons.prems(1) by (auto simp: zfree_node_def heap_simps)
qed simp

lemma listEmpty_ok:
  assumes "list_ok h l xs"
  shows "\<exists>h'. listEmpty h l = Some (h', l\<lparr>head := None, tail := None, len := 0\<rparr>, if free l then vals xs else []) \<and>
    list_ok h' (l\<lparr>head := None, tail := None, len := 0\<rparr>) [] \<and> moves h xs h' []"
proof -
  obtain h' where "listEmpty_loop h (first_or xs None) (length xs) = Some (h', vals xs)"
    "\<forall>x. map_of h' x = (if x \<in> addrs xs then None else map_of h x)"
    using listEmpty_loop_ok [of h None xs None] assms by (auto simp: list_ok_def)
  then show ?thesis using assms by (auto simp: listEmpty_def list_ok_def moves_def)
qed

section \<open>Indices, rotation, concatenation\<close>

lemma list_walk_next:
  "seg (map_of h) p xs None \<Longrightarrow>
   list_walk node_next h (first_or xs None) i = Some (if i < length xs then Some (fst (xs ! i)) else None)"
proof (induction xs arbitrary: p i)
  case Nil
  then show ?case by (cases i) auto
next
  case (Cons x xs)
  then show ?case by (cases i) auto
qed

lemma list_walk_prev:
  "seg (map_of h) None xs n \<Longrightarrow>
   list_walk node_prev h (last_or None xs) i =
     Some (if i < length xs then Some (fst (xs ! (length xs - 1 - i))) else None)"
proof (induction xs arbitrary: n i rule: rev_induct)
  case Nil
  then show ?case by (cases i) auto
next
  case (snoc x xs)
  then show ?case by (cases i) (auto simp: nth_append)
qed

text \<open>The position that an index counted from either end denotes.\<close>

definition norm_index :: "nat \<Rightarrow> int \<Rightarrow> nat option" where
  "norm_index n i =
     (let p = (if i < 0 then int n + i else i) in if 0 \<le> p \<and> p < int n then Some (nat p) else None)"

lemma listIndex_ok:
  assumes "list_ok h l xs" "i \<noteq> INT64_MIN"
  shows "listIndex h l i = Some (map_option (\<lambda>p. fst (xs ! p)) (norm_index (length xs) i))"
proof (cases "i < 0")
  case True
  have l: "list_walk node_prev h (tail l) (nat (- i - 1)) =
      Some (if nat (- i - 1) < length xs then Some (fst (xs ! (length xs - 1 - nat (- i - 1)))) else None)"
    using list_walk_prev [of h xs None "nat (- i - 1)"] assms(1) by (simp add: list_ok_def)
  have "length xs - 1 - nat (- i - 1) = nat (int (length xs) + i)" if "nat (- i - 1) < length xs"
    using that True by linarith
  moreover have "nat (- i - 1) < length xs \<longleftrightarrow> 0 \<le> int (length xs) + i" using True by linarith
  ultimately show ?thesis using l assms(2) True by (simp add: listIndex_def norm_index_def)
next
  case False
  then show ?thesis using list_walk_next [of h None xs "nat i"] assms(1)
    by (auto simp: listIndex_def norm_index_def list_ok_def Let_def)
qed

lemma listRotateTailToHead_ok:
  assumes "list_ok h l xs"
  shows "\<exists>h' l'. listRotateTailToHead h l = Some (h', l') \<and>
    list_ok h' l' (if xs = [] then [] else last xs # butlast xs) \<and> same_out (addrs xs) h h' \<and> methods l' = methods l"
proof (cases "length xs \<le> 1")
  case True
  then have "xs = [] \<or> (\<exists>x. xs = [x])" by (cases xs) auto
  then show ?thesis using assms
    by (auto simp: listRotateTailToHead_def list_ok_def same_out_def)
next
  case False
  then obtain x ys z where xs: "xs = (x # ys) @ [z]" by (cases xs; cases "tl xs" rule: rev_cases) auto
  obtain a v b w where xz: "x = (a, v)" "z = (b, w)" by force
  show ?thesis
  proof (cases ys rule: rev_cases)
    case Nil
    show ?thesis using assms unfolding xs xz Nil
      by (auto simp: listRotateTailToHead_def list_ok_def heap_simps deref_def Let_def same_out_def methods_def)
  next
    case (snoc zs y)
    obtain c u where "y = (c, u)" by force
    then show ?thesis using assms unfolding xs xz snoc
      by (auto simp: listRotateTailToHead_def list_ok_def heap_simps deref_def Let_def same_out_def methods_def image_Un butlast_append)
  qed
qed

lemma listRotateHeadToTail_ok:
  assumes "list_ok h l xs"
  shows "\<exists>h' l'. listRotateHeadToTail h l = Some (h', l') \<and>
    list_ok h' l' (rotate1 xs) \<and> same_out (addrs xs) h h' \<and> methods l' = methods l"
proof (cases "length xs \<le> 1")
  case True
  then have "xs = [] \<or> (\<exists>x. xs = [x])" by (cases xs) auto
  then show ?thesis using assms
    by (auto simp: listRotateHeadToTail_def list_ok_def same_out_def)
next
  case False
  then obtain x ys z where xs: "xs = x # ys @ [z]" by (cases xs; cases "tl xs" rule: rev_cases) auto
  obtain a v b w where xz: "x = (a, v)" "z = (b, w)" by force
  show ?thesis
  proof (cases ys)
    case Nil
    show ?thesis using assms unfolding xs xz Nil
      by (auto simp: listRotateHeadToTail_def list_ok_def heap_simps deref_def Let_def same_out_def methods_def)
  next
    case (Cons y zs)
    obtain c u where "y = (c, u)" by force
    then show ?thesis using assms unfolding xs xz Cons
      by (auto simp: listRotateHeadToTail_def list_ok_def heap_simps deref_def Let_def same_out_def methods_def image_Un)
  qed
qed

lemma listJoin_ok:
  assumes "list_ok h l xs" "list_ok h other ys" "addrs xs \<inter> addrs ys = {}" "length xs + length ys < ULONG_WRAP"
  shows "\<exists>h' l' other'. listJoin h l other = Some (h', l', other') \<and> list_ok h' l' (xs @ ys) \<and>
    list_ok h' other' [] \<and> same_out (addrs (xs @ ys)) h h' \<and> methods l' = methods l \<and> methods other' = methods other"
proof (cases ys)
  case Nil
  then show ?thesis using assms by (auto simp: listJoin_def list_ok_def same_out_def)
next
  case (Cons y zs)
  obtain b w where y: "y = (b, w)" by force
  show ?thesis
  proof (cases xs rule: rev_cases)
    case Nil
    then show ?thesis using assms Cons y by (auto simp: listJoin_def list_ok_def heap_simps same_out_def methods_def)
  next
    case (snoc us x)
    obtain a v where x: "x = (a, v)" by force
    have d: "a \<noteq> b" "a \<notin> addrs zs" "b \<notin> addrs us" using assms(3) Cons y snoc x by auto
    show ?thesis using assms snoc x Cons y d
      by (auto simp: listJoin_def list_ok_def heap_simps same_out_def methods_def image_Un)
  qed
qed

section \<open>Search and duplication\<close>

lemma listNext_forward:
  "seg (map_of h) p (x # ys) None \<Longrightarrow>
   listNext h \<lparr>iter_next = Some (fst x), iter_direction = AL_START_HEAD\<rparr> =
     Some (\<lparr>iter_next = first_or ys None, iter_direction = AL_START_HEAD\<rparr>, Some (fst x))"
  by (simp add: listNext_def)

definition list_matches :: "'a adlist \<Rightarrow> 'a \<Rightarrow> nat \<times> 'a \<Rightarrow> bool" where
  "list_matches l key x \<longleftrightarrow> (case match l of Some f \<Rightarrow> f (snd x) key | None \<Rightarrow> key = snd x)"

lemma listSearch_loop_ok:
  "seg (map_of h) p xs None \<Longrightarrow>
   listSearch_loop h l key \<lparr>iter_next = first_or xs None, iter_direction = AL_START_HEAD\<rparr> =
     Some (map_option fst (find (list_matches l key) xs))"
proof (induction xs arbitrary: p)
  case Nil
  show ?case by (subst listSearch_loop.simps) (simp add: listNext_def)
next
  case (Cons x xs)
  have "listSearch_loop h l key \<lparr>iter_next = first_or (x # xs) None, iter_direction = AL_START_HEAD\<rparr> =
      (if list_matches l key x then Some (Some (fst x))
       else listSearch_loop h l key \<lparr>iter_next = first_or xs None, iter_direction = AL_START_HEAD\<rparr>)"
    using Cons.prems
    by (subst listSearch_loop.simps) (cases "match l"; simp add: listNext_forward [OF Cons.prems] list_matches_def)
  moreover have "seg (map_of h) (Some (fst x)) xs None" using Cons.prems by simp
  ultimately show ?case using Cons.IH [of "Some (fst x)"] by simp
qed

lemma listSearchKey_ok:
  "list_ok h l xs \<Longrightarrow> listSearchKey h l key = Some (map_option fst (find (list_matches l key) xs))"
  using listSearch_loop_ok [of h None xs l key] by (simp add: listSearchKey_def listRewind_def list_ok_def)

definition dup_value :: "'a adlist \<Rightarrow> 'a \<Rightarrow> 'a option" where
  "dup_value l v = (case dup l of Some f \<Rightarrow> f v | None \<Rightarrow> Some v)"

text \<open>
  The outcome of copying the values \<open>todo\<close> of a list, by comparison with \<open>push_all\<close>, which adds values at the tail of an
  empty list one after the other. A copy is complete if it is what pushing the duplicates of all values yields. A copy
  stops after the duplicates \<open>us\<close> if all of them could be pushed and the next value has no duplicate, or if the last
  of them is the first that could not be pushed.
\<close>

definition list_like :: "'a adlist \<Rightarrow> 'a adlist" where
  "list_like orig = orig\<lparr>head := None, tail := None, len := 0\<rparr>"

definition dup_stops :: "'a zmalloc_fn \<Rightarrow> 'a heap \<Rightarrow> 'a adlist \<Rightarrow> 'a list \<Rightarrow> 'a list \<Rightarrow> bool" where
  "dup_stops zm h orig todo us \<longleftrightarrow>
     (let pushed = push_all (listAddNodeTail zm) (h, list_like orig) in
      (\<exists>s. pushed us = Some (Some s)) \<and> length us < length todo \<and> dup_value orig (todo ! length us) = None \<or>
      us \<noteq> [] \<and> (\<exists>s. pushed (butlast us) = Some (Some s)) \<and> pushed us = Some None)"

definition dup_outcome :: "'a zmalloc_fn \<Rightarrow> 'a heap \<Rightarrow> 'a adlist \<Rightarrow> 'a list \<Rightarrow> 'a heap \<times> 'a adlist option \<times> 'a list \<Rightarrow> bool" where
  "dup_outcome zm h orig todo r \<longleftrightarrow>
     (case r of
        (h', Some copy, freed) \<Rightarrow>
          freed = [] \<and> methods copy = methods orig \<and>
          (\<exists>ws. list_ok h' copy ws \<and> map Some (vals ws) = map (dup_value orig) todo \<and> moves h [] h' ws \<and>
             push_all (listAddNodeTail zm) (h, list_like orig) (vals ws) = Some (Some (h', copy)))
      | (h', None, freed) \<Rightarrow>
          map_of h' = map_of h \<and> (\<not> zm_total zm \<or> None \<in> dup_value orig ` set todo) \<and>
          (\<exists>us. prefix (map Some us) (map (dup_value orig) todo) \<and> dup_stops zm h orig todo us \<and>
             mset freed = (if free orig then mset us else {#})))"

text \<open>The values at which a copy stops are determined, so a failure frees exactly one multiset of values.\<close>

lemma dup_stops_le:
  assumes "dup_stops zm h orig todo us" "dup_stops zm h orig todo vs"
    "prefix (map Some us) (map (dup_value orig) todo)" "prefix (map Some vs) (map (dup_value orig) todo)"
  shows "length vs \<le> length us"
proof (rule ccontr)
  let ?p = "push_all (listAddNodeTail zm) (h, list_like orig)"
  assume "\<not> length vs \<le> length us"
  then have l: "length us < length vs" by simp
  have "prefix (map Some us) (map Some vs)" using prefix_length_prefix [OF assms(3,4)] l by simp
  then obtain ws where "map Some vs = map Some us @ ws" by (auto simp: prefix_def)
  then have t: "us = take (length us) vs" by (metis append_eq_conv_conj length_map list.inj_map_strong option.inject take_map)
  then obtain ts where v: "vs = us @ ts" by (metis append_take_drop_id)
  have n: "length us < length todo" "dup_value orig (todo ! length us) = Some (vs ! length us)"
  proof -
    have "length vs \<le> length todo" using assms(4) by (auto dest: prefix_length_le)
    then show "length us < length todo" using l by simp
    have "map (dup_value orig) todo ! length us = map Some vs ! length us" using assms(4) l by (auto simp: prefix_def nth_append)
    then show "dup_value orig (todo ! length us) = Some (vs ! length us)" using l \<open>length us < length todo\<close> by simp
  qed
  then have u: "?p us = Some None" using assms(1) by (auto simp: dup_stops_def Let_def)
  have "ts \<noteq> []" using v l by auto
  then have "butlast vs = us @ butlast ts" by (simp add: v butlast_append)
  then have "?p (butlast vs) = Some None" "?p vs = Some None" using u v by (simp_all add: push_all_append)
  then show False using assms(2) by (auto simp: dup_stops_def Let_def)
qed

lemma dup_stops_unique:
  assumes "dup_stops zm h orig todo us" "dup_stops zm h orig todo vs"
    "prefix (map Some us) (map (dup_value orig) todo)" "prefix (map Some vs) (map (dup_value orig) todo)"
  shows "us = vs"
proof -
  have "length us = length vs" using dup_stops_le [OF assms] dup_stops_le [OF assms(2,1,4,3)] by simp
  then have "map Some us = map Some vs" using assms(3,4) by (auto simp: prefix_def)
  then show ?thesis by (simp add: inj_map_eq_map)
qed

lemma moves_Nil: "moves h0 [] h [] \<Longrightarrow> map_of h = map_of h0"
  by (auto simp: moves_def)

lemma moves_Nil_disjoint:
  assumes "moves h0 [] h ys" "list_ok h0 l xs"
  shows "addrs ys \<inter> addrs xs = {}"
proof -
  have "a \<notin> addrs xs" if "a \<in> addrs ys" for a
    using list_ok_fresh [OF assms(2), of a] assms(1) that by (simp add: moves_def)
  then show ?thesis by blast
qed

lemma moves_Nil_list_ok:
  assumes "moves h0 [] h ys" "list_ok h0 l xs"
  shows "list_ok h l xs"
  by (rule list_ok_same_out [OF assms(2), of "addrs ys"])
    (use assms(1) moves_Nil_disjoint [OF assms] in \<open>auto simp: moves_def same_out_def\<close>)

lemma release_copy:
  assumes "moves h0 [] h ys" "list_ok h copy ys"
  shows "\<exists>h'. listRelease h (Some copy) = Some (h', if free copy then vals ys else []) \<and> map_of h' = map_of h0"
proof -
  obtain h' where "listEmpty h copy = Some (h', copy\<lparr>head := None, tail := None, len := 0\<rparr>, if free copy then vals ys else [])"
    "moves h ys h' []" using listEmpty_ok [OF assms(2)] by blast
  then show ?thesis using moves_Nil [OF moves_trans [OF assms(1)]] by (simp add: listRelease_def)
qed

lemma dup_outcome_None:
  assumes "map_of h' = map_of h" "\<not> zm_total zm \<or> None \<in> dup_value orig ` set todo"
    "prefix (map Some us) (map (dup_value orig) todo)" "dup_stops zm h orig todo us" "mset freed = (if free orig then mset us else {#})"
  shows "dup_outcome zm h orig todo (h', None, freed)"
  using assms unfolding dup_outcome_def by auto

lemma listDup_loop_ok:
  assumes "list_ok h0 orig (ds @ zs)" "list_ok h copy ys" "moves h0 [] h ys" "zm_ok zm" "length ys + length zs < ULONG_WRAP"
    "methods copy = methods orig" "map Some (vals ys) = map (dup_value orig) (vals ds)"
    "push_all (listAddNodeTail zm) (h0, list_like orig) (vals ys) = Some (Some (h, copy))"
  shows "\<exists>r. listDup_loop zm h copy \<lparr>iter_next = first_or zs None, iter_direction = AL_START_HEAD\<rparr> = Some r \<and>
    dup_outcome zm h0 orig (vals (ds @ zs)) r"
  using assms
proof (induction zs arbitrary: ds h copy ys)
  case Nil
  then show ?case by (subst listDup_loop.simps) (auto simp: listNext_def dup_outcome_def)
next
  case (Cons z zs)
  let ?todo = "vals (ds @ z # zs)"
  have d: "dup_value copy = dup_value orig" "free copy = free orig" using Cons.prems(6) by (auto simp: methods_def dup_value_def)
  have n: "length ys = length ds" using Cons.prems(7) by (metis length_map)
  have o: "list_ok h orig (ds @ z # zs)" using moves_Nil_list_ok [OF Cons.prems(3,1)] .
  then have s: "seg (map_of h) (last_or None ds) (z # zs) None" by (simp add: list_ok_def)
  note nx = listNext_forward [OF s]
  have step: "listDup_loop zm h copy \<lparr>iter_next = first_or (z # zs) None, iter_direction = AL_START_HEAD\<rparr> =
      (case dup_value copy (snd z) of
         None \<Rightarrow> do { (h, vs) \<leftarrow> listRelease h (Some copy); Some (h, None, vs) }
       | Some value \<Rightarrow>
           do { r \<leftarrow> listAddNodeTail zm (h, copy) value;
                case r of
                  None \<Rightarrow> do { (h, vs) \<leftarrow> listRelease h (Some copy); Some (h, None, (if free copy then [value] else []) @ vs) }
                | Some (h, copy) \<Rightarrow>
                    listDup_loop zm h copy \<lparr>iter_next = first_or zs None, iter_direction = AL_START_HEAD\<rparr> })"
    using s by (subst listDup_loop.simps) (cases "dup copy"; simp add: nx dup_value_def)
  obtain h1 where rel: "listRelease h (Some copy) = Some (h1, if free copy then vals ys else [])" "map_of h1 = map_of h0"
    using release_copy [OF Cons.prems(3,2)] by blast
  show ?case
  proof (cases "dup_value copy (snd z)")
    case None
    have "dup_outcome zm h0 orig ?todo (h1, None, if free copy then vals ys else [])"
      by (rule dup_outcome_None [OF rel(2), where us = "vals ys"]) (use None Cons.prems(7,8) n d in \<open>auto simp: dup_stops_def nth_append\<close>)
    then show ?thesis unfolding step using None rel(1) by simp
  next
    case (Some v)
    have "Suc (length ys) < ULONG_WRAP" using Cons.prems(5) by simp
    then obtain r where r: "listAddNodeTail zm (h, copy) v = Some r"
      "case r of None \<Rightarrow> zm h = None
       | Some (h', l') \<Rightarrow> \<exists>a. list_ok h' l' (ys @ [(a, v)]) \<and> moves h ys h' (ys @ [(a, v)]) \<and> methods l' = methods copy"
      using listAddNodeTail_ok [OF Cons.prems(2,4), of v] by blast
    show ?thesis
    proof (cases r)
      case None
      have nt: "\<not> zm_total zm" using r(2) None unfolding zm_total_def by fastforce
      have "push_all (listAddNodeTail zm) (h0, list_like orig) (vals ys @ [v]) = Some None"
        using Cons.prems(8) r(1) None by (simp add: push_all_append)
      then have "dup_stops zm h0 orig ?todo (vals ys @ [v])" using Cons.prems(8) by (auto simp: dup_stops_def)
      moreover have "prefix (map Some (vals ys @ [v])) (map (dup_value orig) ?todo)" using Cons.prems(7) Some d by simp
      ultimately have "dup_outcome zm h0 orig ?todo (h1, None, (if free copy then [v] else []) @ (if free copy then vals ys else []))"
        by (intro dup_outcome_None [OF rel(2), where us = "vals ys @ [v]"]) (use nt d in auto)
      then show ?thesis unfolding step using Some r(1) None rel(1) by simp
    next
      case s: (Some hc)
      obtain h' c' where hc: "hc = (h', c')" by force
      obtain a where a: "list_ok h' c' (ys @ [(a, v)])" "moves h ys h' (ys @ [(a, v)])" "methods c' = methods copy"
        using r(2) s hc by auto
      have "push_all (listAddNodeTail zm) (h0, list_like orig) (vals (ys @ [(a, v)])) = Some (Some (h', c'))"
        using Cons.prems(8) r(1) s hc by (simp add: push_all_append)
      then obtain r' where r': "listDup_loop zm h' c' \<lparr>iter_next = first_or zs None, iter_direction = AL_START_HEAD\<rparr> = Some r'"
        "dup_outcome zm h0 orig (vals ((ds @ [z]) @ zs)) r'"
        using Cons.IH [of "ds @ [z]" h' c' "ys @ [(a, v)]"] Cons.prems(1,4,5,6,7) a(1,3) moves_trans [OF Cons.prems(3) a(2)] Some d by auto
      then show ?thesis unfolding step using r(1) s hc Some by simp
    qed
  qed
qed

lemma listDup_ok:
  assumes "list_ok h orig xs" "zm_ok zm"
  shows "\<exists>r. listDup True zm h orig = Some r \<and> dup_outcome zm h orig (vals xs) r"
proof -
  have c: "listDup True zm h orig = listDup_loop zm h (list_like orig) (listRewind orig)"
    by (cases orig) (simp add: listDup_def listCreate_def list_like_def)
  have "list_ok h (list_like orig) []" "methods (list_like orig) = methods orig" by (simp_all add: list_ok_def list_like_def methods_def)
  then show ?thesis unfolding c using listDup_loop_ok [of h orig "[]" xs h "list_like orig" "[]" zm] assms
    by (auto simp: listRewind_def list_ok_def moves_def)
qed

end
