(* ===== verification/Adlist_Props.thy ===== *)
theory Adlist_Props
  imports Adlist_Ops
begin

text \<open>
  The linked list as a container of a sequence: it provides the interface \<open>seq_grow\<close>, and any program of list
  operations on the heap computes what the same program computes on a plain list.
\<close>

section \<open>The interface\<close>

definition list_holds :: "'a zmalloc_fn \<Rightarrow> 'a heap \<times> 'a adlist \<Rightarrow> 'a list \<Rightarrow> bool" where
  "list_holds zm s vs \<longleftrightarrow> zm_ok zm \<and> zm_total zm \<and> (\<exists>xs. list_ok (fst s) (snd s) xs \<and> vals xs = vs)"

abbreviation list_fits :: "'a list \<Rightarrow> bool" where
  "list_fits vs \<equiv> length vs < ULONG_WRAP"

interpretation adl: seq_grow "list_holds zm" list_fits "listAddNodeTail zm" "listAddNodeHead zm" for zm
proof
  fix s :: "'a heap \<times> 'a adlist" and vs :: "'a list" and v :: 'a
  assume s: "list_holds zm s vs"
  obtain h l xs where sx: "s = (h, l)" "list_ok h l xs" "vals xs = vs" "zm_ok zm" "zm h \<noteq> None"
    using s by (cases s) (auto simp: list_holds_def zm_total_def)
  have n: "length vs = length xs" using sx(3) by auto
  {
    assume "length (vs @ [v]) < ULONG_WRAP"
    then show "\<exists>s'. listAddNodeTail zm s v = Some (Some s') \<and> list_holds zm s' (vs @ [v])"
      using listAddNodeTail_ok [OF sx(2,4), of v] sx s n by (fastforce simp: list_holds_def split: option.splits)
  next
    assume "length (v # vs) < ULONG_WRAP"
    then show "\<exists>s'. listAddNodeHead zm s v = Some (Some s') \<and> list_holds zm s' (v # vs)"
      using listAddNodeHead_ok [OF sx(2,4), of v] sx s n by (fastforce simp: list_holds_def split: option.splits)
  }
qed simp

section \<open>Programs of list operations\<close>

datatype 'a list_op =
    Push_head 'a
  | Push_tail 'a
  | Insert_at int 'a bool
  | Delete_at int
  | Tail_to_head
  | Head_to_tail
  | Clear

text \<open>An operation on the heap; the index operations look the node up first and do nothing when there is none.\<close>

fun list_exec :: "'a zmalloc_fn \<Rightarrow> 'a heap \<times> 'a adlist \<Rightarrow> 'a list_op \<Rightarrow> ('a heap \<times> 'a adlist) option" where
  "list_exec zm s (Push_head v) = Option.bind (listAddNodeHead zm s v) id"
| "list_exec zm s (Push_tail v) = Option.bind (listAddNodeTail zm s v) id"
| "list_exec zm s (Insert_at i v after) =
     do { n \<leftarrow> listIndex (fst s) (snd s) i;
          case n of None \<Rightarrow> Some s | Some a \<Rightarrow> Option.bind (listInsertNode zm s a v after) id }"
| "list_exec zm s (Delete_at i) =
     do { n \<leftarrow> listIndex (fst s) (snd s) i;
          case n of None \<Rightarrow> Some s
          | Some a \<Rightarrow> do { (h, l, _) \<leftarrow> listDelNode (fst s) (snd s) a; Some (h, l) } }"
| "list_exec zm s Tail_to_head = listRotateTailToHead (fst s) (snd s)"
| "list_exec zm s Head_to_tail = listRotateHeadToTail (fst s) (snd s)"
| "list_exec zm s Clear = do { (h, l, _) \<leftarrow> listEmpty (fst s) (snd s); Some (h, l) }"

fun list_run :: "'a zmalloc_fn \<Rightarrow> 'a heap \<times> 'a adlist \<Rightarrow> 'a list_op list \<Rightarrow> ('a heap \<times> 'a adlist) option" where
  "list_run zm s [] = Some s"
| "list_run zm s (p # ps) = do { s \<leftarrow> list_exec zm s p; list_run zm s ps }"

text \<open>The same on a plain list.\<close>

fun seq_exec :: "'a list \<Rightarrow> 'a list_op \<Rightarrow> 'a list" where
  "seq_exec vs (Push_head v) = v # vs"
| "seq_exec vs (Push_tail v) = vs @ [v]"
| "seq_exec vs (Insert_at i v after) =
     (case norm_index (length vs) i of
        None \<Rightarrow> vs
      | Some p \<Rightarrow> (let k = (if after then Suc p else p) in take k vs @ v # drop k vs))"
| "seq_exec vs (Delete_at i) =
     (case norm_index (length vs) i of None \<Rightarrow> vs | Some p \<Rightarrow> take p vs @ drop (Suc p) vs)"
| "seq_exec vs Tail_to_head = (if vs = [] then [] else last vs # butlast vs)"
| "seq_exec vs Head_to_tail = rotate1 vs"
| "seq_exec vs Clear = []"

fun op_index_ok :: "'a list_op \<Rightarrow> bool" where
  "op_index_ok (Insert_at i v after) \<longleftrightarrow> INT64_MIN < i"
| "op_index_ok (Delete_at i) \<longleftrightarrow> INT64_MIN < i"
| "op_index_ok _ \<longleftrightarrow> True"

lemma norm_index_less: "norm_index n i = Some p \<Longrightarrow> p < n"
  by (auto simp: norm_index_def Let_def split: if_splits)

lemma seq_exec_length: "length (seq_exec vs p) \<le> Suc (length vs)"
  by (cases p) (auto simp: Let_def norm_index_less split: option.splits dest: norm_index_less)

definition exec_ok :: "'a heap \<Rightarrow> 'a adlist \<Rightarrow> (nat \<times> 'a) list \<Rightarrow> 'a list \<Rightarrow> 'a heap \<times> 'a adlist \<Rightarrow> bool" where
  "exec_ok h l xs vs s \<longleftrightarrow>
     (\<exists>ys. list_ok (fst s) (snd s) ys \<and> vals ys = vs \<and> moves h xs (fst s) ys \<and> methods (snd s) = methods l)"

lemma split_node:
  assumes "p < length xs"
  obtains as b w bs where "xs = as @ (b, w) # bs" "length as = p" "xs ! p = (b, w)"
  using id_take_nth_drop [OF assms] assms by (metis length_take min.absorb4 surj_pair)

lemma exec_insert:
  assumes "list_ok h l xs" "zm_ok zm" "zm_total zm" "Suc (length xs) < ULONG_WRAP" "INT64_MIN < i"
  shows "\<exists>s. list_exec zm (h, l) (Insert_at i v after) = Some s \<and> exec_ok h l xs (seq_exec (vals xs) (Insert_at i v after)) s"
proof (cases "norm_index (length xs) i")
  case None
  then show ?thesis using assms listIndex_ok [OF assms(1), of i] by (auto simp: exec_ok_def moves_refl)
next
  case (Some p)
  obtain as b w bs where x: "xs = as @ (b, w) # bs" "length as = p" "xs ! p = (b, w)"
    using split_node [OF norm_index_less [OF Some]] .
  have "zm h \<noteq> None" using assms(3) by (simp add: zm_total_def)
  then obtain h' l' a where r: "listInsertNode zm (h, l) b v after = Some (Some (h', l'))"
    "let zs = (if after then as @ (b, w) # (a, v) # bs else as @ (a, v) # (b, w) # bs) in
       list_ok h' l' zs \<and> moves h xs h' zs \<and> methods l' = methods l"
    using listInsertNode_ok [of h l as b w bs zm v after] assms(1,2,4) unfolding x(1) [symmetric]
    by (fastforce split: option.splits)
  have i: "listIndex h l i = Some (Some b)" using listIndex_ok [OF assms(1), of i] assms(5) Some x(3) by simp
  have "exec_ok h l xs (seq_exec (vals xs) (Insert_at i v after)) (h', l')"
    using r(2) Some x by (cases after) (auto simp: exec_ok_def Let_def)
  then show ?thesis using r(1) i by simp
qed

lemma exec_delete:
  assumes "list_ok h l xs" "INT64_MIN < i"
  shows "\<exists>s. list_exec zm (h, l) (Delete_at i) = Some s \<and> exec_ok h l xs (seq_exec (vals xs) (Delete_at i)) s"
proof (cases "norm_index (length xs) i")
  case None
  then show ?thesis using assms listIndex_ok [OF assms(1), of i] by (auto simp: exec_ok_def moves_refl)
next
  case (Some p)
  obtain as b w bs where x: "xs = as @ (b, w) # bs" "length as = p" "xs ! p = (b, w)"
    using split_node [OF norm_index_less [OF Some]] .
  obtain h' l' where r: "listDelNode h l b = Some (h', l', if free l then [w] else [])" "list_ok h' l' (as @ bs)"
    "moves h xs h' (as @ bs)" "methods l' = methods l"
    using listDelNode_ok [of h l as b w bs] assms(1) unfolding x(1) [symmetric] by blast
  have i: "listIndex h l i = Some (Some b)" using listIndex_ok [OF assms(1), of i] assms(2) Some x(3) by simp
  have "exec_ok h l xs (seq_exec (vals xs) (Delete_at i)) (h', l')" using r(2-4) Some x by (auto simp: exec_ok_def)
  then show ?thesis using r(1) i by simp
qed

lemma exec_push:
  assumes "list_ok h l xs" "zm_ok zm" "zm_total zm" "Suc (length xs) < ULONG_WRAP"
  shows "\<exists>s. list_exec zm (h, l) (Push_head v) = Some s \<and> exec_ok h l xs (v # vals xs) s"
    and "\<exists>s. list_exec zm (h, l) (Push_tail v) = Some s \<and> exec_ok h l xs (vals xs @ [v]) s"
proof -
  have z: "zm h \<noteq> None" using assms(3) by (simp add: zm_total_def)
  obtain h' l' a where "listAddNodeHead zm (h, l) v = Some (Some (h', l'))" "list_ok h' l' ((a, v) # xs)"
    "moves h xs h' ((a, v) # xs)" "methods l' = methods l"
    using listAddNodeHead_ok [OF assms(1,2,4), of v] z by (fastforce split: option.splits)
  then show "\<exists>s. list_exec zm (h, l) (Push_head v) = Some s \<and> exec_ok h l xs (v # vals xs) s"
    by (auto simp: exec_ok_def intro!: exI [of _ "(a, v) # xs"])
  obtain h' l' a where "listAddNodeTail zm (h, l) v = Some (Some (h', l'))" "list_ok h' l' (xs @ [(a, v)])"
    "moves h xs h' (xs @ [(a, v)])" "methods l' = methods l"
    using listAddNodeTail_ok [OF assms(1,2,4), of v] z by (fastforce split: option.splits)
  then show "\<exists>s. list_exec zm (h, l) (Push_tail v) = Some s \<and> exec_ok h l xs (vals xs @ [v]) s"
    by (auto simp: exec_ok_def intro!: exI [of _ "xs @ [(a, v)]"])
qed

lemma exec_rotate:
  assumes "list_ok h l xs"
  shows "\<exists>s. list_exec zm (h, l) Tail_to_head = Some s \<and> exec_ok h l xs (seq_exec (vals xs) Tail_to_head) s"
    and "\<exists>s. list_exec zm (h, l) Head_to_tail = Some s \<and> exec_ok h l xs (seq_exec (vals xs) Head_to_tail) s"
proof -
  define ys where "ys = (if xs = [] then [] else last xs # butlast xs)"
  obtain h' l' where r: "listRotateTailToHead h l = Some (h', l')" "list_ok h' l' ys"
    "same_out (addrs xs) h h'" "methods l' = methods l" using listRotateTailToHead_ok [OF assms] unfolding ys_def by blast
  have "set ys = set xs" by (cases xs rule: rev_cases) (auto simp: ys_def)
  then have "moves h xs h' ys" using moves_perm [OF _ r(3), of ys] by simp
  moreover have "vals ys = seq_exec (vals xs) Tail_to_head" by (auto simp: ys_def last_map map_butlast)
  ultimately show "\<exists>s. list_exec zm (h, l) Tail_to_head = Some s \<and> exec_ok h l xs (seq_exec (vals xs) Tail_to_head) s"
    using r by (auto simp: exec_ok_def)
  obtain h' l' where r: "listRotateHeadToTail h l = Some (h', l')" "list_ok h' l' (rotate1 xs)"
    "same_out (addrs xs) h h'" "methods l' = methods l" using listRotateHeadToTail_ok [OF assms] by blast
  have "moves h xs h' (rotate1 xs)" using moves_perm [OF _ r(3), of "rotate1 xs"] by simp
  then show "\<exists>s. list_exec zm (h, l) Head_to_tail = Some s \<and> exec_ok h l xs (seq_exec (vals xs) Head_to_tail) s"
    using r by (auto simp: exec_ok_def rotate1_map)
qed

lemma list_exec_ok:
  assumes "list_ok h l xs" "zm_ok zm" "zm_total zm" "Suc (length xs) < ULONG_WRAP" "op_index_ok p"
  shows "\<exists>s. list_exec zm (h, l) p = Some s \<and> exec_ok h l xs (seq_exec (vals xs) p) s"
proof (cases p)
  case Clear
  then show ?thesis using listEmpty_ok [OF assms(1)] by (auto simp: exec_ok_def methods_def)
qed (use exec_push [OF assms(1-4)] exec_insert [OF assms(1-4)] exec_delete [OF assms(1)] exec_rotate [OF assms(1)]
    assms(5) in auto)

text \<open>(C12) A program of insertions at the ends or beside an indexed node, deletions, rotations and clearing, run on the
  heap, never follows a bad pointer, and leaves a well-formed doubly linked list with exactly the sequence that
  the program yields on a plain list. It changes no other node, takes new nodes from free memory only and gives every
  removed node back.
\<close>

theorem adlist_refines_seq:
  assumes "zm_ok zm" "zm_total zm" "list_ok h l xs" "length xs + length ps < ULONG_WRAP" "list_all op_index_ok ps"
  shows "\<exists>h' l' ys. list_run zm (h, l) ps = Some (h', l') \<and> list_ok h' l' ys \<and>
    vals ys = fold (\<lambda>p vs. seq_exec vs p) ps (vals xs) \<and> moves h xs h' ys \<and> methods l' = methods l"
  using assms(3-5)
proof (induction ps arbitrary: h l xs)
  case Nil
  then show ?case by (auto simp: moves_refl)
next
  case (Cons p ps)
  obtain h1 l1 ys where e: "list_exec zm (h, l) p = Some (h1, l1)" "list_ok h1 l1 ys"
    "vals ys = seq_exec (vals xs) p" "moves h xs h1 ys" "methods l1 = methods l"
    using list_exec_ok [OF Cons.prems(1) assms(1,2), of p] Cons.prems(2,3) by (auto simp: exec_ok_def)
  have "length ys \<le> Suc (length xs)" using seq_exec_length [of "vals xs" p] e(3) by (metis length_map)
  then obtain h' l' zs where "list_run zm (h1, l1) ps = Some (h', l')" "list_ok h' l' zs"
    "vals zs = fold (\<lambda>p vs. seq_exec vs p) ps (vals ys)" "moves h1 ys h' zs" "methods l' = methods l1"
    using Cons.IH [OF e(2)] Cons.prems(2,3) by auto
  then show ?case using e moves_trans [OF e(4)] by auto
qed

theorem adlist_refines_seq_witness:
  "\<exists>l h' l' ys. listCreate True = Some l \<and>
     list_run zm_next ([], l) [Push_tail (7::nat), Push_head 5, Insert_at (-1) 6 False, Delete_at 0, Head_to_tail] = Some (h', l') \<and>
     list_ok h' l' ys \<and> vals ys = [7, 6] \<and> moves [] [] h' ys \<and> methods l' = methods l"
proof -
  define l :: "nat adlist" where "l = the (listCreate True)"
  have "listCreate True = Some l" "list_ok [] l []" by (simp_all add: l_def listCreate_def list_ok_def)
  then show ?thesis
    using adlist_refines_seq [OF zm_next_ok zm_next_total, of "[]" l "[]" "[Push_tail 7, Push_head 5, Insert_at (-1) 6 False, Delete_at 0, Head_to_tail]"]
    by (simp add: norm_index_def)
qed

text \<open>(C28) Duplication returns and leaves the original alone. Without memory for the new list it does nothing. Otherwise it
  yields the list that pushing the duplicates of all values yields, on fresh nodes and with the same methods, or it stops
  at the first value that cannot be duplicated or has no node. Then the heap is restored and exactly the values duplicated
  so far, that of the missing node included, were given to the \<^verbatim>\<open>free\<close> method, each once.
\<close>

theorem listDup_correct:
  assumes "list_ok h orig xs" "zm_ok zm"
  shows "\<exists>h' copy freed. listDup alloc zm h orig = Some (h', copy, freed) \<and> list_ok h' orig xs \<and>
    (if alloc then dup_outcome zm h orig (vals xs) (h', copy, freed) else h' = h \<and> copy = None \<and> freed = [])"
proof (cases alloc)
  case False
  then show ?thesis using assms(1) by (simp add: listDup_def listCreate_def)
next
  case True
  obtain h' copy freed where r: "listDup True zm h orig = Some (h', copy, freed)"
    "dup_outcome zm h orig (vals xs) (h', copy, freed)" using listDup_ok [OF assms] by (metis prod_cases3)
  have "list_ok h' orig xs"
  proof (cases copy)
    case None
    then have "map_of h' = map_of h" using r(2) by (simp add: dup_outcome_def)
    then show ?thesis using assms(1) by (simp add: list_ok_def)
  next
    case (Some c)
    then obtain ws where "moves h [] h' ws" using r(2) by (auto simp: dup_outcome_def)
    then show ?thesis using moves_Nil_list_ok assms(1) by blast
  qed
  then show ?thesis using r True by simp
qed

theorem listDup_correct_witness:
  fixes h l
  defines "h \<equiv> [(1, \<lparr>node_prev = None, node_next = Some 2, node_value = 10\<rparr>),
                 (2, \<lparr>node_prev = Some 1, node_next = None, node_value = 20\<rparr>)]"
    and "l \<equiv> \<lparr>head = Some 1, tail = Some 2, dup = Some (\<lambda>v. if v < 15 then Some (v + 1) else None), free = True,
                match = None, len = 2\<rparr>"
  shows "\<exists>h' copy freed. listDup True zm_next h l = Some (h', copy, freed) \<and> list_ok h' l [(1, 10::nat), (2, 20)] \<and>
    dup_outcome zm_next h l [10, 20] (h', copy, freed)"
  using listDup_correct [of h l "[(1, 10), (2, 20)]" zm_next True, OF _ zm_next_ok] by (simp add: h_def l_def list_ok_def)

end
