(* ===== verification/Glob.thy ===== *)
theory Glob
  imports Redis_Prelude
begin

text \<open>
  The glob-style matcher of \<^verbatim>\<open>util.c\<close> and a reference semantics for its patterns.

  \<open>mem\<close> is the memory that holds the pattern, \<open>p\<close> the pointer \<^verbatim>\<open>pattern\<close> and \<open>n\<close> the value of
  \<^verbatim>\<open>patternLen\<close>, which may become negative; the string is the list of the bytes that are left of it. \<open>None\<close> is a read
  outside of \<open>mem\<close>. \<^verbatim>\<open>char\<close> is signed, and \<^verbatim>\<open>tolower\<close> is that of the C locale. \<open>skip\<close> is the flag that the source
  passes by reference as \<^verbatim>\<open>skipLongerMatches\<close>.
\<close>

section \<open>The matcher\<close>

definition c_tolower :: "int \<Rightarrow> int" where
  "c_tolower c = (if 65 \<le> c \<and> c \<le> 90 then c + 32 else c)"

abbreviation (input) ch_star :: byte where "ch_star \<equiv> 0x2A"
abbreviation (input) ch_quest :: byte where "ch_quest \<equiv> 0x3F"
abbreviation (input) ch_open :: byte where "ch_open \<equiv> 0x5B"
abbreviation (input) ch_close :: byte where "ch_close \<equiv> 0x5D"
abbreviation (input) ch_caret :: byte where "ch_caret \<equiv> 0x5E"
abbreviation (input) ch_dash :: byte where "ch_dash \<equiv> 0x2D"
abbreviation (input) ch_backslash :: byte where "ch_backslash \<equiv> 0x5C"

text \<open>Equality of two characters and membership in a range, as the cases of the switch test them.\<close>

definition char_same :: "bool \<Rightarrow> byte \<Rightarrow> byte \<Rightarrow> bool" where
  "char_same nocase a b \<longleftrightarrow> (if \<not> nocase then a = b else c_tolower (sint a) = c_tolower (sint b))"

definition char_in_range :: "bool \<Rightarrow> byte \<Rightarrow> byte \<Rightarrow> byte \<Rightarrow> bool" where
  "char_in_range nocase a b x \<longleftrightarrow>
     (let start = sint a; end = sint b; c = sint x;
          (start, end) = (if start > end then (end, start) else (start, end));
          (start, end, c) = (if nocase then (c_tolower start, c_tolower end, c_tolower c) else (start, end, c))
      in c \<ge> start \<and> c \<le> end)"

text \<open>The loop over the characters of a class, from behind the bracket; \<open>x\<close> is \<^verbatim>\<open>string[0]\<close>.\<close>

function glob_class ::
  "bytes \<Rightarrow> nat \<Rightarrow> int \<Rightarrow> byte \<Rightarrow> bool \<Rightarrow> bool \<Rightarrow> (bool \<times> nat \<times> int) option" where
  "glob_class mem p n x nocase match =
     (if n \<ge> 2 \<and> rd mem p = Some ch_backslash then
        (case rd mem (p + 1) of
           None \<Rightarrow> None
         | Some c \<Rightarrow> glob_class mem (p + 2) (n - 2) x nocase (match \<or> c = x))
      else if n = 0 then Some (match, p - 1, n + 1)
      else
        (case rd mem p of
           None \<Rightarrow> None
         | Some c \<Rightarrow>
             if c = ch_close then Some (match, p, n)
             else if n \<ge> 3 \<and> rd mem (p + 1) = Some ch_dash then
               (case rd mem (p + 2) of
                  None \<Rightarrow> None
                | Some d \<Rightarrow> glob_class mem (p + 3) (n - 3) x nocase (match \<or> char_in_range nocase c d x))
             else glob_class mem (p + 1) (n - 1) x nocase (match \<or> char_same nocase c x)))"
  by auto
termination
  by (relation "measure (\<lambda>(mem, p, _). length mem - p)") (auto simp: rd_def split: if_splits)

declare glob_class.simps [simp del]

text \<open>\<^verbatim>\<open>while (patternLen && pattern[1] == '*')\<close> and \<^verbatim>\<open>while (patternLen && *pattern == '*')\<close>.\<close>

function glob_stars :: "bytes \<Rightarrow> nat \<Rightarrow> int \<Rightarrow> (nat \<times> int) option" where
  "glob_stars mem p n =
     (if n = 0 then Some (p, n)
      else
        (case rd mem (p + 1) of
           None \<Rightarrow> None
         | Some c \<Rightarrow> if c = ch_star then glob_stars mem (p + 1) (n - 1) else Some (p, n)))"
  by auto
termination
  by (relation "measure (\<lambda>(mem, p, _). length mem - p)") (auto simp: rd_def split: if_splits)

declare glob_stars.simps [simp del]

function glob_trailing :: "bytes \<Rightarrow> nat \<Rightarrow> int \<Rightarrow> (nat \<times> int) option" where
  "glob_trailing mem p n =
     (if n = 0 then Some (p, n)
      else
        (case rd mem p of
           None \<Rightarrow> None
         | Some c \<Rightarrow> if c = ch_star then glob_trailing mem (p + 1) (n - 1) else Some (p, n)))"
  by auto
termination
  by (relation "measure (\<lambda>(mem, p, _). length mem - p)") (auto simp: rd_def split: if_splits)

declare glob_trailing.simps [simp del]

text \<open>
  One round of the loop: \<open>Glob_return\<close> leaves the function, \<open>Glob_star\<close> goes to the loop over the string of the case
  \<^verbatim>\<open>'*'\<close>, \<open>Glob_next\<close> continues behind the character of the string that was matched.
\<close>

datatype glob_round = Glob_return bool | Glob_star nat int | Glob_next nat int

definition glob_switch :: "bytes \<Rightarrow> nat \<Rightarrow> int \<Rightarrow> byte \<Rightarrow> bool \<Rightarrow> glob_round option" where
  "glob_switch mem p n x nocase =
     do { c \<leftarrow> rd mem p;
          if c = ch_star then
            do { (p, n) \<leftarrow> glob_stars mem p n;
                 Some (if n = 1 then Glob_return True else Glob_star p n) }
          else if c = ch_quest then Some (Glob_next p n)
          else if c = ch_open then
            do { let p = p + 1;
                 let n = n - 1;
                 neg \<leftarrow> (if n \<noteq> 0 then do { d \<leftarrow> rd mem p; Some (d = ch_caret) } else Some False);
                 let (p, n) = (if neg then (p + 1, n - 1) else (p, n));
                 (match, p, n) \<leftarrow> glob_class mem p n x nocase False;
                 Some (if (if neg then \<not> match else match) then Glob_next p n else Glob_return False) }
          else
            do { let (p, n) = (if c = ch_backslash \<and> n \<ge> 2 then (p + 1, n - 1) else (p, n));
                 d \<leftarrow> rd mem p;
                 Some (if char_same nocase d x then Glob_next p n else Glob_return False) } }"

text \<open>
  The loop of \<^verbatim>\<open>stringmatchlen_impl\<close> and the inner one of the case \<^verbatim>\<open>'*'\<close>; the test of the nesting depth at the
  start of the recursive call is written at the call.
\<close>

function glob_loop :: "bytes \<Rightarrow> nat \<Rightarrow> int \<Rightarrow> bytes \<Rightarrow> bool \<Rightarrow> bool \<Rightarrow> nat \<Rightarrow> (bool \<times> bool) option"
  and glob_star_loop :: "bytes \<Rightarrow> nat \<Rightarrow> int \<Rightarrow> bytes \<Rightarrow> bool \<Rightarrow> bool \<Rightarrow> nat \<Rightarrow> (bool \<times> bool) option" where
  "glob_loop mem p n s nocase skip nesting =
     (case s of
        [] \<Rightarrow> Some (n = 0, skip)
      | x # s' \<Rightarrow>
          if n = 0 then Some (False, skip)
          else
            (case glob_switch mem p n x nocase of
               None \<Rightarrow> None
             | Some (Glob_return r) \<Rightarrow> Some (r, skip)
             | Some (Glob_star p n) \<Rightarrow> glob_star_loop mem p n s nocase skip nesting
             | Some (Glob_next p n) \<Rightarrow>
                 if s' = [] then
                   (case glob_trailing mem (p + 1) (n - 1) of None \<Rightarrow> None | Some (_, n) \<Rightarrow> Some (n = 0, skip))
                 else glob_loop mem (p + 1) (n - 1) s' nocase skip nesting))"
| "glob_star_loop mem p n s nocase skip nesting =
     (case s of
        [] \<Rightarrow> Some (False, True)
      | x # s' \<Rightarrow>
          (case (if nesting + 1 > 1000 then Some (False, skip)
                 else glob_loop mem (p + 1) (n - 1) s nocase skip (nesting + 1)) of
             None \<Rightarrow> None
           | Some (True, skip) \<Rightarrow> Some (True, skip)
           | Some (False, skip) \<Rightarrow>
               if skip then Some (False, skip) else glob_star_loop mem p n s' nocase skip nesting))"
  by pat_completeness auto
termination
  by (relation "measures [\<lambda>x. case x of Inl (_, _, _, _, _, _, k) \<Rightarrow> 1001 - k | Inr (_, _, _, _, _, _, k) \<Rightarrow> 1001 - k,
        \<lambda>x. case x of Inl (_, _, _, s, _) \<Rightarrow> length s | Inr (_, _, _, s, _) \<Rightarrow> length s,
        \<lambda>x. case x of Inl _ \<Rightarrow> 1 | Inr _ \<Rightarrow> 0]") auto

declare glob_loop.simps [simp del] glob_star_loop.simps [simp del]

definition stringmatchlen_impl :: "bytes \<Rightarrow> nat \<Rightarrow> int \<Rightarrow> bytes \<Rightarrow> bool \<Rightarrow> bool \<Rightarrow> nat \<Rightarrow> (bool \<times> bool) option" where
  "stringmatchlen_impl mem p n s nocase skip nesting =
     (if nesting > 1000 then Some (False, skip) else glob_loop mem p n s nocase skip nesting)"

definition stringmatchlen :: "bytes \<Rightarrow> int \<Rightarrow> bytes \<Rightarrow> bool \<Rightarrow> bool option" where
  "stringmatchlen mem n s nocase = map_option fst (stringmatchlen_impl mem 0 n s nocase False 0)"

text \<open>The number of backslashes right before the position \<open>i\<close>, which counts down.\<close>

fun backslash_count :: "bytes \<Rightarrow> nat \<Rightarrow> nat option" where
  "backslash_count mem 0 = Some 0"
| "backslash_count mem (Suc i) =
     do { c \<leftarrow> rd mem i; if c = ch_backslash then map_option Suc (backslash_count mem i) else Some 0 }"

definition prefixmatch :: "bytes \<Rightarrow> int \<Rightarrow> bytes \<Rightarrow> bool \<Rightarrow> bool option" where
  "prefixmatch mem n s nocase =
     do { (r, _) \<leftarrow> stringmatchlen_impl mem 0 n s nocase False 0;
          if \<not> r then Some False
          else if n = 0 then Some False
          else do { c \<leftarrow> rd mem (nat (n - 1));
                    if c \<noteq> ch_star then Some False
                    else do { k \<leftarrow> backslash_count mem (nat (n - 1)); Some (k mod 2 = 0) } } }"

text \<open>\<^verbatim>\<open>strlen\<close> of the text at the start of a buffer.\<close>

fun c_strlen :: "bytes \<Rightarrow> nat option" where
  "c_strlen [] = None"
| "c_strlen (c # cs) = (if c = 0 then Some 0 else map_option Suc (c_strlen cs))"

definition stringmatch :: "bytes \<Rightarrow> bytes \<Rightarrow> bool \<Rightarrow> bool option" where
  "stringmatch mem str nocase =
     do { n \<leftarrow> c_strlen mem; m \<leftarrow> c_strlen str; stringmatchlen mem (int n) (take m str) nocase }"

end
