(* ===== verification/Glob_Match.thy ===== *)
theory Glob_Match
  imports Glob
begin

text \<open>
  The meaning of glob patterns, given by parsing them into tokens, and the proof that the matcher computes it. The
  early exit through \<^verbatim>\<open>skipLongerMatches\<close> is justified on the way: the flag is set only when the rest of the pattern
  matches no end of the string.
\<close>

section \<open>Reference semantics\<close>

datatype class_item =
    Exact byte
  | Range byte byte
  | Single byte

datatype glob_tok =
    Tok_star
  | Tok_any
  | Tok_class bool "class_item list"
  | Tok_char byte

function parse_class :: "bytes \<Rightarrow> class_item list \<times> bytes" where
  "parse_class [] = ([], [])"
| "parse_class (c # cs) =
     (if c = ch_backslash \<and> cs \<noteq> [] then apfst (Cons (Exact (hd cs))) (parse_class (tl cs))
      else if c = ch_close then ([], cs)
      else if length cs \<ge> 2 \<and> hd cs = ch_dash then apfst (Cons (Range c (cs ! 1))) (parse_class (drop 2 cs))
      else apfst (Cons (Single c)) (parse_class cs))"
  by pat_completeness auto
termination
  by (relation "measure length") auto

declare parse_class.simps(2) [simp del]

lemma parse_class_length: "length (snd (parse_class cs)) \<le> length cs"
proof (induction cs rule: length_induct)
  case (1 xs)
  show ?case
  proof (cases xs)
    case (Cons c cs)
    have le: "length (snd (parse_class ys)) \<le> length ys" if "length ys \<le> length cs" for ys using 1 Cons that by simp
    have "length (snd (parse_class (tl cs))) \<le> length cs" "length (snd (parse_class (drop 2 cs))) \<le> length cs"
      "length (snd (parse_class cs)) \<le> length cs" using le [of "tl cs"] le [of "drop 2 cs"] le [of cs] by auto
    then show ?thesis using Cons by (auto simp: parse_class.simps(2))
  qed simp
qed

fun parse_bracket :: "bytes \<Rightarrow> bool \<times> class_item list \<times> bytes" where
  "parse_bracket [] = (False, parse_class [])"
| "parse_bracket (c # cs) = (if c = ch_caret then (True, parse_class cs) else (False, parse_class (c # cs)))"

lemma parse_bracket_length: "length (snd (snd (parse_bracket cs))) \<le> length cs"
  using parse_class_length [of cs] parse_class_length [of "tl cs"] by (cases cs) auto

function glob_parse :: "bytes \<Rightarrow> glob_tok list" where
  "glob_parse [] = []"
| "glob_parse (c # cs) =
     (if c = ch_star then Tok_star # glob_parse cs
      else if c = ch_quest then Tok_any # glob_parse cs
      else if c = ch_open then
        Tok_class (fst (parse_bracket cs)) (fst (snd (parse_bracket cs))) # glob_parse (snd (snd (parse_bracket cs)))
      else if c = ch_backslash \<and> cs \<noteq> [] then Tok_char (hd cs) # glob_parse (tl cs)
      else Tok_char c # glob_parse cs)"
  by pat_completeness auto
termination
  by (relation "measure length") (use parse_bracket_length in \<open>auto simp: le_imp_less_Suc\<close>)

declare glob_parse.simps(2) [simp del]

fun item_match :: "bool \<Rightarrow> byte \<Rightarrow> class_item \<Rightarrow> bool" where
  "item_match nocase x (Exact c) \<longleftrightarrow> c = x"
| "item_match nocase x (Range a b) \<longleftrightarrow> char_in_range nocase a b x"
| "item_match nocase x (Single c) \<longleftrightarrow> char_same nocase c x"

fun tok_match :: "bool \<Rightarrow> glob_tok \<Rightarrow> byte \<Rightarrow> bool" where
  "tok_match nocase Tok_star x \<longleftrightarrow> False"
| "tok_match nocase Tok_any x \<longleftrightarrow> True"
| "tok_match nocase (Tok_class neg items) x \<longleftrightarrow> (list_ex (item_match nocase x) items \<noteq> neg)"
| "tok_match nocase (Tok_char c) x \<longleftrightarrow> char_same nocase c x"

fun glob_match :: "bool \<Rightarrow> glob_tok list \<Rightarrow> bytes \<Rightarrow> bool" where
  "glob_match nocase [] s \<longleftrightarrow> s = []"
| "glob_match nocase (Tok_star # ts) [] \<longleftrightarrow> glob_match nocase ts []"
| "glob_match nocase (Tok_star # ts) (x # s) \<longleftrightarrow>
     glob_match nocase ts (x # s) \<or> glob_match nocase (Tok_star # ts) s"
| "glob_match nocase (t # ts) [] \<longleftrightarrow> False"
| "glob_match nocase (t # ts) (x # s) \<longleftrightarrow> tok_match nocase t x \<and> glob_match nocase ts s"

definition star_count :: "glob_tok list \<Rightarrow> nat" where
  "star_count ts = length (filter (\<lambda>t. t = Tok_star) ts)"

lemma glob_match_star: "glob_match nocase (Tok_star # ts) s \<longleftrightarrow> (\<exists>k \<le> length s. glob_match nocase ts (drop k s))"
proof (induction s)
  case (Cons x s)
  have "(\<exists>k \<le> length (x # s). glob_match nocase ts (drop k (x # s))) \<longleftrightarrow>
      glob_match nocase ts (x # s) \<or> (\<exists>k \<le> length s. glob_match nocase ts (drop k s))"
    by (metis Suc_le_mono drop0 drop_Suc_Cons le0 length_Cons not0_implies_Suc)
  then show ?case using Cons by simp
qed simp

lemma glob_match_star_star: "glob_match nocase (Tok_star # Tok_star # ts) s = glob_match nocase (Tok_star # ts) s"
  by (induction s) auto

lemma glob_match_single: "t \<noteq> Tok_star \<Longrightarrow> glob_match nocase (t # ts) (x # s) \<longleftrightarrow> tok_match nocase t x \<and> glob_match nocase ts s"
  by (cases t) auto

lemma glob_match_single_Nil: "t \<noteq> Tok_star \<Longrightarrow> \<not> glob_match nocase (t # ts) []"
  by (cases t) auto

text \<open>A pattern that begins with a character and matches an end of the string matches the string behind it with its rest.\<close>

lemma glob_match_drop:
  assumes "t \<noteq> Tok_star" "glob_match nocase (t # ts) (drop k (x # s))"
  shows "\<exists>k. glob_match nocase ts (drop k s)"
proof (cases "drop k (x # s)")
  case Nil
  then show ?thesis using assms glob_match_single_Nil by metis
next
  case (Cons y ys)
  have "glob_match nocase ts ys" using assms Cons glob_match_single by metis
  moreover have "ys = drop k s" using Cons by (metis drop_Suc_Cons drop_Suc list.sel(3) tl_drop)
  ultimately show ?thesis by blast
qed

section \<open>Reading the pattern\<close>

text \<open>At the pointer \<open>p\<close> stands the rest \<open>cs\<close> of the pattern, and a NUL behind it.\<close>

definition pat_at :: "bytes \<Rightarrow> nat \<Rightarrow> bytes \<Rightarrow> bool" where
  "pat_at mem p cs \<longleftrightarrow> (\<exists>post. drop p mem = cs @ 0 # post)"

lemma pat_at_rd: "pat_at mem p (c # cs) \<Longrightarrow> rd mem p = Some c"
  unfolding pat_at_def rd_eq_Some
  by (metis append_Cons drop_eq_Nil2 hd_drop_conv_nth leI list.distinct(1) list.sel(1))

lemma pat_at_Cons: "pat_at mem p (c # cs) \<Longrightarrow> pat_at mem (Suc p) cs"
  unfolding pat_at_def by (metis append_Cons drop_Suc list.sel(3) tl_drop)

lemma pat_at_end: "pat_at mem p [] \<Longrightarrow> rd mem p = Some 0"
  unfolding pat_at_def rd_eq_Some
  by (metis append_Nil drop_eq_Nil2 hd_drop_conv_nth leI list.distinct(1) list.sel(1))

lemma glob_trailing_ok:
  "pat_at mem p cs \<Longrightarrow> \<exists>p' n'. glob_trailing mem p (int (length cs)) = Some (p', n') \<and>
     (n' = 0 \<longleftrightarrow> glob_match nocase (glob_parse cs) [])"
proof (induction cs arbitrary: p)
  case Nil
  then show ?case by (subst glob_trailing.simps) simp
next
  case (Cons c cs)
  note rd = pat_at_rd [OF Cons.prems]
  show ?case
  proof (cases "c = ch_star")
    case True
    then show ?thesis using Cons.IH [OF pat_at_Cons [OF Cons.prems]] rd
      by (subst glob_trailing.simps) (simp add: glob_parse.simps(2))
  next
    case False
    then show ?thesis using rd by (subst glob_trailing.simps) (simp add: glob_parse.simps(2))
  qed
qed

text \<open>Leading stars are skipped but for the last one.\<close>

lemma glob_stars_ok:
  "pat_at mem p (ch_star # cs) \<Longrightarrow>
   \<exists>p' rest. glob_stars mem p (int (length (ch_star # cs))) = Some (p', int (length (ch_star # rest))) \<and>
     pat_at mem p' (ch_star # rest) \<and> (rest = [] \<or> hd rest \<noteq> ch_star) \<and> length rest \<le> length cs \<and>
     (\<forall>s. glob_match nocase (glob_parse (ch_star # cs)) s = glob_match nocase (glob_parse (ch_star # rest)) s) \<and>
     star_count (glob_parse (ch_star # rest)) \<le> star_count (glob_parse (ch_star # cs))"
proof (induction cs arbitrary: p)
  case Nil
  have "rd mem (p + 1) = Some 0" using pat_at_end [OF pat_at_Cons [OF Nil]] by simp
  then show ?case using Nil by (subst glob_stars.simps) auto
next
  case (Cons c cs)
  note at = pat_at_Cons [OF Cons.prems]
  have rd: "rd mem (p + 1) = Some c" using pat_at_rd [OF at] by simp
  show ?case
  proof (cases "c = ch_star")
    case True
    have eq: "glob_stars mem p (int (length (ch_star # c # cs))) = glob_stars mem (Suc p) (int (length (ch_star # cs)))"
      using rd True by (subst glob_stars.simps) simp
    have gs: "glob_match nocase (glob_parse (ch_star # c # cs)) s = glob_match nocase (glob_parse (ch_star # cs)) s" for s
      using True by (simp add: glob_parse.simps(2) glob_match_star_star)
    have "star_count (glob_parse (ch_star # cs)) \<le> star_count (glob_parse (ch_star # c # cs))"
      using True by (simp add: glob_parse.simps(2) star_count_def)
    then show ?thesis using Cons.IH [OF at [unfolded True]] unfolding eq gs by fastforce
  next
    case False
    then show ?thesis using rd Cons.prems by (subst glob_stars.simps) (auto intro!: exI [of _ "c # cs"])
  qed
qed

section \<open>The loops\<close>

lemma glob_class_ok:
  "pat_at mem p cs \<Longrightarrow> 0 < p \<Longrightarrow>
   \<exists>p' n'. glob_class mem p (int (length cs)) x nocase m =
       Some (m \<or> list_ex (item_match nocase x) (fst (parse_class cs)), p', n') \<and>
     n' - 1 = int (length (snd (parse_class cs))) \<and> pat_at mem (p' + 1) (snd (parse_class cs))"
proof (induction cs arbitrary: p m rule: length_induct)
  case (1 xs)
  show ?case
  proof (cases xs)
    case Nil
    then show ?thesis using 1(2,3) by (subst glob_class.simps) simp
  next
    case (Cons c cs)
    note at = "1.prems"(1) [unfolded Cons]
    note rd = pat_at_rd [OF at] and at1 = pat_at_Cons [OF at]
    note IH = "1.IH" [rule_format, unfolded Cons]
    consider (esc) d ds where "c = ch_backslash" "cs = d # ds"
      | (close) "c = ch_close"
      | (range) d ds where "c \<noteq> ch_backslash" "c \<noteq> ch_close" "cs = ch_dash # d # ds"
      | (single) "c \<noteq> ch_backslash \<or> cs = []" "c \<noteq> ch_close" "\<not> (length cs \<ge> 2 \<and> hd cs = ch_dash)"
      by (cases cs; cases "tl cs") auto
    then show ?thesis
    proof cases
      case esc
      have at2: "pat_at mem (p + 2) ds" and rd1: "rd mem (p + 1) = Some d"
        using pat_at_Cons [OF at1 [unfolded esc]] pat_at_rd [OF at1 [unfolded esc]] by auto
      show ?thesis using IH [OF _ at2, of "m \<or> d = x"] rd rd1
        by (subst glob_class.simps) (simp add: Cons esc parse_class.simps(2) disj_assoc)
    next
      case close
      then show ?thesis using rd at1 by (subst glob_class.simps) (simp add: Cons parse_class.simps(2))
    next
      case range
      have at2: "pat_at mem (p + 2) (d # ds)" and rd1: "rd mem (p + 1) = Some ch_dash"
        using pat_at_Cons [OF at1 [unfolded range]] pat_at_rd [OF at1 [unfolded range]] by auto
      have at3: "pat_at mem (p + 3) ds" and rd2: "rd mem (p + 2) = Some d"
        using pat_at_Cons [OF at2] pat_at_rd [OF at2] by (auto simp: numeral_3_eq_3)
      show ?thesis using IH [OF _ at3, of "m \<or> char_in_range nocase c d x"] rd rd1 rd2 range
        by (subst glob_class.simps) (simp add: Cons parse_class.simps(2) disj_assoc)
    next
      case single
      have nd: "\<not> (int (length xs) \<ge> 3 \<and> rd mem (p + 1) = Some ch_dash)"
        using single(3) at1 pat_at_rd Cons by (cases cs) fastforce+
      have nb: "\<not> (int (length xs) \<ge> 2 \<and> rd mem p = Some ch_backslash)" using single(1) rd Cons by auto
      have "parse_class xs = apfst (Cons (Single c)) (parse_class cs)"
        using single by (auto simp: Cons parse_class.simps(2))
      moreover have "glob_class mem p (int (length xs)) x nocase m =
          glob_class mem (p + 1) (int (length cs)) x nocase (m \<or> char_same nocase c x)"
        using nd nb rd single(2) by (subst glob_class.simps) (auto simp: Cons)
      ultimately show ?thesis using IH [OF _ at1, of "m \<or> char_same nocase c x"] by (simp add: Cons disj_assoc)
    qed
  qed
qed

text \<open>What the switch does on a pattern that does not begin with a star: it tests the first token.\<close>

lemma glob_switch_ok:
  assumes "pat_at mem p (c # cs)" "c \<noteq> ch_star"
  obtains t rest where "glob_parse (c # cs) = t # glob_parse rest" "t \<noteq> Tok_star" "length rest \<le> length cs"
    "if tok_match nocase t x
     then \<exists>p' n'. glob_switch mem p (int (length (c # cs))) x nocase = Some (Glob_next p' n') \<and>
       n' - 1 = int (length rest) \<and> pat_at mem (p' + 1) rest
     else glob_switch mem p (int (length (c # cs))) x nocase = Some (Glob_return False)"
proof -
  note rd = pat_at_rd [OF assms(1)] and at1 = pat_at_Cons [OF assms(1)]
  consider (any) "c = ch_quest" | (bracket) "c = ch_open" | (esc) d ds where "c = ch_backslash" "cs = d # ds"
    | (char) "c \<noteq> ch_quest" "c \<noteq> ch_open" "c \<noteq> ch_backslash \<or> cs = []" by (cases cs) auto
  then show thesis
  proof cases
    case any
    show thesis by (rule that [of Tok_any cs]) (use any rd at1 in \<open>auto simp: glob_parse.simps(2) glob_switch_def\<close>)
  next
    case bracket
    define b where "b = parse_bracket cs"
    have "\<exists>q k. glob_switch mem p (int (length (c # cs))) x nocase =
        Some (if list_ex (item_match nocase x) (fst (snd b)) \<noteq> fst b then Glob_next q k else Glob_return False) \<and>
        k - 1 = int (length (snd (snd b))) \<and> pat_at mem (q + 1) (snd (snd b))"
    proof (cases "cs \<noteq> [] \<and> hd cs = ch_caret")
      case True
      then obtain ds where ds: "cs = ch_caret # ds" by (cases cs) auto
      have "rd mem (p + 1) = Some ch_caret" using pat_at_rd [OF at1 [unfolded ds]] by simp
      moreover obtain q k where "glob_class mem (p + 2) (int (length ds)) x nocase False =
          Some (list_ex (item_match nocase x) (fst (parse_class ds)), q, k)" "k - 1 = int (length (snd (parse_class ds)))"
        "pat_at mem (q + 1) (snd (parse_class ds))"
        using glob_class_ok [OF pat_at_Cons [OF at1 [unfolded ds]], of x nocase False] by auto
      ultimately show ?thesis using rd bracket by (auto simp: glob_switch_def ds b_def)
    next
      case False
      then have b: "b = (False, parse_class cs)" by (cases cs) (auto simp: b_def)
      have rd1: "cs \<noteq> [] \<Longrightarrow> \<exists>d. rd mem (Suc p) = Some d \<and> d \<noteq> ch_caret"
        using False at1 pat_at_rd by (cases cs) fastforce+
      obtain q k where "glob_class mem (p + 1) (int (length cs)) x nocase False =
          Some (list_ex (item_match nocase x) (fst (parse_class cs)), q, k)" "k - 1 = int (length (snd (parse_class cs)))"
        "pat_at mem (q + 1) (snd (parse_class cs))"
        using glob_class_ok [OF at1, of x nocase False] by auto
      then show ?thesis using rd rd1 bracket by (intro exI [of _ q] exI [of _ k]; cases "cs = []") (auto simp: b glob_switch_def Let_def)
    qed
    then show thesis using bracket parse_bracket_length [of cs]
      by (intro that [of "Tok_class (fst b) (fst (snd b))" "snd (snd b)"]) (auto simp: glob_parse.simps(2) b_def)
  next
    case esc
    have "pat_at mem (p + 2) ds" "rd mem (p + 1) = Some d"
      using pat_at_Cons [OF at1 [unfolded esc]] pat_at_rd [OF at1 [unfolded esc]] by auto
    then show thesis using esc rd
      by (intro that [of "Tok_char d" ds]) (auto simp: glob_parse.simps(2) glob_switch_def)
  next
    case char
    then show thesis using rd at1 assms(2)
      by (intro that [of "Tok_char c" cs]) (auto simp: glob_parse.simps(2) glob_switch_def)
  qed
qed

text \<open>
  The result of the matcher on the rest \<open>cs\<close> of a pattern: the verdict, and when it is negative with the flag set, no
  end of the string matches.
\<close>

definition loop_result :: "bool \<Rightarrow> bytes \<Rightarrow> bytes \<Rightarrow> (bool \<times> bool) option \<Rightarrow> bool" where
  "loop_result nocase cs s res \<longleftrightarrow>
     (\<exists>r skip. res = Some (r, skip) \<and> r = glob_match nocase (glob_parse cs) s \<and>
        (\<not> r \<and> skip \<longrightarrow> (\<forall>k. \<not> glob_match nocase (glob_parse cs) (drop k s))))"

lemma loop_resultI:
  assumes "res = Some (r, skip)" "r = glob_match nocase (glob_parse cs) s"
    "\<And>k. \<not> r \<Longrightarrow> skip \<Longrightarrow> \<not> glob_match nocase (glob_parse cs) (drop k s)"
  shows "loop_result nocase cs s res"
  unfolding loop_result_def using assms by blast

lemma glob_parse_nonstar_Nil:
  "cs \<noteq> [] \<Longrightarrow> hd cs \<noteq> ch_star \<Longrightarrow> \<not> glob_match nocase (glob_parse cs) []"
  by (cases cs) (auto simp: glob_parse.simps(2))

text \<open>The loop over the string behind a star, given that the matcher is right for the rest of the pattern.\<close>

lemma glob_star_loop_ok:
  assumes "\<And>s. s \<noteq> [] \<Longrightarrow> loop_result nocase rest s (glob_loop mem (p + 1) (int (length rest)) s nocase False (nesting + 1))"
    "nesting + 1 \<le> 1000" "rest \<noteq> []" "hd rest \<noteq> ch_star"
  shows "\<exists>r skip. glob_star_loop mem p (int (length (ch_star # rest))) s nocase False nesting = Some (r, skip) \<and>
    (r \<longleftrightarrow> (\<exists>k. glob_match nocase (glob_parse rest) (drop k s)))"
proof (induction s)
  case Nil
  have "glob_star_loop mem p (int (length (ch_star # rest))) [] nocase False nesting = Some (False, True)"
    by (subst glob_star_loop.simps) simp
  then show ?case using glob_parse_nonstar_Nil [OF assms(3,4), of nocase]
    by (intro exI [of _ False] exI [of _ True]) simp
next
  case (Cons x s)
  obtain r skip where r: "glob_loop mem (p + 1) (int (length rest)) (x # s) nocase False (nesting + 1) = Some (r, skip)"
    "r = glob_match nocase (glob_parse rest) (x # s)"
    "\<not> r \<and> skip \<longrightarrow> (\<forall>k. \<not> glob_match nocase (glob_parse rest) (drop k (x # s)))"
    using assms(1) [of "x # s"] by (auto simp: loop_result_def)
  have step: "glob_star_loop mem p (int (length (ch_star # rest))) (x # s) nocase False nesting =
      (if r then Some (True, skip) else if skip then Some (False, skip)
       else glob_star_loop mem p (int (length (ch_star # rest))) s nocase False nesting)"
    using r(1) assms(2) by (subst glob_star_loop.simps) auto
  have ex: "(\<exists>k. glob_match nocase (glob_parse rest) (drop k (x # s))) \<longleftrightarrow>
      r \<or> (\<exists>k. glob_match nocase (glob_parse rest) (drop k s))"
  proof -
    have "(\<exists>k. Q (drop k (x # s))) \<longleftrightarrow> Q (x # s) \<or> (\<exists>k. Q (drop k s))" for Q
      by (metis drop0 drop_Suc_Cons not0_implies_Suc)
    then show ?thesis using r(2) by simp
  qed
  show ?case
  proof (cases r)
    case True
    then show ?thesis using ex step by (intro exI [of _ True] exI [of _ skip]) simp
  next
    case False
    show ?thesis
    proof (cases skip)
      case True
      then show ?thesis using \<open>\<not> r\<close> r(3) step by (intro exI [of _ False] exI [of _ skip]) simp
    next
      case False
      then show ?thesis using \<open>\<not> r\<close> Cons ex step by simp
    qed
  qed
qed

lemma glob_match_star_ex: "glob_match nocase (Tok_star # ts) s \<longleftrightarrow> (\<exists>k. glob_match nocase ts (drop k s))"
  unfolding glob_match_star by (metis drop_all nle_le order_refl)

lemma glob_loop_ok:
  "pat_at mem p cs \<Longrightarrow> nesting + star_count (glob_parse cs) \<le> 1000 \<Longrightarrow> s \<noteq> [] \<Longrightarrow>
   loop_result nocase cs s (glob_loop mem p (int (length cs)) s nocase False nesting)"
proof (induction cs arbitrary: p s nesting rule: length_induct)
  case (1 xs)
  obtain x s' where s: "s = x # s'" using "1.prems"(3) by (cases s) auto
  show ?case
  proof (cases xs)
    case Nil
    have "glob_loop mem p (int (length xs)) s nocase False nesting = Some (False, False)"
      using s Nil by (subst glob_loop.simps) simp
    then show ?thesis by (rule loop_resultI) (use s Nil in simp_all)
  next
    case (Cons c cs)
    note at = "1.prems"(1) [unfolded Cons]
    show ?thesis
    proof (cases "c = ch_star")
      case True
      obtain p' rest where st: "glob_stars mem p (int (length (ch_star # cs))) = Some (p', int (length (ch_star # rest)))"
        "pat_at mem p' (ch_star # rest)" "rest = [] \<or> hd rest \<noteq> ch_star" "length rest \<le> length cs"
        "\<And>s. glob_match nocase (glob_parse (ch_star # cs)) s = glob_match nocase (glob_parse (ch_star # rest)) s"
        "star_count (glob_parse (ch_star # rest)) \<le> star_count (glob_parse (ch_star # cs))"
        using glob_stars_ok [OF at [unfolded True]] by blast
      have m: "glob_match nocase (glob_parse xs) s \<longleftrightarrow> (\<exists>k. glob_match nocase (glob_parse rest) (drop k s))" for s
        unfolding Cons True st(5) by (simp add: glob_parse.simps(2) glob_match_star_ex)
      have sw: "glob_switch mem p (int (length xs)) x nocase =
          Some (if rest = [] then Glob_return True else Glob_star p' (int (length (ch_star # rest))))"
        using pat_at_rd [OF at] st(1) by (simp add: glob_switch_def Cons True)
      show ?thesis
      proof (cases "rest = []")
        case True
        have "glob_match nocase (glob_parse rest) (drop (length s) s)" using True by simp
        then have "glob_match nocase (glob_parse xs) s" using m by blast
        moreover have "glob_loop mem p (int (length xs)) s nocase False nesting = Some (True, False)"
          using sw True Cons s by (subst glob_loop.simps) simp
        ultimately show ?thesis by (intro loop_resultI) simp_all
      next
        case False
        have sc: "nesting + 1 + star_count (glob_parse rest) \<le> 1000"
          using "1.prems"(2) st(6) Cons True by (simp add: glob_parse.simps(2) star_count_def)
        have IH: "loop_result nocase rest s (glob_loop mem (p' + 1) (int (length rest)) s nocase False (nesting + 1))"
          if "s \<noteq> []" for s
          using "1.IH" [rule_format, of rest "p' + 1" "nesting + 1" s] st(4) pat_at_Cons [OF st(2)] sc that Cons by simp
        obtain r skip where r: "glob_star_loop mem p' (int (length (ch_star # rest))) s nocase False nesting = Some (r, skip)"
          "r \<longleftrightarrow> (\<exists>k. glob_match nocase (glob_parse rest) (drop k s))"
          using glob_star_loop_ok [OF IH _ False, of s] st(3) False sc by auto
        have gl: "glob_loop mem p (int (length xs)) s nocase False nesting = Some (r, skip)"
          using r(1) sw False Cons s by (subst glob_loop.simps) simp
        have nm: "\<not> glob_match nocase (glob_parse xs) (drop k s)" if "\<not> r" for k
          using that m [of "drop k s"] r(2) by (simp add: drop_drop)
        show ?thesis by (rule loop_resultI [OF gl _ nm]) (use r(2) m [of s] in simp)
      qed
    next
      case False
      obtain t rest where t: "glob_parse (c # cs) = t # glob_parse rest" "t \<noteq> Tok_star" "length rest \<le> length cs"
        "if tok_match nocase t x
         then \<exists>p' n'. glob_switch mem p (int (length (c # cs))) x nocase = Some (Glob_next p' n') \<and>
           n' - 1 = int (length rest) \<and> pat_at mem (p' + 1) rest
         else glob_switch mem p (int (length (c # cs))) x nocase = Some (Glob_return False)"
        using glob_switch_ok [OF at False, of nocase x] .
      show ?thesis
      proof (cases "tok_match nocase t x")
        case False
        then have "glob_loop mem p (int (length xs)) s nocase False nesting = Some (False, False)"
          using t(4) s Cons by (subst glob_loop.simps) simp
        then show ?thesis by (rule loop_resultI) (use False t s Cons in \<open>simp_all add: glob_match_single\<close>)
      next
        case True
        then obtain p' n' where n: "glob_switch mem p (int (length xs)) x nocase = Some (Glob_next p' n')"
          "n' - 1 = int (length rest)" "pat_at mem (p' + 1) rest" using t(4) Cons by auto
        have m: "glob_match nocase (glob_parse xs) s \<longleftrightarrow> glob_match nocase (glob_parse rest) s'"
          using True t s Cons by (simp add: glob_match_single)
        show ?thesis
        proof (cases "s' = []")
          case True
          obtain q k where q: "glob_trailing mem (p' + 1) (int (length rest)) = Some (q, k)"
            "k = 0 \<longleftrightarrow> glob_match nocase (glob_parse rest) []" using glob_trailing_ok [OF n(3), of nocase] by blast
          have "glob_loop mem p (int (length xs)) s nocase False nesting = Some (k = 0, False)"
            using n q(1) True s Cons by (subst glob_loop.simps) simp
          then show ?thesis by (rule loop_resultI) (use q(2) m True in simp_all)
        next
          case False
          have sc: "nesting + star_count (glob_parse rest) \<le> 1000" using "1.prems"(2) t(1,2) Cons by (simp add: star_count_def)
          have "loop_result nocase rest s' (glob_loop mem (p' + 1) (int (length rest)) s' nocase False nesting)"
            using "1.IH" [rule_format, of rest "p' + 1" nesting s'] t(3) n(3) sc False Cons by simp
          then obtain r skip where r: "glob_loop mem (p' + 1) (int (length rest)) s' nocase False nesting = Some (r, skip)"
            "r = glob_match nocase (glob_parse rest) s'"
            "\<not> r \<and> skip \<longrightarrow> (\<forall>k. \<not> glob_match nocase (glob_parse rest) (drop k s'))" by (auto simp: loop_result_def)
          have gl: "glob_loop mem p (int (length xs)) s nocase False nesting = Some (r, skip)"
            using r(1) n False Cons s by (subst glob_loop.simps) simp
          have nm: "\<not> glob_match nocase (glob_parse xs) (drop k s)" if "\<not> r" "skip" for k
            using r(3) that glob_match_drop [OF t(2), of nocase "glob_parse rest" k x s'] t(1) Cons s by auto
          show ?thesis by (rule loop_resultI [OF gl _ nm]) (use r(2) m in simp)
        qed
      qed
    qed
  qed
qed

lemma stringmatchlen_ok:
  assumes "mem = pat @ 0 # post" "star_count (glob_parse pat) \<le> 1000"
  shows "\<exists>skip. stringmatchlen_impl mem 0 (int (length pat)) s nocase False 0 =
    Some (if s = [] then pat = [] else glob_match nocase (glob_parse pat) s, skip)"
proof (cases s)
  case Nil
  then show ?thesis unfolding stringmatchlen_impl_def by (subst glob_loop.simps) (intro exI [of _ False], simp)
next
  case (Cons x s')
  have "pat_at mem 0 pat" using assms(1) by (simp add: pat_at_def)
  then show ?thesis using glob_loop_ok [of mem 0 pat 0 s nocase] assms(2) Cons
    by (auto simp: stringmatchlen_impl_def loop_result_def)
qed

section \<open>Properties\<close>

text \<open>(C13) With a NUL behind the pattern, a string that is not empty and at most a thousand stars, the matcher reads inside
  the pattern and its terminator only and returns exactly what the meaning of the pattern says, with the early exit for
  longer matches and the limit on the nesting in place.
\<close>

theorem stringmatchlen_correct:
  assumes "s \<noteq> []" "star_count (glob_parse pat) \<le> 1000"
  shows "stringmatchlen (pat @ 0 # post) (int (length pat)) s nocase = Some (glob_match nocase (glob_parse pat) s)"
  using stringmatchlen_ok [OF refl assms(2), of post s nocase] assms(1) by (auto simp: stringmatchlen_def)

theorem stringmatchlen_correct_witness:
  "stringmatchlen [0x61, 0x2A, 0x5B, 0x30, 0x2D, 0x39, 0x5D, 0] 7 [0x61, 0x62, 0x35] False = Some True"
proof -
  have p: "glob_parse [0x61, 0x2A, 0x5B, 0x30, 0x2D, 0x39, 0x5D] = [Tok_char 0x61, Tok_star, Tok_class False [Range 0x30 0x39]]"
    by (simp add: glob_parse.simps(2) parse_class.simps(2))
  show ?thesis
    using stringmatchlen_correct [of "[0x61, 0x62, 0x35]" "[0x61, 0x2A, 0x5B, 0x30, 0x2D, 0x39, 0x5D]" "[]" False]
    by (simp add: p star_count_def char_same_def char_in_range_def)
qed

text \<open>The length of the run of backslashes at the end of a text.\<close>

definition trail :: "bytes \<Rightarrow> nat" where
  "trail q = length (takeWhile (\<lambda>c. c = ch_backslash) (rev q))"

lemma trail_Cons: "trail (c # q) = (if \<forall>d\<in>set q. d = ch_backslash then length q + (if c = ch_backslash then 1 else 0) else trail q)"
proof (cases "\<forall>d\<in>set q. d = ch_backslash")
  case True
  have "takeWhile (\<lambda>c. c = ch_backslash) (rev q @ [c]) = rev q @ takeWhile (\<lambda>c. c = ch_backslash) [c]"
    by (rule takeWhile_append2) (use True in auto)
  then show ?thesis using True by (simp add: trail_def)
next
  case False
  then obtain d where "d \<in> set (rev q)" "d \<noteq> ch_backslash" by auto
  then show ?thesis using False by (auto simp: trail_def takeWhile_append1)
qed

lemma trail_all: "\<forall>d\<in>set q. d = ch_backslash \<Longrightarrow> trail q = length q"
  using takeWhile_eq_all_conv [of "\<lambda>c. c = ch_backslash" "rev q"] by (metis length_rev set_rev trail_def)

lemma backslash_count_eq: "i \<le> length mem \<Longrightarrow> backslash_count mem i = Some (trail (take i mem))"
proof (induction i)
  case (Suc i)
  then show ?case by (auto simp: rd_def take_Suc_conv_app_nth trail_def)
qed (simp add: trail_def)

definition ends_in_star :: "bytes \<Rightarrow> bool" where
  "ends_in_star pat \<longleftrightarrow> pat \<noteq> [] \<and> last pat = ch_star \<and> even (trail (butlast pat))"

lemma glob_parse_Nil_iff: "glob_parse cs = [] \<longleftrightarrow> cs = []"
  by (cases cs) (simp_all add: glob_parse.simps(2))

text \<open>Outside of classes, a pattern ends in a star that is not escaped if and only if its last token is a star.\<close>

lemma last_token_star:
  "ch_open \<notin> set pat \<Longrightarrow> (pat \<noteq> [] \<and> last (glob_parse pat) = Tok_star) \<longleftrightarrow> ends_in_star pat"
proof (induction pat rule: length_induct)
  case (1 pat)
  show ?case
  proof (cases pat)
    case (Cons c cs)
    show ?thesis
    proof (cases "c = ch_backslash \<and> cs \<noteq> []")
      case True
      then obtain d ds where cs: "cs = d # ds" by (cases cs) auto
      have IH: "(ds \<noteq> [] \<and> last (glob_parse ds) = Tok_star) \<longleftrightarrow> ends_in_star ds" using 1 Cons cs by simp
      have "ends_in_star pat \<longleftrightarrow> ends_in_star ds" if "ds \<noteq> []"
        using that True Cons cs by (auto simp: ends_in_star_def trail_Cons trail_all)
      moreover have "\<not> ends_in_star pat" if "ds = []"
        using that True Cons cs by (simp add: ends_in_star_def trail_def)
      ultimately show ?thesis using IH True Cons cs
        by (cases "ds = []") (simp_all add: glob_parse.simps(2) glob_parse_Nil_iff)
    next
      case False
      have IH: "(cs \<noteq> [] \<and> last (glob_parse cs) = Tok_star) \<longleftrightarrow> ends_in_star cs" using 1 Cons by simp
      have "ends_in_star pat \<longleftrightarrow> ends_in_star cs" if "cs \<noteq> []"
        using that False Cons by (auto simp: ends_in_star_def trail_Cons trail_all)
      moreover have "ends_in_star pat \<longleftrightarrow> c = ch_star" if "cs = []"
        using that Cons by (simp add: ends_in_star_def trail_def)
      ultimately show ?thesis using IH False Cons 1(2)
        by (cases "cs = []") (auto simp: glob_parse.simps(2) glob_parse_Nil_iff)
    qed
  qed (simp add: ends_in_star_def)
qed

lemma glob_match_extend: "ts \<noteq> [] \<Longrightarrow> last ts = Tok_star \<Longrightarrow> glob_match nocase ts s \<Longrightarrow> glob_match nocase ts (s @ t)"
proof (induction nocase ts s rule: glob_match.induct)
  case (2 nocase ts)
  have "glob_match nocase (Tok_star # ts) t"
  proof (cases "ts = []")
    case True
    then show ?thesis unfolding glob_match_star by (auto intro: exI [of _ "length t"])
  next
    case False
    then have "glob_match nocase ts t" using 2 by simp
    then show ?thesis unfolding glob_match_star by (auto intro: exI [of _ 0])
  qed
  then show ?case by simp
next
  case (3 nocase ts x s)
  show ?case
  proof (cases "ts = []")
    case True
    then show ?thesis unfolding glob_match_star by (auto intro: exI [of _ "length ((x # s) @ t)"])
  next
    case False
    then show ?thesis using 3 by auto
  qed
qed (auto split: if_splits)

text \<open>(C29) For a pattern without classes, \<^verbatim>\<open>prefixmatch\<close> says yes exactly when the pattern matches the prefix and its last
  token is a star; then it matches every string that starts with the prefix.
\<close>

theorem prefixmatch_correct:
  assumes "s \<noteq> []" "star_count (glob_parse pat) \<le> 1000" "ch_open \<notin> set pat"
  shows "\<exists>r. prefixmatch (pat @ 0 # post) (int (length pat)) s nocase = Some r \<and>
    (r \<longleftrightarrow> glob_match nocase (glob_parse pat) s \<and> pat \<noteq> [] \<and> last (glob_parse pat) = Tok_star) \<and>
    (r \<longrightarrow> (\<forall>t. glob_match nocase (glob_parse pat) (s @ t)))"
proof -
  obtain skip where m: "stringmatchlen_impl (pat @ 0 # post) 0 (int (length pat)) s nocase False 0 =
      Some (glob_match nocase (glob_parse pat) s, skip)" using stringmatchlen_ok [OF refl assms(2), of post s nocase] assms(1) by auto
  have "prefixmatch (pat @ 0 # post) (int (length pat)) s nocase = Some (glob_match nocase (glob_parse pat) s \<and> ends_in_star pat)"
  proof (cases pat rule: rev_cases)
    case Nil
    then show ?thesis using m by (simp add: prefixmatch_def ends_in_star_def)
  next
    case (snoc q c)
    have "nat (int (length pat) - 1) = length q" "rd (pat @ 0 # post) (length q) = Some c" using snoc by (auto simp: rd_def)
    moreover have "backslash_count (pat @ 0 # post) (length q) = Some (trail q)" using snoc by (simp add: backslash_count_eq)
    ultimately show ?thesis using m snoc by (auto simp: prefixmatch_def ends_in_star_def even_iff_mod_2_eq_zero)
  qed
  then show ?thesis
    using last_token_star [OF assms(3)] glob_match_extend [of "glob_parse pat" nocase s] by (auto simp: glob_parse_Nil_iff)
qed

theorem prefixmatch_correct_witness:
  "\<exists>r. prefixmatch [0x61, 0x2A, 0] 2 [0x61, 0x62] False = Some r \<and> r \<and> (\<forall>t. glob_match False [Tok_char 0x61, Tok_star] ([0x61, 0x62] @ t))"
proof -
  have p: "glob_parse [0x61, 0x2A] = [Tok_char 0x61, Tok_star]" by (simp add: glob_parse.simps(2))
  show ?thesis
    using prefixmatch_correct [of "[0x61, 0x62]" "[0x61, 0x2A]" "[]" False] by (auto simp: p star_count_def char_same_def)
qed

text \<open>
  The limits of these statements. The test of \<^verbatim>\<open>pattern[1]\<close> reads behind a pattern that ends in a star, so a pattern
  without a terminator is read out of bounds; an empty string does not match a lone star; and inside of an open class
  a star at the end is taken for a wildcard by \<^verbatim>\<open>prefixmatch\<close>.
\<close>

lemma stringmatchlen_overread: "stringmatchlen [ch_star] 1 [x] nocase = None"
  by (simp add: stringmatchlen_def stringmatchlen_impl_def glob_loop.simps glob_switch_def glob_stars.simps rd_def)

lemma stringmatchlen_empty:
  "stringmatchlen [ch_star, 0] 1 [] nocase = Some False \<and> glob_match nocase (glob_parse [ch_star]) []"
  by (simp add: stringmatchlen_def stringmatchlen_impl_def glob_loop.simps glob_parse.simps(2))

lemma prefixmatch_class:
  "prefixmatch [ch_open, ch_star, 0] 2 [ch_star] False = Some True \<and>
   stringmatchlen [ch_open, ch_star, 0] 2 [ch_star, 0x61] False = Some False"
proof -
  have p: "glob_parse [ch_open, ch_star] = [Tok_class False [Single ch_star]]"
    by (simp add: glob_parse.simps(2) parse_class.simps(2))
  show ?thesis
    using stringmatchlen_ok [of "[ch_open, ch_star, 0]" "[ch_open, ch_star]" "[]" "[ch_star]" False]
      stringmatchlen_ok [of "[ch_open, ch_star, 0]" "[ch_open, ch_star]" "[]" "[ch_star, 0x61]" False]
    by (auto simp: prefixmatch_def stringmatchlen_def p star_count_def char_same_def rd_def numeral_2_eq_2)
qed

end
