(* ===== verification/Spec2Isabelle.thy ===== *)
theory Spec2Isabelle
  imports Intset Listpack_Validate Listpack_Update Dict_Scan Kvstore_Scan Multi_Props Adlist_Props Glob_Match
begin

text \<open>
  Verification of the data structures and of the transactions of the bundled Redis server
  (\<^verbatim>\<open>src/redis-stable/src\<close>).

  \<^bold>\<open>The program.\<close> Redis keeps its data in a few containers. A \<^emph>\<open>hash table\<close> (\<^verbatim>\<open>dict.c\<close>) has two tables of chains and moves
  entries from one to the other step by step; an \<^emph>\<open>array of hash tables\<close> (\<^verbatim>\<open>kvstore.c\<close>) holds the keys of a database, one
  table per slot of a cluster, with a tree of the numbers of keys. Small collections are one block of bytes: a \<^emph>\<open>listpack\<close>
  (\<^verbatim>\<open>listpack.c\<close>) holds strings and integers of variable length, an \<^emph>\<open>intset\<close> (\<^verbatim>\<open>intset.c\<close>) sorted integers of a common
  width. \<^emph>\<open>Linked lists\<close> (\<^verbatim>\<open>adlist.c\<close>) hold clients and watchers. The \<^emph>\<open>conversions\<close> between integers and text and the
  \<^emph>\<open>glob matcher\<close> (\<^verbatim>\<open>util.c\<close>) are used by all of them and by the commands. \<^emph>\<open>Transactions\<close> (\<^verbatim>\<open>multi.c\<close>) queue commands and
  run them unless a watched key was touched. Listpacks use the conversions, the array of tables uses the hash table, and
  the theories follow these dependencies.

  \<^bold>\<open>Conventions.\<close> A byte is an \<open>8 word\<close> and memory a list of bytes; a pointer into it is an offset. Unsigned integers are
  natural numbers with the reduction written out, or words where bits matter. The outer \<open>None\<close> of an operation is what the
  program must not do: an access outside of the memory, a freed or NULL pointer, a failed assertion, a loop that never ends. A NULL result or an
  error code is a value. Loops are recursive functions with a termination proof; \<open>partial_function\<close> is used for the loops
  whose end depends on the invariant, and the properties state that they return. No fuel is used. Allocators
  (\<open>ra\<close>, \<open>zm\<close>), hash and compare functions, and the execution of commands are arguments, with what is assumed of them as
  named predicates (\<open>realloc_ok\<close>, \<open>zm_ok\<close>, \<open>zm_fresh\<close>, \<open>type_ok\<close>, \<open>call_ok\<close>).

  \<^bold>\<open>The theories.\<close>
  \<^item> \<open>Redis_Prelude\<close>: bytes, reads and writes of memory, little-endian numbers, counters of 64 bits, \<open>named_theorems\<close>.
  \<^item> \<open>Util_Numbers\<close> (\<^verbatim>\<open>util.c\<close>: \<open>string2ll\<close>, \<open>ll2string\<close>, \<open>ull2string\<close>, \<open>digits10\<close>): the parser accepts exactly the decimal
    notation of the 64-bit integers, the printer stays inside of its buffer.
  \<^item> \<open>Intset\<close> (\<^verbatim>\<open>intset.c\<close>): the record \<open>intset\<close> and all operations; invariant \<open>intset_ok\<close>; refinement of sets of integers through
    the locale \<open>int_set\<close>; validation; the overflow of the tail move with 2 ^ 29 elements.
  \<^item> \<open>Listpack_Codec\<close> (the encodings), \<open>Listpack\<close> (the operations), \<open>Listpack_Walk\<close> (traversal, seeking, searching),
    \<open>Listpack_Validate\<close> (the integrity check on arbitrary bytes), \<open>Listpack_Update\<close> (insertion, deletion, batches, merging):
    \<open>lp_repr lp cs\<close> says that the block \<open>lp\<close> holds the entries \<open>cs\<close>; the operations are list operations, with NULL exactly when
    the total size overflows.
  \<^item> \<open>Sequence_Store\<close>, \<open>Map_Store\<close>: the interfaces that containers of a sequence and of a map provide, with the lemmas about
    sequences of calls; they are interpreted on listpacks, on linked lists and on the hash table.
  \<^item> \<open>Adlist\<close>, \<open>Adlist_Ops\<close>, \<open>Adlist_Props\<close> (\<^verbatim>\<open>adlist.c\<close>): an explicit heap of nodes; \<open>list_ok\<close> describes the doubly linked
    segment; every program of list operations computes what it computes on a plain list and touches no other node. A list that
    cannot be duplicated leaves the heap as it was, and exactly the values duplicated so far are freed.
  \<^item> \<open>Dict\<close> (the record \<open>dict\<close> and its operations), \<open>Dict_Inv\<close> (invariant \<open>dict_ok\<close>, contents \<open>dict_bag\<close>, rehashing), \<open>Dict_Resize\<close>,
    \<open>Dict_Ops\<close>, \<open>Dict_Map\<close>, \<open>Dict_Props\<close> (\<^verbatim>\<open>dict.c\<close>, \<^verbatim>\<open>dict.h\<close>): any sequence of calls answers as a finite map, rehashing keeps the
    contents and ends. \<open>Dict_Scan\<close>: the iteration with a cursor of reversed bits misses no key that stays in the table.
  \<^item> \<open>Fenwick\<close>, \<open>Kvstore\<close>, \<open>Kvstore_Inv\<close>, \<open>Kvstore_Props\<close>, \<open>Kvstore_Bulk\<close>, \<open>Kvstore_Scan\<close> (\<^verbatim>\<open>kvstore.c\<close>): the tree of counts, the array
    of tables with the invariant \<open>kvs_ok\<close>; a family of sets of keys, exact counters, the search by rank, and the promise of the
    scan over all tables, composed from that of \<open>dictScan\<close>. The index of a table takes up to 16 bits of the cursor, so the
    promise asks for tables of at most 2 ^ (64 - b) buckets for an index of b bits.
  \<^item> \<open>Multi\<close>, \<open>Multi_Inv\<close>, \<open>Multi_Props\<close> (\<^verbatim>\<open>multi.c\<close>): the watched keys in both of their lists with the invariant \<open>watch_ok\<close>, histories
    of events of several clients, the promise of WATCH, and EXEC as the relation \<open>runs\<close>, which says of each queued command whether it
    is refused or called and in which state. A touched key marks exactly the watchers that \<open>reached\<close> describes. The promise of WATCH
    asks that no watcher of the key found it expired; a history in which it fails without this is \<open>missed_history\<close>.
  \<^item> \<open>Glob\<close>, \<open>Glob_Match\<close> (\<^verbatim>\<open>util.c\<close>: \<open>stringmatchlen\<close>, \<open>prefixmatch\<close>): the matcher with its early exit computes the meaning of the
    parsed pattern; the places where it does not do what its comments say are lemmas of their own.

  \<^bold>\<open>Bounds.\<close> The number of keys of a hash table is below 2 ^ 63 and its tables have at most 2 ^ 60 buckets, more than the memory of
  a machine can hold; within them no counter wraps. Histories of transactions have at most \<open>INT_MAX\<close> events in all. This
  bounds the queue of each client: the array of \<open>queueMultiCommand\<close> stops growing at \<open>INT_MAX\<close> commands, the code does not refuse a
  further one, and the write behind the array is \<open>None\<close> in the model. The bound on the events of all clients together is a
  restriction of the theorems. A sequence of calls on an intset has at most 2 ^ 29 of them; a property of \<open>Intset\<close> shows
  that a larger set loses elements. The default configuration (512 entries) stays far below.

  A batch appended to a listpack has less than 2 ^ 32 entries, since \<open>lpBatchAppend\<close> narrows their number. The counts of entries to skip
  (\<open>lpFind_round\<close>), of rehashing steps (\<open>dictRehash\<close>) and of elements (\<open>intsetUpgradeAndAdd\<close>) are natural numbers where the source has
  an \<^verbatim>\<open>int\<close>; they agree below 2 ^ 31, for steps below a tenth of it.

  \<^bold>\<open>Not modelled.\<close> In the modelled parts: the defragmentation and statistics functions and the iterators of the hash table and of the
  array of tables, the counters kept by its rehashing callbacks, random sampling, the printing of listpacks, and reference counts.
  Hash tables whose stored keys differ in form from the keys that are looked up, and scan callbacks that delete entries, are outside of
  the contracts.
  Outside of them: the event loop, networking, persistence, replication, cluster, scripting, modules and tools act on the
  operating system or on other processes; the command files combine the containers with objects, the clock and replication;
  quicklist, radix tree, skip list and the expiration buckets are further containers that are left for later; checksums and
  hash functions are arguments of the models; and the TypeScript application around the server is glue between network services.
\<close>

end
